(* ===== verification/Prelude.thy ===== *)
theory Prelude
  imports "HOL-Library.Word" "HOL-Library.List_Lexorder"
begin

text \<open>
  Shared vocabulary of the development: the machine types of the Rust sources, panics as
  values, slices with their bounds checks, big-endian integers, and the interface every
  binary encoding of the store is proved against (locale \<open>codec\<close>).

  Conventions used by every component theory:
  \<^item> \<open>u8\<close> to \<open>u64\<close> are machine words of that width; \<open>+\<close> and \<open>*\<close> wrap around,
    as they do in the release profile of the crate (it sets no overflow checks);
  \<^item> \<open>usize\<close> is \<open>nat\<close>: it only ever counts bytes or elements of buffers in memory;
  \<^item> a panic (assertion, slice out of range, failed \<open>unwrap\<close>, explicit \<open>panic!\<close>) is
    the left value of \<open>'a res\<close>, so that every panicking branch of the source is a branch
    of its model;
  \<^item> \<open>Bytes\<close>, \<open>Vec<u8>\<close> and \<open>&[u8]\<close> are \<open>byte list\<close>; keys are ordered as Rust orders
    slices, lexicographically with a proper prefix first (\<open>List_Lexorder\<close>).
\<close>

unbundle bit_operations_syntax

section \<open>Machine types\<close>

type_synonym u8 = "8 word"
type_synonym u16 = "16 word"
type_synonym u32 = "32 word"
type_synonym u64 = "64 word"
type_synonym usize = nat
type_synonym byte = u8
type_synonym bytes = "byte list"

abbreviation u32_MAX :: u32 where
  "u32_MAX \<equiv> 0xFFFFFFFF"

abbreviation u64_MAX :: u64 where
  "u64_MAX \<equiv> 0xFFFFFFFFFFFFFFFF"

section \<open>Panics as values\<close>

datatype panic = AssertFailed | OutOfRange | UnwrapFailed | ExplicitPanic

type_synonym 'a res = "panic + 'a"

named_theorems res_simps \<open>evaluation of the panic monad\<close>

definition bindr :: "'a res \<Rightarrow> ('a \<Rightarrow> 'b res) \<Rightarrow> 'b res" where
  "bindr r f = (case r of Inl e \<Rightarrow> Inl e | Inr a \<Rightarrow> f a)"

definition assertr :: "bool \<Rightarrow> 'a res \<Rightarrow> 'a res" where
  "assertr b r = (if b then r else Inl AssertFailed)"

definition expectr :: "'a option \<Rightarrow> 'a res" where
  "expectr x = (case x of None \<Rightarrow> Inl UnwrapFailed | Some a \<Rightarrow> Inr a)"

fun traverse :: "('a \<Rightarrow> 'b res) \<Rightarrow> 'a list \<Rightarrow> 'b list res" where
  "traverse f [] = Inr []"
| "traverse f (x # xs) = bindr (f x) (\<lambda>y. bindr (traverse f xs) (\<lambda>ys. Inr (y # ys)))"

lemma bindr_simps [simp, res_simps]:
  "bindr (Inl e) f = Inl e"
  "bindr (Inr a) f = f a"
  by (simp_all add: bindr_def)

lemma assertr_simps [simp, res_simps]:
  "assertr True r = r"
  "assertr False r = Inl AssertFailed"
  by (simp_all add: assertr_def)

lemma expectr_simps [simp, res_simps]:
  "expectr None = Inl UnwrapFailed"
  "expectr (Some a) = Inr a"
  by (simp_all add: expectr_def)

lemma bindr_Inr_iff: "bindr r f = Inr b \<longleftrightarrow> (\<exists>a. r = Inr a \<and> f a = Inr b)"
  by (cases r) auto

lemma assertr_Inr_iff: "assertr b r = Inr a \<longleftrightarrow> b \<and> r = Inr a"
  by (simp add: assertr_def)

lemma traverse_Inr:
  "(\<And>x. x \<in> set xs \<Longrightarrow> f x = Inr (g x)) \<Longrightarrow> traverse f xs = Inr (map g xs)"
  by (induction xs) auto

lemma traverse_append:
  "traverse f (xs @ ys) =
     bindr (traverse f xs) (\<lambda>as. bindr (traverse f ys) (\<lambda>bs. Inr (as @ bs)))"
proof (induction xs)
  case Nil
  then show ?case by (cases "traverse f ys") auto
next
  case (Cons x xs)
  then show ?case
    by (cases "f x"; cases "traverse f xs"; cases "traverse f ys") auto
qed

section \<open>Slices\<close>

text \<open>\<open>&xs[a..b]\<close>, \<open>xs[i]\<close> and \<open>xs[a..a + ys.len()].copy_from_slice(ys)\<close>, with Rust's
  bounds checks.\<close>

definition slice_r :: "'a list \<Rightarrow> nat \<Rightarrow> nat \<Rightarrow> 'a list res" where
  "slice_r xs a b =
     (if a \<le> b \<and> b \<le> length xs then Inr (take (b - a) (drop a xs)) else Inl OutOfRange)"

definition index_r :: "'a list \<Rightarrow> nat \<Rightarrow> 'a res" where
  "index_r xs i = (if i < length xs then Inr (xs ! i) else Inl OutOfRange)"

definition overwrite :: "nat \<Rightarrow> 'a list \<Rightarrow> 'a list \<Rightarrow> 'a list" where
  "overwrite a ys xs = take a xs @ ys @ drop (a + length ys) xs"

definition copy_at_r :: "nat \<Rightarrow> 'a list \<Rightarrow> 'a list \<Rightarrow> 'a list res" where
  "copy_at_r a ys xs =
     (if a + length ys \<le> length xs then Inr (overwrite a ys xs) else Inl OutOfRange)"

lemma slice_r_middle:
  "a = length xs \<Longrightarrow> b = a + length ys \<Longrightarrow> slice_r (xs @ ys @ zs) a b = Inr ys"
  by (simp add: slice_r_def)

lemma slice_r_prefix [simp]: "slice_r (xs @ ys) 0 (length xs) = Inr xs"
  by (simp add: slice_r_def)

lemma slice_r_Inr_length: "slice_r xs a b = Inr ys \<Longrightarrow> length ys = b - a"
  by (auto simp: slice_r_def split: if_splits)

lemma length_overwrite [simp]:
  "a + length ys \<le> length xs \<Longrightarrow> length (overwrite a ys xs) = length xs"
  by (simp add: overwrite_def)

lemma overwrite_append:
  "length xs = a \<Longrightarrow> length ys = length ys' \<Longrightarrow>
     overwrite a ys' (xs @ ys @ zs) = xs @ ys' @ zs"
  by (simp add: overwrite_def)

section \<open>Big-endian integers\<close>

fun be_encode :: "nat \<Rightarrow> nat \<Rightarrow> bytes" where
  "be_encode 0 v = []"
| "be_encode (Suc n) v = be_encode n (v div 256) @ [of_nat v]"

definition be_decode :: "bytes \<Rightarrow> nat" where
  "be_decode bs = foldl (\<lambda>acc b. acc * 256 + unat b) 0 bs"

lemma length_be_encode [simp]: "length (be_encode n v) = n"
  by (induction n arbitrary: v) auto

lemma be_decode_Nil [simp]: "be_decode [] = 0"
  by (simp add: be_decode_def)

lemma be_decode_snoc [simp]: "be_decode (bs @ [b]) = be_decode bs * 256 + unat b"
  by (simp add: be_decode_def)

lemma unat_lt: "unat (w :: 'a::len word) < 2 ^ LENGTH('a)"
  by (rule unsigned_less)

lemma word_le_MAX [simp]: "w \<le> u32_MAX" "x \<le> u64_MAX"
  using unat_lt [of w] unat_lt [of x] by (simp_all add: word_le_nat_alt)

lemma unat_lt_no_bit:
  assumes "unat (w :: 'a::len word) < 2 ^ m" "m \<le> n"
  shows "\<not> bit w n"
proof -
  have "(2::nat) ^ m \<le> 2 ^ n" using assms(2) by simp
  then have "unat w < 2 ^ n" using assms(1) by linarith
  then have "\<not> bit (unat w) n" by (simp add: bit_iff_odd)
  then show ?thesis by (simp add: bit_unsigned_iff)
qed

lemma bit_unat_lt: "unat (w :: 'a::len word) < 2 ^ m \<Longrightarrow> bit w n \<Longrightarrow> n < m"
  using unat_lt_no_bit not_less by blast

lemma unat_byte_lt [simp]: "unat (b :: byte) < 256"
  using unat_lt [of b] by simp

lemma be_decode_lt: "be_decode bs < 256 ^ length bs"
proof (induction bs rule: rev_induct)
  case (snoc b bs)
  have "be_decode bs * 256 + unat b < (be_decode bs + 1) * 256"
    by simp
  also have "\<dots> \<le> 256 ^ length bs * 256"
    using snoc by (intro mult_le_mono1) simp
  finally show ?case by (simp add: mult.commute)
qed simp

lemma be_decode_encode: "be_decode (be_encode n v) = v mod 256 ^ n"
proof (induction n arbitrary: v)
  case (Suc n)
  have "v mod 256 ^ Suc n = 256 * (v div 256 mod 256 ^ n) + v mod 256"
    by (simp add: mod_mult2_eq mult.commute)
  with Suc show ?case by (simp add: unat_of_nat)
qed simp

lemma be_encode_decode: "be_encode (length bs) (be_decode bs) = bs"
proof (induction bs rule: rev_induct)
  case (snoc b bs)
  have "of_nat (be_decode bs * 256 + unat b) = b"
    by (rule word_unat_eq_iff [THEN iffD2]) (simp only: unat_of_nat, simp)
  with snoc show ?case by simp
qed simp

lemma be_decode_append:
  "be_decode (xs @ ys) = be_decode xs * 256 ^ length ys + be_decode ys"
proof (induction ys rule: rev_induct)
  case (snoc y ys)
  have "be_decode (xs @ ys @ [y]) = be_decode (xs @ ys) * 256 + unat y"
    using be_decode_snoc [of "xs @ ys" y] by simp
  with snoc show ?case by (simp add: algebra_simps)
qed simp

lemma be_encode_0: "be_encode n 0 = replicate n 0"
  by (induction n) (simp_all add: replicate_append_same)

lemma be_encode_4:
  "be_encode 4 v =
     [of_nat (v div 256 div 256 div 256), of_nat (v div 256 div 256), of_nat (v div 256), of_nat v]"
proof -
  have "4 = Suc (Suc (Suc (Suc 0)))" by simp
  then show ?thesis by (simp only: be_encode.simps append.simps)
qed

text \<open>On byte strings of one length, the lexicographic order is the order of the numbers
  they encode: the reason why fixed-width keys and cells can be compared either way.\<close>

lemma be_decode_Cons: "be_decode (x # xs) = unat x * 256 ^ length xs + be_decode xs"
  using be_decode_append [of "[x]" xs] be_decode_snoc [of "[]" x] by simp

lemma be_decode_less_iff:
  "length xs = length ys \<Longrightarrow> be_decode xs < be_decode ys \<longleftrightarrow> xs < ys"
proof (induction xs ys rule: list_induct2)
  case Nil
  then show ?case by simp
next
  case (Cons x xs y ys)
  let ?n = "length ys"
  have bx: "be_decode xs < 256 ^ ?n" and by': "be_decode ys < 256 ^ ?n"
    using be_decode_lt [of xs] be_decode_lt [of ys] Cons.hyps by simp_all
  have step: "a * 256 ^ ?n + be_decode xs < b * 256 ^ ?n" if "a < b" for a b :: nat
  proof -
    have "a * 256 ^ ?n + be_decode xs < (a + 1) * 256 ^ ?n"
      using bx by simp
    also have "\<dots> \<le> b * 256 ^ ?n"
      using that by (intro mult_le_mono1) simp
    finally show ?thesis .
  qed
  have step': "b * 256 ^ ?n + be_decode ys < a * 256 ^ ?n" if "b < a" for a b :: nat
  proof -
    have "b * 256 ^ ?n + be_decode ys < (b + 1) * 256 ^ ?n"
      using by' by simp
    also have "\<dots> \<le> a * 256 ^ ?n"
      using that by (intro mult_le_mono1) simp
    finally show ?thesis .
  qed
  consider "x < y" | "y < x" | "x = y" by (rule linorder_cases)
  then show ?case
  proof cases
    case 1
    then have "unat x < unat y" by (simp add: word_less_nat_alt)
    with step [of "unat x" "unat y"] 1 Cons.hyps show ?thesis
      by (simp add: be_decode_Cons)
  next
    case 2
    then have "unat y < unat x" by (simp add: word_less_nat_alt)
    with step' [of "unat y" "unat x"] 2 Cons.hyps show ?thesis
      by (auto simp: be_decode_Cons not_less)
  next
    case 3
    with Cons show ?thesis by (simp add: be_decode_Cons)
  qed
qed

lemma be_decode_le_iff:
  assumes "length xs = length ys"
  shows "be_decode xs \<le> be_decode ys \<longleftrightarrow> xs \<le> ys"
proof -
  have "\<not> be_decode ys < be_decode xs \<longleftrightarrow> \<not> ys < xs"
    using be_decode_less_iff [of ys xs] assms by simp
  then show ?thesis by (simp add: not_less)
qed

text \<open>The fixed-width accessors of the \<open>bytes\<close> crate: \<open>put_u16\<close> \<dots> append, \<open>get_u16\<close> \<dots>
  consume, and panic when fewer bytes remain.\<close>

definition put_u16 :: "u16 \<Rightarrow> bytes" where
  "put_u16 v = be_encode 2 (unat v)"

definition put_u32 :: "u32 \<Rightarrow> bytes" where
  "put_u32 v = be_encode 4 (unat v)"

definition put_u64 :: "u64 \<Rightarrow> bytes" where
  "put_u64 v = be_encode 8 (unat v)"

definition get_u8 :: "bytes \<Rightarrow> (u8 \<times> bytes) res" where
  "get_u8 b = (case b of [] \<Rightarrow> Inl OutOfRange | x # r \<Rightarrow> Inr (x, r))"

definition get_be :: "nat \<Rightarrow> bytes \<Rightarrow> ('w::len word \<times> bytes) res" where
  "get_be n b =
     (if length b < n then Inl OutOfRange
      else Inr (of_nat (be_decode (take n b)), drop n b))"

definition get_u16 :: "bytes \<Rightarrow> (u16 \<times> bytes) res" where
  "get_u16 = get_be 2"

definition get_u32 :: "bytes \<Rightarrow> (u32 \<times> bytes) res" where
  "get_u32 = get_be 4"

definition get_u64 :: "bytes \<Rightarrow> (u64 \<times> bytes) res" where
  "get_u64 = get_be 8"

text \<open>\<open>u32::from_be_bytes(b[a..a + 4].try_into().unwrap())\<close> and its relatives.\<close>

definition from_be_at :: "nat \<Rightarrow> bytes \<Rightarrow> nat \<Rightarrow> ('w::len word) res" where
  "from_be_at n b a = bindr (slice_r b a (a + n)) (\<lambda>s. Inr (of_nat (be_decode s)))"

named_theorems codec_simps \<open>round trips of the fixed-width accessors\<close>

lemma length_put [simp, codec_simps]:
  "length (put_u16 v) = 2" "length (put_u32 w) = 4" "length (put_u64 x) = 8"
  by (simp_all add: put_u16_def put_u32_def put_u64_def)

lemma be_decode_put [codec_simps]:
  "be_decode (put_u16 v) = unat v"
  "be_decode (put_u32 w) = unat w"
  "be_decode (put_u64 x) = unat x"
  using unat_lt [of v] unat_lt [of w] unat_lt [of x]
  by (simp_all add: put_u16_def put_u32_def put_u64_def be_decode_encode)

lemma put_0: "put_u32 0 = replicate 4 0" "put_u64 0 = replicate 8 0"
  by (simp_all add: put_u32_def put_u64_def be_encode_0)

lemma get_put [simp, codec_simps]:
  "get_u16 (put_u16 v @ r) = Inr (v, r)"
  "get_u32 (put_u32 w @ r) = Inr (w, r)"
  "get_u64 (put_u64 x @ r) = Inr (x, r)"
  by (simp_all add: get_u16_def get_u32_def get_u64_def get_be_def be_decode_put)

lemma get_u8_Cons [simp, codec_simps]: "get_u8 (b # r) = Inr (b, r)" "get_u8 [] = Inl OutOfRange"
  by (simp_all add: get_u8_def)

lemma from_be_at_put:
  "a = length xs \<Longrightarrow> from_be_at 2 (xs @ put_u16 v @ ys) a = Inr v"
  "a = length xs \<Longrightarrow> from_be_at 4 (xs @ put_u32 w @ ys) a = Inr w"
  "a = length xs \<Longrightarrow> from_be_at 8 (xs @ put_u64 x @ ys) a = Inr x"
  by (simp_all add: from_be_at_def slice_r_middle be_decode_put)

section \<open>Encodings\<close>

text \<open>
  A value of the store is decoded from the front of a buffer, and the decoder hands back
  what follows it. Every encoding the code writes and reads back promises the round trip in
  this form, whatever follows the value.
\<close>

fun decode_many :: "(bytes \<Rightarrow> ('a \<times> bytes) res) \<Rightarrow> nat \<Rightarrow> bytes \<Rightarrow> ('a list \<times> bytes) res" where
  "decode_many dec 0 b = Inr ([], b)"
| "decode_many dec (Suc n) b =
     bindr (dec b) (\<lambda>(x, r). bindr (decode_many dec n r) (\<lambda>(xs, r'). Inr (x # xs, r')))"

locale codec =
  fixes enc :: "'a \<Rightarrow> bytes"
    and dec :: "bytes \<Rightarrow> ('a \<times> bytes) res"
    and ok :: "'a \<Rightarrow> bool"
  assumes dec_enc: "ok x \<Longrightarrow> dec (enc x @ r) = Inr (x, r)"
begin

lemma enc_prefix_free:
  assumes "ok x" "ok y" "enc x @ r = enc y @ s"
  shows "x = y \<and> r = s"
proof -
  have "Inr (x, r) = dec (enc x @ r)"
    by (rule dec_enc [OF assms(1), symmetric])
  also have "\<dots> = dec (enc y @ s)"
    by (simp only: assms(3))
  also have "\<dots> = Inr (y, s)"
    by (rule dec_enc [OF assms(2)])
  finally show ?thesis by simp
qed

lemma enc_inj:
  assumes "ok x" "ok y" "enc x = enc y"
  shows "x = y"
proof -
  have "enc x @ [] = enc y @ []" by (simp only: assms(3))
  then show ?thesis using enc_prefix_free [OF assms(1,2)] by blast
qed

lemma dec_enc_many:
  "\<forall>x \<in> set xs. ok x \<Longrightarrow>
     decode_many dec (length xs) (concat (map enc xs) @ r) = Inr (xs, r)"
  by (induction xs) (simp_all add: dec_enc)

end

end
