(* ===== verification/Sorted_Map.thy ===== *)
theory Sorted_Map
  imports Prelude
begin

text \<open>
  \<open>std::collections::BTreeMap\<close> as the sources use it: an association list with strictly
  ascending keys. The theory gives the operations the components call, the interface they
  rely on (locale \<open>ordered_map\<close>, interpreted here), ordered neighbours (\<open>range(..).next()\<close>
  and \<open>range(..).next_back()\<close>), \<open>retain\<close>, and the two-way merge of ascending streams that
  the index code writes out several times.
\<close>

type_synonym ('k, 'v) smap = "('k \<times> 'v) list"

definition sm_wf :: "('k::linorder, 'v) smap \<Rightarrow> bool" where
  "sm_wf m \<longleftrightarrow> sorted_wrt (<) (map fst m)"

fun sm_insert :: "'k::linorder \<Rightarrow> 'v \<Rightarrow> ('k, 'v) smap \<Rightarrow> ('k, 'v) smap" where
  "sm_insert k v [] = [(k, v)]"
| "sm_insert k v ((k', v') # m) =
     (if k < k' then (k, v) # (k', v') # m
      else if k = k' then (k, v) # m
      else (k', v') # sm_insert k v m)"

definition sm_remove :: "'k::linorder \<Rightarrow> ('k, 'v) smap \<Rightarrow> ('k, 'v) smap" where
  "sm_remove k m = filter (\<lambda>e. fst e \<noteq> k) m"

definition sm_retain :: "('k \<Rightarrow> 'v \<Rightarrow> bool) \<Rightarrow> ('k::linorder, 'v) smap \<Rightarrow> ('k, 'v) smap" where
  "sm_retain p m = filter (\<lambda>e. p (fst e) (snd e)) m"

text \<open>\<open>range((Excluded(p), Unbounded)).next()\<close> and \<open>range((Unbounded, Excluded(p))).next_back()\<close>;
  with no bound the first and the last entry.\<close>

definition sm_after :: "'k::linorder option \<Rightarrow> ('k, 'v) smap \<Rightarrow> ('k, 'v) smap" where
  "sm_after p m = (case p of None \<Rightarrow> m | Some b \<Rightarrow> filter (\<lambda>e. b < fst e) m)"

definition sm_before :: "'k::linorder option \<Rightarrow> ('k, 'v) smap \<Rightarrow> ('k, 'v) smap" where
  "sm_before p m = (case p of None \<Rightarrow> m | Some b \<Rightarrow> filter (\<lambda>e. fst e < b) m)"

definition first_of :: "'a list \<Rightarrow> 'a option" where
  "first_of xs = (case xs of [] \<Rightarrow> None | x # _ \<Rightarrow> Some x)"

definition last_of :: "'a list \<Rightarrow> 'a option" where
  "last_of xs = (if xs = [] then None else Some (last xs))"

text \<open>Two ascending streams merged, the right one winning on equal keys.\<close>

fun merge_over :: "('k::linorder, 'v) smap \<Rightarrow> ('k, 'v) smap \<Rightarrow> ('k, 'v) smap" where
  "merge_over [] ys = ys"
| "merge_over xs [] = xs"
| "merge_over ((k, v) # xs) ((l, w) # ys) =
     (if k < l then (k, v) # merge_over xs ((l, w) # ys)
      else if l < k then (l, w) # merge_over ((k, v) # xs) ys
      else (l, w) # merge_over xs ys)"

section \<open>Well-formedness\<close>

lemma sm_wf_Nil [simp]: "sm_wf []"
  by (simp add: sm_wf_def)

lemma sm_wf_Cons [simp]: "sm_wf ((k, v) # m) \<longleftrightarrow> sm_wf m \<and> (\<forall>e \<in> set m. k < fst e)"
  by (auto simp: sm_wf_def)

lemma sm_wf_distinct: "sm_wf m \<Longrightarrow> distinct (map fst m)"
  by (auto simp: sm_wf_def strict_sorted_iff)

lemma sm_wf_append:
  "sm_wf (xs @ ys) \<longleftrightarrow> sm_wf xs \<and> sm_wf ys \<and> (\<forall>a \<in> set xs. \<forall>b \<in> set ys. fst a < fst b)"
  by (auto simp: sm_wf_def sorted_wrt_append)

lemma sm_wf_filter: "sm_wf m \<Longrightarrow> sm_wf (filter P m)"
  by (induction m) auto

lemma sm_wf_map_keys: "map fst m' = map fst m \<Longrightarrow> sm_wf m' \<longleftrightarrow> sm_wf m"
  by (simp add: sm_wf_def)

lemma sm_wf_map_snd [simp]: "sm_wf (map (\<lambda>e. (fst e, f (fst e) (snd e))) m) \<longleftrightarrow> sm_wf m"
  by (rule sm_wf_map_keys) (simp add: comp_def)

lemma sm_insert_key: "e \<in> set (sm_insert k v m) \<Longrightarrow> fst e = k \<or> e \<in> set m"
  by (induction m) (auto split: if_splits)

lemma sm_wf_insert: "sm_wf m \<Longrightarrow> sm_wf (sm_insert k v m)"
proof (induction m)
  case (Cons e m)
  obtain k' v' where e: "e = (k', v')" by (cases e)
  show ?case
  proof (cases "k' < k")
    case True
    then have "\<forall>e' \<in> set (sm_insert k v m). k' < fst e'"
      using Cons.prems e sm_insert_key [of _ k v m] by auto
    with True Cons e show ?thesis by auto
  next
    case False
    with Cons.prems e show ?thesis by auto
  qed
qed simp

lemma sm_wf_remove: "sm_wf m \<Longrightarrow> sm_wf (sm_remove k m)"
  by (simp add: sm_remove_def sm_wf_filter)

section \<open>Lookups\<close>

lemma map_of_sm_insert: "map_of (sm_insert k v m) = (map_of m)(k \<mapsto> v)"
  by (induction m) (auto simp: fun_eq_iff)

lemma map_of_filter_key: "map_of (filter (\<lambda>e. P (fst e)) m) k = (if P k then map_of m k else None)"
  by (induction m) auto

lemma map_of_sm_remove: "map_of (sm_remove k m) = (map_of m)(k := None)"
  by (induction m) (auto simp: sm_remove_def fun_eq_iff)

lemma map_of_not_key: "(\<And>e. e \<in> set m \<Longrightarrow> fst e \<noteq> k) \<Longrightarrow> map_of m k = None"
  by (induction m) auto

lemma map_of_lt_None: "\<forall>e \<in> set m. k < fst e \<Longrightarrow> map_of m (k::'k::linorder) = None"
  by (rule map_of_not_key) auto

lemma map_of_sm_retain:
  "sm_wf m \<Longrightarrow> map_of (sm_retain p m) k =
     (case map_of m k of None \<Rightarrow> None | Some v \<Rightarrow> if p k v then Some v else None)"
proof (induction m)
  case (Cons e m)
  obtain k' v' where e: "e = (k', v')" by (cases e)
  have "map_of m k' = None"
    using Cons.prems e by (auto intro: map_of_lt_None)
  moreover have "sm_wf m" using Cons.prems e by simp
  ultimately show ?case using Cons.IH e by (auto simp: sm_retain_def)
qed (simp add: sm_retain_def)

lemma map_of_map_snd: "map_of (map (\<lambda>e. (fst e, f (fst e) (snd e))) m) k = map_option (f k) (map_of m k)"
  by (induction m) auto

text \<open>A map of this kind is determined by its lookups.\<close>

lemma sm_eqI:
  assumes "sm_wf xs" "sm_wf ys" "map_of xs = map_of ys"
  shows "xs = ys"
proof -
  have d: "distinct (map fst xs)" "distinct (map fst ys)"
    using assms sm_wf_distinct by auto
  then have eq: "set xs = set ys"
    using assms(3) map_of_inject_set by blast
  have "inj_on fst (set xs)"
    using d(1) by (simp add: distinct_map)
  moreover have "sorted (map fst xs)" "sorted (map fst ys)"
    using assms by (simp_all add: sm_wf_def strict_sorted_iff)
  ultimately show ?thesis
    using d eq by (intro map_sorted_distinct_set_unique [where f = fst]) simp_all
qed

section \<open>The interface\<close>

locale ordered_map =
  fixes empty :: "'m"
    and get :: "'m \<Rightarrow> 'k::linorder \<Rightarrow> 'v option"
    and ins :: "'k \<Rightarrow> 'v \<Rightarrow> 'm \<Rightarrow> 'm"
    and rem :: "'k \<Rightarrow> 'm \<Rightarrow> 'm"
    and entries :: "'m \<Rightarrow> ('k, 'v) smap"
    and invar :: "'m \<Rightarrow> bool"
  assumes get_empty: "get empty = Map.empty"
    and get_ins: "invar m \<Longrightarrow> get (ins k v m) = (get m)(k \<mapsto> v)"
    and get_rem: "invar m \<Longrightarrow> get (rem k m) = (get m)(k := None)"
    and get_entries: "invar m \<Longrightarrow> map_of (entries m) = get m"
    and invar_empty: "invar empty"
    and invar_ins: "invar m \<Longrightarrow> invar (ins k v m)"
    and invar_rem: "invar m \<Longrightarrow> invar (rem k m)"
    and entries_ascend: "invar m \<Longrightarrow> sm_wf (entries m)"
begin

lemma get_iff_entry: "invar m \<Longrightarrow> get m k = Some v \<longleftrightarrow> (k, v) \<in> set (entries m)"
  using map_of_eq_Some_iff [OF sm_wf_distinct [OF entries_ascend]] get_entries by metis

lemma finite_dom: "invar m \<Longrightarrow> finite (dom (get m))"
  by (metis finite_dom_map_of get_entries)

text \<open>Iteration order is canonical: two maps with the same lookups iterate alike.\<close>

lemma entries_canonical:
  assumes "invar m" "invar m'" "get m = get m'"
  shows "entries m = entries m'"
  using assms by (auto intro: sm_eqI entries_ascend simp: get_entries)

end

interpretation btree: ordered_map "[]" map_of sm_insert sm_remove "\<lambda>m. m" sm_wf
  by unfold_locales (auto simp: map_of_sm_insert map_of_sm_remove sm_wf_insert sm_wf_remove)

section \<open>Ordered neighbours\<close>

lemma first_of_simps [simp]:
  "first_of [] = None" "first_of (x # xs) = Some x"
  by (simp_all add: first_of_def)

lemma last_of_simps [simp]:
  "last_of [] = None" "last_of (xs @ [x]) = Some x" "last_of [x] = Some x"
  by (simp_all add: last_of_def)

lemma last_of_Some: "last_of xs = Some x \<Longrightarrow> x \<in> set xs"
  by (auto simp: last_of_def split: if_splits)

lemma first_of_Some: "first_of xs = Some x \<Longrightarrow> x \<in> set xs"
  by (cases xs) auto

lemma sm_wf_after: "sm_wf m \<Longrightarrow> sm_wf (sm_after p m)"
  by (cases p) (simp_all add: sm_after_def sm_wf_filter)

lemma sm_wf_before: "sm_wf m \<Longrightarrow> sm_wf (sm_before p m)"
  by (cases p) (simp_all add: sm_before_def sm_wf_filter)

lemma first_of_sm_iff:
  "sm_wf m \<Longrightarrow> first_of m = Some (k, v) \<longleftrightarrow>
     (k, v) \<in> set m \<and> (\<forall>e \<in> set m. k \<le> fst e)"
  by (cases m) force+

lemma last_of_sm_iff:
  assumes "sm_wf m"
  shows "last_of m = Some (k, v) \<longleftrightarrow> (k, v) \<in> set m \<and> (\<forall>e \<in> set m. fst e \<le> k)"
proof (cases m rule: rev_cases)
  case (snoc ys y)
  then have "\<forall>a \<in> set ys. fst a < fst y"
    using assms by (auto simp: sm_wf_append)
  with snoc show ?thesis by force
qed simp

section \<open>Merging\<close>

lemma set_merge_over_key:
  "e \<in> set (merge_over xs ys) \<Longrightarrow> e \<in> set xs \<or> e \<in> set ys"
  by (induction xs ys rule: merge_over.induct) (auto split: if_splits)

lemma sm_wf_merge_over: "sm_wf xs \<Longrightarrow> sm_wf ys \<Longrightarrow> sm_wf (merge_over xs ys)"
proof (induction xs ys rule: merge_over.induct)
  case (3 k v xs l w ys)
  show ?case
  proof (cases k l rule: linorder_cases)
    case less
    have "k < fst e" if "e \<in> set (merge_over xs ((l, w) # ys))" for e
      using set_merge_over_key [OF that] 3 less by auto
    with less 3 show ?thesis by simp
  next
    case equal
    have "l < fst e" if "e \<in> set (merge_over xs ys)" for e
      using set_merge_over_key [OF that] 3 equal by auto
    with equal 3 show ?thesis by simp
  next
    case greater
    have "l < fst e" if "e \<in> set (merge_over ((k, v) # xs) ys)" for e
      using set_merge_over_key [OF that] 3 greater by auto
    with greater 3 show ?thesis by simp
  qed
qed simp_all

lemma map_of_merge_over:
  "sm_wf xs \<Longrightarrow> sm_wf ys \<Longrightarrow> map_of (merge_over xs ys) = map_of xs ++ map_of ys"
proof (induction xs ys rule: merge_over.induct)
  case (3 k v xs l w ys)
  show ?case
  proof (cases k l rule: linorder_cases)
    case less
    then have "map_of ((l, w) # ys) k = None"
      using 3 by (intro map_of_lt_None) auto
    with less 3 show ?thesis by (auto simp: fun_eq_iff map_add_def split: option.splits)
  next
    case equal
    with 3 show ?thesis by (auto simp: fun_eq_iff map_add_def split: option.splits)
  next
    case greater
    with 3 show ?thesis by (auto simp: fun_eq_iff map_add_def split: option.splits)
  qed
qed simp_all

lemma merge_over_Nil2 [simp]: "merge_over xs [] = xs"
  by (cases xs) auto

end
