(* ===== verification/Math_Util.thy ===== *)
theory Math_Util
  imports Prelude
begin

text \<open>
  \<open>tidehunter/src/math.rs\<close>: scaling a 32-bit key prefix to a bucket number, the leading and
  trailing words of a key, and the bounded successor used to walk cells. The lemmas are the
  ones the key-to-cell mapping rests on: the bucket is in range, scaling and prefix
  extraction are monotone, so cells are visited in key order.
\<close>

definition rescale_u32 :: "u32 \<Rightarrow> u64 \<Rightarrow> u32 \<Rightarrow> u32 res" where
  "rescale_u32 v from_upper_bound_exclusive to_upper_bound_exclusive =
     assertr ((ucast v :: u64) < from_upper_bound_exclusive)
     (assertr (0 < to_upper_bound_exclusive)
       (let bucket = (ucast v :: u64) * ucast to_upper_bound_exclusive
                       div from_upper_bound_exclusive
        in if bucket \<le> 0xFFFFFFFF then Inr (ucast bucket) else Inl UnwrapFailed))"

definition downscale_u32 :: "u32 \<Rightarrow> u32 \<Rightarrow> u32 res" where
  "downscale_u32 v upper_bound_exclusive = rescale_u32 v (0xFFFFFFFF + 1) upper_bound_exclusive"

definition starting_u32 :: "bytes \<Rightarrow> u32" where
  "starting_u32 sl =
     (let copy = min (length sl) 4;
          p = overwrite 0 (take copy sl) (replicate 4 0)
      in of_nat (be_decode p))"

definition ending_u32 :: "bytes \<Rightarrow> u32" where
  "ending_u32 sl =
     (let copy = min (length sl) 4;
          p = overwrite (4 - copy) (drop (length sl - copy) sl) (replicate 4 0)
      in of_nat (be_decode p))"

definition starting_u64 :: "bytes \<Rightarrow> u64" where
  "starting_u64 sl =
     (let copy = min (length sl) 8;
          p = overwrite 0 (take copy sl) (replicate 8 0)
      in of_nat (be_decode p))"

text \<open>The subtraction \<open>max_excluded - 1\<close> wraps to \<open>usize::MAX\<close> at zero.\<close>

definition next_bounded :: "usize \<Rightarrow> usize \<Rightarrow> bool \<Rightarrow> usize option" where
  "next_bounded n max_excluded reverse =
     (if reverse then (if n = 0 then None else Some (n - 1))
      else if n \<ge> (if max_excluded = 0 then 2 ^ 64 - 1 else max_excluded - 1) then None
      else Some (n + 1))"

section \<open>Scaling\<close>

lemma unat_ucast_u32_u64 [simp]: "unat (ucast (v :: u32) :: u64) = unat v"
  using unat_lt [of v] by (simp add: unsigned_ucast_eq take_bit_nat_eq_self)

lemma u32_mult_no_overflow:
  "unat ((ucast (v :: u32) :: u64) * ucast (w :: u32)) = unat v * unat w"
proof -
  have "unat v * unat w < 2 ^ 32 * 2 ^ 32"
    using unat_lt [of v] unat_lt [of w] by (intro mult_strict_mono) simp_all
  then have "unat v * unat w < 2 ^ LENGTH(64)" by simp
  then show ?thesis by (simp add: unat_word_ariths)
qed

lemma rescale_u32_eq:
  assumes "unat v < unat from" "0 < to"
  shows "rescale_u32 v from to = Inr (of_nat (unat v * unat to div unat from))"
    and "unat v * unat to div unat from < unat to"
proof -
  let ?b = "(ucast v :: u64) * ucast to div from"
  have b: "unat ?b = unat v * unat to div unat from"
    by (simp add: unat_div u32_mult_no_overflow)
  have to0: "0 < unat to" using assms(2) by (simp add: unat_gt_0)
  show lt: "unat v * unat to div unat from < unat to"
    using assms(1) to0 by (simp add: div_less_iff_less_mult mult.commute)
  then have "unat ?b < 2 ^ 32"
    using b unat_lt [of to] by simp
  then have le: "?b \<le> 0xFFFFFFFF"
    by (simp add: word_le_nat_alt)
  have "ucast ?b = (of_nat (unat ?b) :: u32)"
    by (simp add: word_unat_eq_iff unsigned_ucast_eq unsigned_of_nat)
  with le b assms show "rescale_u32 v from to = Inr (of_nat (unat v * unat to div unat from))"
    by (simp add: rescale_u32_def word_less_nat_alt)
qed

lemma downscale_u32_eq:
  assumes "0 < n"
  shows "downscale_u32 v n = Inr (of_nat (unat v * unat n div 2 ^ 32))"
    and "unat v * unat n div 2 ^ 32 < unat n"
  using rescale_u32_eq [of v "0xFFFFFFFF + 1" n] assms unat_lt [of v]
  by (simp_all add: downscale_u32_def)

lemma downscale_u32_range:
  assumes "0 < n"
  shows "\<exists>b. downscale_u32 v n = Inr b \<and> b < n \<and> unat b = unat v * unat n div 2 ^ 32"
proof -
  let ?b = "unat v * unat n div 2 ^ 32"
  have "?b < 2 ^ LENGTH(32)"
    using downscale_u32_eq(2) [OF assms, of v] unat_lt [of n] by simp
  then have "unat (of_nat ?b :: u32) = ?b" by (simp add: unat_of_nat)
  then show ?thesis
    using downscale_u32_eq [OF assms, of v] by (auto simp: word_less_nat_alt)
qed

lemma downscale_u32_mono:
  assumes "v \<le> w" "downscale_u32 v n = Inr a" "downscale_u32 w n = Inr b" "0 < n"
  shows "a \<le> b"
proof -
  have "unat a = unat v * unat n div 2 ^ 32" "unat b = unat w * unat n div 2 ^ 32"
    using downscale_u32_range [OF assms(4)] assms(2,3) by (metis Inr_inject)+
  moreover have "unat v * unat n div 2 ^ 32 \<le> unat w * unat n div 2 ^ 32"
    using assms(1) by (intro div_le_mono mult_le_mono1) (simp add: word_le_nat_alt)
  ultimately show ?thesis by (simp add: word_le_nat_alt)
qed

section \<open>Leading words\<close>

definition zero_padded :: "nat \<Rightarrow> bytes \<Rightarrow> bytes" where
  "zero_padded n xs = take n (xs @ replicate n 0)"

lemma length_zero_padded [simp]: "length (zero_padded n xs) = n"
  by (simp add: zero_padded_def)

lemma zero_padded_simps [simp]:
  "zero_padded 0 xs = []"
  "zero_padded (Suc n) [] = 0 # zero_padded n []"
  "zero_padded (Suc n) (x # xs) = x # zero_padded n xs"
proof -
  have "take n (xs @ replicate (Suc n) 0) = take n (xs @ replicate n (0 :: byte))"
    by (cases "n \<le> length xs") (simp_all add: take_Cons' replicate_append_same [symmetric])
  then show "zero_padded (Suc n) (x # xs) = x # zero_padded n xs"
    by (simp add: zero_padded_def)
qed (simp_all add: zero_padded_def)

lemma overwrite_zero_padded:
  "overwrite 0 (take (min (length sl) n) sl) (replicate n 0) = zero_padded n sl"
  by (cases "length sl \<le> n") (simp_all add: overwrite_def zero_padded_def)

lemma starting_u32_padded: "starting_u32 sl = of_nat (be_decode (zero_padded 4 sl))"
  by (simp add: starting_u32_def overwrite_zero_padded)

lemma starting_u64_padded: "starting_u64 sl = of_nat (be_decode (zero_padded 8 sl))"
  by (simp add: starting_u64_def overwrite_zero_padded)

lemma zero_padded_Nil_le: "zero_padded n [] \<le> zero_padded n ys"
proof (induction n arbitrary: ys)
  case (Suc n)
  show ?case
  proof (cases ys)
    case (Cons y ys')
    with Suc [of ys'] show ?thesis by (cases "y = 0") (simp_all add: word_neq_0_conv)
  qed simp
qed simp

lemma zero_padded_mono: "xs \<le> ys \<Longrightarrow> zero_padded n xs \<le> zero_padded n ys"
proof (induction n arbitrary: xs ys)
  case (Suc n)
  show ?case
  proof (cases xs)
    case Nil
    then show ?thesis by (simp only: zero_padded_Nil_le)
  next
    case (Cons x xs')
    with Suc.prems obtain y ys' where "ys = y # ys'" "x < y \<or> x = y \<and> xs' \<le> ys'"
      by (cases ys) auto
    with Cons Suc.IH show ?thesis by auto
  qed
qed simp

lemma unat_starting_u32: "unat (starting_u32 sl) = be_decode (zero_padded 4 sl)"
proof -
  have "be_decode (zero_padded 4 sl) < 2 ^ LENGTH(32)"
    using be_decode_lt [of "zero_padded 4 sl"] by simp
  then show ?thesis by (simp add: starting_u32_padded unat_of_nat)
qed

lemma unat_starting_u64: "unat (starting_u64 sl) = be_decode (zero_padded 8 sl)"
proof -
  have "be_decode (zero_padded 8 sl) < 2 ^ LENGTH(64)"
    using be_decode_lt [of "zero_padded 8 sl"] by simp
  then show ?thesis by (simp add: starting_u64_padded unat_of_nat)
qed

lemma starting_u32_mono: "xs \<le> ys \<Longrightarrow> starting_u32 xs \<le> starting_u32 ys"
  by (simp add: word_le_nat_alt unat_starting_u32 be_decode_le_iff zero_padded_mono)

lemma starting_u64_mono: "xs \<le> ys \<Longrightarrow> starting_u64 xs \<le> starting_u64 ys"
  by (simp add: word_le_nat_alt unat_starting_u64 be_decode_le_iff zero_padded_mono)

section \<open>Bounded successor\<close>

lemma next_bounded_forward:
  "n < m \<Longrightarrow> next_bounded n m False = (if n + 1 < m then Some (n + 1) else None)"
  by (auto simp: next_bounded_def)

lemma next_bounded_backward:
  "next_bounded n m True = (if n = 0 then None else Some (n - 1))"
  by (simp add: next_bounded_def)

end
