(* ===== verification/Var_Int.thy ===== *)
theory Var_Int
  imports Prelude
begin

text \<open>
  \<open>tidehunter/src/primitives/var_int.rs\<close>: the one- or two-byte encoding of 15-bit lengths
  used for the keys of variable-length index blobs.
\<close>

definition MAX_U16_VARINT :: u16 where
  "MAX_U16_VARINT = 0x7FFF"

definition MAX_SINGLE_BYTE_EXCLUDED :: u16 where
  "MAX_SINGLE_BYTE_EXCLUDED = 0x80"

definition serialize_u16_varint :: "u16 \<Rightarrow> bytes res" where
  "serialize_u16_varint value =
     (if value > MAX_U16_VARINT then Inl ExplicitPanic
      else if value < MAX_SINGLE_BYTE_EXCLUDED then Inr [ucast value]
      else
        let low = (ucast (value AND 0x7F) :: u8);
            high = (ucast (drop_bit 7 value) :: u8)
        in Inr [ucast MAX_SINGLE_BYTE_EXCLUDED OR low, high])"

definition deserialize_u16_varint :: "bytes \<Rightarrow> (u16 \<times> bytes) res" where
  "deserialize_u16_varint buf =
     (case buf of
        [] \<Rightarrow> Inl ExplicitPanic
      | first # buf' \<Rightarrow>
          if first < 0x80 then Inr (ucast first, buf')
          else (case buf' of
                  [] \<Rightarrow> Inl ExplicitPanic
                | second # buf'' \<Rightarrow>
                    let low = (ucast (first AND 0x7F) :: u16);
                        high = push_bit 7 (ucast second :: u16)
                    in Inr (high OR low, buf'')))"

text \<open>What the encoder wrote, as a total function on the lengths it accepts.\<close>

definition varint_bytes :: "u16 \<Rightarrow> bytes" where
  "varint_bytes v = (case serialize_u16_varint v of Inl _ \<Rightarrow> [] | Inr b \<Rightarrow> b)"

lemma serialize_u16_varint_ok:
  "v \<le> MAX_U16_VARINT \<Longrightarrow> serialize_u16_varint v = Inr (varint_bytes v)"
  by (auto simp: varint_bytes_def serialize_u16_varint_def Let_def not_less)

lemma serialize_u16_varint_panics:
  "\<not> v \<le> MAX_U16_VARINT \<Longrightarrow> serialize_u16_varint v = Inl ExplicitPanic"
  by (simp add: serialize_u16_varint_def not_le)

lemma varint_one_byte:
  assumes "v < MAX_SINGLE_BYTE_EXCLUDED"
  shows "varint_bytes v = [ucast v]" "(ucast v :: u8) < 0x80" "ucast (ucast v :: u8) = v"
proof -
  have lt: "unat v < 128"
    using assms by (simp add: MAX_SINGLE_BYTE_EXCLUDED_def word_less_nat_alt)
  then have "v \<le> MAX_U16_VARINT"
    by (simp add: MAX_U16_VARINT_def word_le_nat_alt)
  then show "varint_bytes v = [ucast v]"
    using assms by (simp add: varint_bytes_def serialize_u16_varint_def not_less)
  have u: "unat (ucast v :: u8) = unat v"
    using lt by (simp add: unsigned_ucast_eq take_bit_nat_eq_self)
  then show "(ucast v :: u8) < 0x80"
    using lt by (simp add: word_less_nat_alt)
  show "ucast (ucast v :: u8) = v"
    using bit_unat_lt [of v 8] lt
    by (intro bit_word_eqI) (auto simp: bit_simps)
qed

lemma varint_masks:
  "(0x7F :: 'a::len word) = mask 7"
  "bit (0x80 :: 'b::semiring_bit_operations) n \<longleftrightarrow> n = 7 \<and> possible_bit TYPE('b) 7"
proof -
  show "(0x7F :: 'a::len word) = mask 7" by (simp add: mask_eq_exp_minus_1)
  have "bit (2 ^ 7 :: 'b) n \<longleftrightarrow> n = 7 \<and> possible_bit TYPE('b) 7"
    by (simp only: bit_exp_iff) auto
  then show "bit (0x80 :: 'b) n \<longleftrightarrow> n = 7 \<and> possible_bit TYPE('b) 7" by simp
qed

lemma varint_two_bytes:
  assumes "\<not> v < MAX_SINGLE_BYTE_EXCLUDED" "v \<le> MAX_U16_VARINT"
  shows "varint_bytes v = [0x80 OR ucast (v AND 0x7F), ucast (drop_bit 7 v)]"
    and "\<not> (0x80 OR ucast (v AND 0x7F) :: u8) < 0x80"
    and "push_bit 7 (ucast (ucast (drop_bit 7 v) :: u8) :: u16)
           OR ucast ((0x80 OR ucast (v AND 0x7F) :: u8) AND 0x7F) = v"
proof -
  show "varint_bytes v = [0x80 OR ucast (v AND 0x7F), ucast (drop_bit 7 v)]"
    using assms
    by (simp add: varint_bytes_def serialize_u16_varint_def Let_def not_less
        MAX_SINGLE_BYTE_EXCLUDED_def)
  show "\<not> (0x80 OR ucast (v AND 0x7F) :: u8) < 0x80"
    by (simp add: not_less le_word_or2)
  have "unat v < 2 ^ 15"
    using assms(2) by (simp add: MAX_U16_VARINT_def word_le_nat_alt)
  then have top: "\<not> bit v n" if "15 \<le> n" for n
    using unat_lt_no_bit that by blast
  show "push_bit 7 (ucast (ucast (drop_bit 7 v) :: u8) :: u16)
          OR ucast ((0x80 OR ucast (v AND 0x7F) :: u8) AND 0x7F) = v"
  proof (rule bit_word_eqI)
    fix n assume "n < LENGTH(16)"
    then show "bit (push_bit 7 (ucast (ucast (drop_bit 7 v) :: u8) :: u16)
          OR ucast ((0x80 OR ucast (v AND 0x7F) :: u8) AND 0x7F)) n = bit v n"
      using top [of n] unfolding varint_masks(1)
      by (cases "n < 7"; cases "n < 15") (auto simp: bit_simps varint_masks(2))
  qed
qed

lemma deserialize_varint_bytes:
  assumes "v \<le> MAX_U16_VARINT"
  shows "deserialize_u16_varint (varint_bytes v @ r) = Inr (v, r)"
proof (cases "v < MAX_SINGLE_BYTE_EXCLUDED")
  case True
  then show ?thesis
    by (simp add: varint_one_byte deserialize_u16_varint_def)
next
  case False
  then show ?thesis
    using varint_two_bytes [OF False assms]
    by (simp add: deserialize_u16_varint_def Let_def)
qed

interpretation varint: codec varint_bytes deserialize_u16_varint "\<lambda>v. v \<le> MAX_U16_VARINT"
  by unfold_locales (rule deserialize_varint_bytes)

lemma length_varint_bytes:
  "v \<le> MAX_U16_VARINT \<Longrightarrow>
     length (varint_bytes v) = (if v < MAX_SINGLE_BYTE_EXCLUDED then 1 else 2)"
  by (simp add: varint_one_byte varint_two_bytes)

end
