(* ===== verification/Cell.thy ===== *)
theory Cell
  imports Prelude Math_Util
begin

text \<open>
  \<open>tidehunter/src/cell.rs\<close>: cell identifiers, their order within one key space (comparing an
  integer with a byte identifier panics), the seed of the row mutex, and their encoding in
  snapshots and relocation cursors.
\<close>

datatype cell_id = Integer usize | Bytes bytes

datatype ordering = Less | Equal | Greater

definition cmp :: "'a::linorder \<Rightarrow> 'a \<Rightarrow> ordering" where
  "cmp x y = (if x < y then Less else if x = y then Equal else Greater)"

definition CELL_ID_INTEGER :: u8 where "CELL_ID_INTEGER = 0"
definition CELL_ID_BYTES :: u8 where "CELL_ID_BYTES = 1"

fun mutex_seed :: "cell_id \<Rightarrow> usize" where
  "mutex_seed (Integer p) = p"
| "mutex_seed (Bytes b) = unat (ending_u32 b)"

fun assume_bytes_id :: "cell_id \<Rightarrow> bytes res" where
  "assume_bytes_id (Integer _) = Inl ExplicitPanic"
| "assume_bytes_id (Bytes b) = Inr b"

fun cell_cmp :: "cell_id \<Rightarrow> cell_id \<Rightarrow> ordering res" where
  "cell_cmp (Integer a) (Integer b) = Inr (cmp a b)"
| "cell_cmp (Bytes a) (Bytes b) = Inr (cmp a b)"
| "cell_cmp (Integer _) (Bytes _) = Inl ExplicitPanic"
| "cell_cmp (Bytes _) (Integer _) = Inl ExplicitPanic"

fun cell_len :: "cell_id \<Rightarrow> usize" where
  "cell_len (Integer _) = 1 + 8"
| "cell_len (Bytes b) = 1 + 2 + length b"

fun cell_write_into_bytes :: "cell_id \<Rightarrow> bytes res" where
  "cell_write_into_bytes (Integer val) = Inr ([CELL_ID_INTEGER] @ put_u64 (of_nat val))"
| "cell_write_into_bytes (Bytes b) =
     assertr (length b \<le> 0xFFFF) (Inr ([CELL_ID_BYTES] @ put_u16 (of_nat (length b)) @ b))"

definition cell_from_bytes :: "bytes \<Rightarrow> (cell_id \<times> bytes) res" where
  "cell_from_bytes b =
     bindr (get_u8 b) (\<lambda>(cell_type, b).
       if cell_type = CELL_ID_INTEGER then
         bindr (get_u64 b) (\<lambda>(val, b). Inr (Integer (unat val), b))
       else if cell_type = CELL_ID_BYTES then
         bindr (get_u16 b) (\<lambda>(len, b).
           bindr (slice_r b 0 (unat len)) (\<lambda>v. Inr (Bytes v, drop (unat len) b)))
       else Inl ExplicitPanic)"

text \<open>The identifiers the encoder accepts and can represent: integers are \<open>usize\<close> values on a
  64-bit target, byte identifiers are at most \<open>u16::MAX\<close> long.\<close>

fun cell_ok :: "cell_id \<Rightarrow> bool" where
  "cell_ok (Integer p) \<longleftrightarrow> p < 2 ^ 64"
| "cell_ok (Bytes b) \<longleftrightarrow> length b \<le> 0xFFFF"

definition cell_bytes :: "cell_id \<Rightarrow> bytes" where
  "cell_bytes c = (case cell_write_into_bytes c of Inl _ \<Rightarrow> [] | Inr b \<Rightarrow> b)"

lemma cell_write_ok: "cell_ok c \<Longrightarrow> cell_write_into_bytes c = Inr (cell_bytes c)"
  by (cases c) (simp_all add: cell_bytes_def)

lemma cell_write_too_long: "0xFFFF < length b \<Longrightarrow> cell_write_into_bytes (Bytes b) = Inl AssertFailed"
  by simp

lemma length_cell_bytes: "cell_ok c \<Longrightarrow> length (cell_bytes c) = cell_len c"
  by (cases c) (simp_all add: cell_bytes_def)

lemma cell_from_write: "cell_ok c \<Longrightarrow> cell_from_bytes (cell_bytes c @ r) = Inr (c, r)"
proof (cases c)
  case (Integer p)
  assume "cell_ok c"
  with Integer have "unat (of_nat p :: u64) = p"
    by (simp add: unat_of_nat)
  with Integer show ?thesis
    by (simp add: cell_bytes_def cell_from_bytes_def CELL_ID_INTEGER_def)
next
  case (Bytes b)
  assume "cell_ok c"
  with Bytes have "unat (of_nat (length b) :: u16) = length b" and "length b \<le> 0xFFFF"
    by (simp_all add: unat_of_nat)
  with Bytes show ?thesis
    by (simp add: cell_bytes_def cell_from_bytes_def CELL_ID_INTEGER_def CELL_ID_BYTES_def)
qed

interpretation cell_codec: codec cell_bytes cell_from_bytes cell_ok
  by unfold_locales (rule cell_from_write)

text \<open>Within one key space (one kind of identifier) the order is total and never panics.\<close>

fun same_kind :: "cell_id \<Rightarrow> cell_id \<Rightarrow> bool" where
  "same_kind (Integer _) (Integer _) = True"
| "same_kind (Bytes _) (Bytes _) = True"
| "same_kind _ _ = False"

lemma cell_cmp_total: "same_kind a b \<longleftrightarrow> (\<exists>ord. cell_cmp a b = Inr ord)"
  by (cases a; cases b) auto

lemma cell_cmp_Equal: "cell_cmp a b = Inr Equal \<longleftrightarrow> a = b"
  by (cases a; cases b) (auto simp: cmp_def)

lemma cell_cmp_antisym: "cell_cmp a b = Inr Less \<longleftrightarrow> cell_cmp b a = Inr Greater"
  by (cases a; cases b) (auto simp: cmp_def)

lemma cell_cmp_trans:
  "cell_cmp a b = Inr Less \<Longrightarrow> cell_cmp b c = Inr Less \<Longrightarrow> cell_cmp a c = Inr Less"
  by (cases a; cases b; cases c) (auto simp: cmp_def split: if_splits)

end
