(* ===== verification/Wal_Position.thy ===== *)
theory Wal_Position
  imports Prelude
begin

text \<open>
  \<open>tidehunter/src/wal/position.rs\<close>: the position of a frame in the log, the tombstone and
  empty-slot marker \<open>INVALID\<close>, their 12-byte encoding, and the frontier \<open>LastProcessed\<close>.
\<close>

datatype wal_position = WalPosition (wp_offset: u64) (wp_len: u32)

type_synonym wal_file_id = u64
type_synonym map_id = u64
type_synonym last_processed = u64

definition WAL_INVALID :: wal_position where
  "WAL_INVALID = WalPosition u64_MAX u32_MAX"

definition WAL_POSITION_LENGTH :: usize where
  "WAL_POSITION_LENGTH = 12"

definition wp_write_to_buf :: "wal_position \<Rightarrow> bytes" where
  "wp_write_to_buf p = put_u64 (wp_offset p) @ put_u32 (wp_len p)"

definition wp_read_from_buf :: "bytes \<Rightarrow> (wal_position \<times> bytes) res" where
  "wp_read_from_buf b =
     bindr (get_u64 b) (\<lambda>(off, b'). bindr (get_u32 b') (\<lambda>(len, b''). Inr (WalPosition off len, b'')))"

definition wp_from_slice :: "bytes \<Rightarrow> wal_position res" where
  "wp_from_slice s = bindr (wp_read_from_buf s) (\<lambda>(r, s'). assertr (0 = length s') (Inr r))"

definition frame_len :: "wal_position \<Rightarrow> usize" where
  "frame_len p = unat (wp_len p)"

text \<open>\<open>CrcFrame::CRC_HEADER_LENGTH\<close>, used by both sides.\<close>

definition CRC_HEADER_LENGTH :: usize where
  "CRC_HEADER_LENGTH = 8"

definition payload_len :: "wal_position \<Rightarrow> usize res" where
  "payload_len p =
     (if frame_len p < CRC_HEADER_LENGTH then Inl UnwrapFailed
      else Inr (frame_len p - CRC_HEADER_LENGTH))"

definition wp_valid :: "wal_position \<Rightarrow> wal_position option" where
  "wp_valid p = (if p = WAL_INVALID then None else Some p)"

definition is_valid :: "wal_position \<Rightarrow> bool" where
  "is_valid p \<longleftrightarrow> p \<noteq> WAL_INVALID"

definition prev_map :: "map_id \<Rightarrow> map_id option" where
  "prev_map m = (if m = 0 then None else Some (m - 1))"

definition next_map :: "map_id \<Rightarrow> map_id" where
  "next_map m = m + 1"

definition is_processed :: "last_processed \<Rightarrow> u64 \<Rightarrow> bool" where
  "is_processed lp off \<longleftrightarrow> off < lp"

text \<open>The derived order: by offset, then by length.\<close>

instantiation wal_position :: linorder
begin

definition less_eq_wal_position :: "wal_position \<Rightarrow> wal_position \<Rightarrow> bool" where
  "less_eq_wal_position p q \<longleftrightarrow>
     wp_offset p < wp_offset q \<or> wp_offset p = wp_offset q \<and> wp_len p \<le> wp_len q"

definition less_wal_position :: "wal_position \<Rightarrow> wal_position \<Rightarrow> bool" where
  "less_wal_position p q \<longleftrightarrow>
     wp_offset p < wp_offset q \<or> wp_offset p = wp_offset q \<and> wp_len p < wp_len q"

instance
  by standard
    (auto simp: less_eq_wal_position_def less_wal_position_def intro: wal_position.expand)

end

lemma INVALID_greatest: "p \<le> WAL_INVALID"
proof -
  have "wp_offset p < u64_MAX \<or> wp_offset p = u64_MAX"
    using word_le_MAX(2) [of "wp_offset p"] by (simp only: le_less)
  then show ?thesis by (auto simp: less_eq_wal_position_def WAL_INVALID_def)
qed

lemma length_wp_write_to_buf [simp]: "length (wp_write_to_buf p) = WAL_POSITION_LENGTH"
  by (simp add: wp_write_to_buf_def WAL_POSITION_LENGTH_def)

lemma wp_read_write [simp]: "wp_read_from_buf (wp_write_to_buf p @ r) = Inr (p, r)"
  by (simp add: wp_read_from_buf_def wp_write_to_buf_def)

interpretation wal_pos: codec wp_write_to_buf wp_read_from_buf "\<lambda>_. True"
  by unfold_locales simp

lemma wp_from_slice_write: "wp_from_slice (wp_write_to_buf p) = Inr p"
  using wp_read_write [of p "[]"] by (simp add: wp_from_slice_def)

lemma wp_from_slice_trailing: "wp_from_slice (wp_write_to_buf p @ b # r) = Inl AssertFailed"
  by (simp add: wp_from_slice_def)

lemma is_processed_mono: "is_processed lp off \<Longrightarrow> lp \<le> lp' \<Longrightarrow> is_processed lp' off"
  by (auto simp: is_processed_def)

lemma is_processed_downward: "is_processed lp off \<Longrightarrow> off' \<le> off \<Longrightarrow> is_processed lp off'"
  by (auto simp: is_processed_def)

lemma INVALID_never_processed: "\<not> is_processed lp (wp_offset WAL_INVALID)"
  by (simp add: is_processed_def WAL_INVALID_def not_less)

end
