(* ===== verification/Crc_Frame.thy ===== *)
theory Crc_Frame
  imports Wal_Position
begin

text \<open>
  \<open>tidehunter/src/crc.rs\<close>: the frame around every log entry, \<open>[len: u32][crc: u32][payload]\<close>,
  its readers with and without checksum verification, and the skip marker that ends a
  fragment early. The checksum of a non-empty payload is \<open>crc32fast::hash\<close>, a third-party
  function: it is the parameter \<open>hash\<close> of every definition, and nothing is assumed of it.
\<close>

datatype crc_read_error = OutOfBoundsHeader | OutOfBoundsBody usize | CrcMismatch | SkipMarker

definition crc :: "(bytes \<Rightarrow> u32) \<Rightarrow> bytes \<Rightarrow> u32" where
  "crc hash b = (if b = [] then u32_MAX else hash b)"

definition crc_frame_new :: "(bytes \<Rightarrow> u32) \<Rightarrow> bytes \<Rightarrow> bytes" where
  "crc_frame_new hash t =
     (let bytes = put_u64 0 @ t;
          len = put_u32 (of_nat (length t));
          bytes = overwrite 0 len bytes;
          c = put_u32 (crc hash (drop 8 bytes))
      in overwrite 4 c bytes)"

definition skip_marker :: bytes where
  "skip_marker = replicate 8 0xFF"

definition data_range :: "usize \<Rightarrow> usize \<Rightarrow> bytes \<Rightarrow> bytes" where
  "data_range pos len b = take len (drop (pos + CRC_HEADER_LENGTH) b)"

text \<open>\<open>h.get_u32()\<close> twice on \<open>&b[pos..]\<close>, whose eight bytes the bounds check has established.\<close>

definition header_len :: "bytes \<Rightarrow> usize \<Rightarrow> u32" where
  "header_len b pos = of_nat (be_decode (take 4 (drop pos b)))"

definition header_crc :: "bytes \<Rightarrow> usize \<Rightarrow> u32" where
  "header_crc b pos = of_nat (be_decode (take 4 (drop (pos + 4) b)))"

definition checked_read :: "(bytes \<Rightarrow> u32) \<Rightarrow> bytes \<Rightarrow> usize \<Rightarrow> crc_read_error + usize" where
  "checked_read hash b pos =
     (if length b < pos + CRC_HEADER_LENGTH then Inl OutOfBoundsHeader
      else
        let len = header_len b pos; c = header_crc b pos
        in if len = u32_MAX \<and> c = u32_MAX then Inl SkipMarker
           else
             let len = unat len
             in if length b < pos + CRC_HEADER_LENGTH + len then Inl (OutOfBoundsBody len)
                else
                  let actual_crc = crc hash (data_range pos len b)
                  in if actual_crc \<noteq> c then Inl CrcMismatch else Inr len)"

definition parse_header :: "bytes \<Rightarrow> usize \<Rightarrow> crc_read_error + usize" where
  "parse_header b pos =
     (if length b < pos + CRC_HEADER_LENGTH then Inl OutOfBoundsHeader
      else
        let len = header_len b pos; c = header_crc b pos
        in if len = u32_MAX \<and> c = u32_MAX then Inl SkipMarker
           else if len = 0 then Inl CrcMismatch
           else
             let len = unat len
             in if length b < pos + CRC_HEADER_LENGTH + len then Inl (OutOfBoundsBody len)
                else Inr len)"

definition read_from_bytes :: "(bytes \<Rightarrow> u32) \<Rightarrow> bytes \<Rightarrow> usize \<Rightarrow> crc_read_error + bytes" where
  "read_from_bytes hash b pos =
     (case checked_read hash b pos of Inl e \<Rightarrow> Inl e | Inr len \<Rightarrow> Inr (data_range pos len b))"

definition read_unchecked_from_bytes :: "bytes \<Rightarrow> usize \<Rightarrow> crc_read_error + bytes" where
  "read_unchecked_from_bytes b pos =
     (case parse_header b pos of Inl e \<Rightarrow> Inl e | Inr len \<Rightarrow> Inr (data_range pos len b))"

section \<open>What a frame is\<close>

lemma crc_frame_new_eq:
  "crc_frame_new hash t = put_u32 (of_nat (length t)) @ put_u32 (crc hash t) @ t"
proof -
  let ?l = "put_u32 (of_nat (length t))" and ?c = "put_u32 (crc hash t)"
  have "put_u64 0 = put_u32 0 @ put_u32 0"
    by (simp add: put_0 replicate_add [symmetric])
  moreover have "overwrite 0 ?l ([] @ put_u32 0 @ (put_u32 0 @ t)) = ?l @ (put_u32 0 @ t)"
    by (subst overwrite_append) simp_all
  moreover have "overwrite 4 ?c (?l @ put_u32 0 @ t) = ?l @ ?c @ t"
    by (subst overwrite_append) simp_all
  ultimately show ?thesis
    by (simp add: crc_frame_new_def Let_def)
qed

lemma length_crc_frame_new [simp]: "length (crc_frame_new hash t) = length t + CRC_HEADER_LENGTH"
  by (simp add: crc_frame_new_eq CRC_HEADER_LENGTH_def)

lemma length_skip_marker [simp]: "length skip_marker = CRC_HEADER_LENGTH"
  by (simp add: skip_marker_def CRC_HEADER_LENGTH_def)

lemma skip_marker_eq: "skip_marker = put_u32 u32_MAX @ put_u32 u32_MAX"
proof -
  have "put_u32 u32_MAX = replicate 4 0xFF"
  proof -
    have "replicate 4 (0xFF :: byte) = [0xFF, 0xFF, 0xFF, 0xFF]" by code_simp
    then show ?thesis by (simp add: put_u32_def be_encode_4)
  qed
  then show ?thesis by (simp add: skip_marker_def replicate_add [symmetric])
qed

section \<open>Reading a header anywhere in a buffer\<close>

lemma header_at:
  assumes "pos = length pre"
  shows "header_len (pre @ put_u32 l @ put_u32 c @ post) pos = l"
    and "header_crc (pre @ put_u32 l @ put_u32 c @ post) pos = c"
  using assms by (simp_all add: header_len_def header_crc_def be_decode_put)

lemma checked_read_at:
  assumes "pos = length pre" "\<not> (l = u32_MAX \<and> c = u32_MAX)" "unat l = length t"
  shows "checked_read hash (pre @ put_u32 l @ put_u32 c @ t @ post) pos =
           (if crc hash t = c then Inr (length t) else Inl CrcMismatch)"
proof -
  let ?b = "pre @ put_u32 l @ put_u32 c @ t @ post"
  have "header_len ?b pos = l" "header_crc ?b pos = c"
    using header_at [OF assms(1), of l c "t @ post"] by simp_all
  moreover have "data_range pos (unat l) ?b = t"
    using assms by (simp add: data_range_def CRC_HEADER_LENGTH_def)
  ultimately show ?thesis
    using assms by (auto simp: checked_read_def CRC_HEADER_LENGTH_def Let_def)
qed

lemma frame_len_field:
  assumes "length t < 2 ^ 32 - 1"
  shows "unat (of_nat (length t) :: u32) = length t" "(of_nat (length t) :: u32) \<noteq> u32_MAX"
proof -
  show u: "unat (of_nat (length t) :: u32) = length t"
    using assms by (simp add: unat_of_nat)
  show "(of_nat (length t) :: u32) \<noteq> u32_MAX"
    using u assms by (auto simp: word_unat_eq_iff)
qed

lemma read_frame_at:
  assumes "length t < 2 ^ 32 - 1" "pos = length pre"
  shows "read_from_bytes hash (pre @ crc_frame_new hash t @ post) pos = Inr t"
proof -
  have "checked_read hash (pre @ crc_frame_new hash t @ post) pos = Inr (length t)"
    using checked_read_at [OF assms(2), of "of_nat (length t)" "crc hash t" t hash post]
      frame_len_field [OF assms(1)] by (simp add: crc_frame_new_eq)
  then show ?thesis
    using assms(2)
    by (simp add: read_from_bytes_def data_range_def crc_frame_new_eq CRC_HEADER_LENGTH_def)
qed

lemma read_skip_marker_at:
  assumes "pos = length pre"
  shows "read_from_bytes hash (pre @ skip_marker @ post) pos = Inl SkipMarker"
  using header_at [OF assms, of u32_MAX u32_MAX post] assms
  by (simp add: read_from_bytes_def checked_read_def skip_marker_eq CRC_HEADER_LENGTH_def)

lemma read_zeroes_at:
  assumes "pos = length pre"
  shows "read_from_bytes hash (pre @ replicate 8 0 @ post) pos = Inl CrcMismatch"
proof -
  have z: "replicate 8 0 = put_u32 0 @ put_u32 0"
    by (simp add: put_0 replicate_add [symmetric])
  have "checked_read hash (pre @ put_u32 0 @ put_u32 0 @ [] @ post) pos =
          (if crc hash [] = 0 then Inr (length ([] :: bytes)) else Inl CrcMismatch)"
    by (rule checked_read_at) (use assms in simp_all)
  then show ?thesis
    by (simp add: read_from_bytes_def z crc_def)
qed

lemma read_no_header:
  "length b < pos + CRC_HEADER_LENGTH \<Longrightarrow> read_from_bytes hash b pos = Inl OutOfBoundsHeader"
  by (simp add: read_from_bytes_def checked_read_def)

text \<open>Only a payload whose stored checksum matches is ever returned, and it is the slice the
  header announces.\<close>

lemma read_from_bytes_sound:
  assumes "read_from_bytes hash b pos = Inr t"
  shows "t = take (unat (header_len b pos)) (drop (pos + CRC_HEADER_LENGTH) b)"
    and "length t = unat (header_len b pos)"
    and "crc hash t = header_crc b pos"
    and "pos + CRC_HEADER_LENGTH + length t \<le> length b"
  using assms
  by (auto simp: read_from_bytes_def checked_read_def data_range_def Let_def
      split: if_splits sum.splits)

text \<open>The unchecked reader returns the same payload whenever the checked one accepts a
  non-empty one.\<close>

lemma read_unchecked_agrees:
  assumes "read_from_bytes hash b pos = Inr t" "t \<noteq> []"
  shows "read_unchecked_from_bytes b pos = Inr t"
proof -
  have "header_len b pos \<noteq> 0"
    using read_from_bytes_sound(2) [OF assms(1)] assms(2) by auto
  with assms show ?thesis
    by (auto simp: read_from_bytes_def checked_read_def read_unchecked_from_bytes_def
        parse_header_def Let_def split: if_splits)
qed

end
