(* ===== verification/Wal_Layout.thy ===== *)
theory Wal_Layout
  imports Wal_Position
begin

text \<open>
  \<open>tidehunter/src/wal/layout.rs\<close> and the alignment helpers of
  \<open>tidehunter/src/file_reader.rs\<close>: how log positions are cut into fragments (mmaps) and
  files, and where the next entry may start. All arithmetic is on 64-bit words; the lemmas
  read it back through \<open>unat\<close> under explicit no-overflow bounds.
\<close>

datatype wal_kind = Replay | Index

record wal_layout =
  frag_size :: u64
  max_maps :: usize
  direct_io :: bool
  wal_file_size :: u64
  kind :: wal_kind

definition DEFAULT_ALIGNMENT :: u64 where "DEFAULT_ALIGNMENT = 8"
definition DIRECT_IO_ALIGNMENT :: u64 where "DIRECT_IO_ALIGNMENT = 512"

definition align_down :: "u64 \<Rightarrow> u64 \<Rightarrow> u64" where
  "align_down v a = v div a * a"

definition align_up :: "u64 \<Rightarrow> u64 \<Rightarrow> u64" where
  "align_up v a = align_down (v + a - 1) a"

definition align_size :: "u64 \<Rightarrow> bool \<Rightarrow> u64" where
  "align_size v dio = (if dio then align_up v DIRECT_IO_ALIGNMENT else align_up v DEFAULT_ALIGNMENT)"

text \<open>The read range and the range of the request inside it, as \<open>(start, end)\<close> pairs.\<close>

definition align_range :: "u64 \<times> u64 \<Rightarrow> (u64 \<times> u64) \<times> (usize \<times> usize)" where
  "align_range r =
     (let range_len = snd r - fst r;
          read_start = align_down (fst r) DIRECT_IO_ALIGNMENT;
          read_end = align_up (snd r) DIRECT_IO_ALIGNMENT;
          map_start = unat (fst r - read_start);
          map_end = map_start + unat range_len
      in ((read_start, read_end), (map_start, map_end)))"

definition align :: "wal_layout \<Rightarrow> u64 \<Rightarrow> u64" where
  "align L v = align_size v (direct_io L)"

text \<open>The divisions below are by the fragment and file size; \<open>assert_layout\<close> runs before any of
  them and \<open>% frag_size\<close> in it panics on a zero fragment size.\<close>

definition assert_layout :: "wal_layout \<Rightarrow> unit res" where
  "assert_layout L =
     assertr (frag_size L \<le> 0xFFFFFFFF)
     (assertr (frag_size L = align L (frag_size L))
       (if frag_size L = 0 then Inl ExplicitPanic
        else assertr (wal_file_size L mod frag_size L = 0) (Inr ())))"

definition locate :: "wal_layout \<Rightarrow> u64 \<Rightarrow> map_id \<times> u64" where
  "locate L pos = (pos div frag_size L, pos mod frag_size L)"

definition first_in_frag :: "wal_layout \<Rightarrow> map_id \<Rightarrow> u64" where
  "first_in_frag L m = m * frag_size L"

definition is_first_in_frag :: "wal_layout \<Rightarrow> u64 \<Rightarrow> map_id option" where
  "is_first_in_frag L pos =
     (let (frag, offset) = locate L pos in if offset = 0 then Some frag else None)"

definition next_after_wal_position :: "wal_layout \<Rightarrow> wal_position \<Rightarrow> u64 res" where
  "next_after_wal_position L p =
     assertr (is_valid p)
     (let len_aligned = align L (ucast (wp_len p))
      in assertr (len_aligned \<le> frag_size L) (Inr (wp_offset p + len_aligned)))"

definition next_position :: "wal_layout \<Rightarrow> u64 \<Rightarrow> u64 \<Rightarrow> u64 res" where
  "next_position L pos len_aligned =
     assertr (len_aligned \<le> frag_size L)
     (let map_start = fst (locate L pos);
          map_end = fst (locate L (pos + len_aligned - 1))
      in Inr (if map_start \<noteq> map_end then first_in_frag L (next_map map_start) else pos))"

definition map_range :: "wal_layout \<Rightarrow> map_id \<Rightarrow> u64 \<times> u64" where
  "map_range L m = (frag_size L * m, frag_size L * (m + 1))"

definition wal_file_range :: "wal_layout \<Rightarrow> wal_file_id \<Rightarrow> u64 \<times> u64" where
  "wal_file_range L f = (wal_file_size L * f, wal_file_size L * (f + 1))"

definition locate_file :: "wal_layout \<Rightarrow> u64 \<Rightarrow> wal_file_id" where
  "locate_file L offset = offset div wal_file_size L"

definition file_for_map :: "wal_layout \<Rightarrow> map_id \<Rightarrow> wal_file_id" where
  "file_for_map L m = locate_file L (fst (map_range L m))"

definition offset_in_wal_file :: "wal_layout \<Rightarrow> u64 \<Rightarrow> u64" where
  "offset_in_wal_file L offset = offset mod wal_file_size L"

definition wal_kind_name :: "wal_kind \<Rightarrow> string" where
  "wal_kind_name k = (case k of Replay \<Rightarrow> ''wal'' | Index \<Rightarrow> ''index'')"

text \<open>\<open>{:016x}\<close>: sixteen lower-case hexadecimal digits, enough for every 64-bit number.\<close>

definition hex_digit :: "nat \<Rightarrow> char" where
  "hex_digit d = ''0123456789abcdef'' ! d"

fun hex_digits :: "nat \<Rightarrow> nat \<Rightarrow> string" where
  "hex_digits 0 n = []"
| "hex_digits (Suc k) n = hex_digits k (n div 16) @ [hex_digit (n mod 16)]"

definition wal_file_name :: "wal_layout \<Rightarrow> wal_file_id \<Rightarrow> string" where
  "wal_file_name L f = wal_kind_name (kind L) @ ''_'' @ hex_digits 16 (unat f)"

text \<open>\<open>FileReader::read_exact_at\<close> on a file's contents: \<open>None\<close> is the end-of-file error.\<close>

definition file_read_exact_at :: "bytes \<Rightarrow> nat \<Rightarrow> nat \<Rightarrow> bytes option" where
  "file_read_exact_at file pos len =
     (if pos + len \<le> length file then Some (take len (drop pos file))
      else if len = 0 then Some [] else None)"

definition read_exact_at :: "bytes \<Rightarrow> bool \<Rightarrow> u64 \<Rightarrow> usize \<Rightarrow> bytes option res" where
  "read_exact_at file dio pos len =
     (if dio then
        (let ((rs, re), (ms, me)) = align_range (pos, pos + of_nat len)
         in case file_read_exact_at file (unat rs) (unat (re - rs)) of
              None \<Rightarrow> Inr None
            | Some buffer \<Rightarrow> bindr (slice_r buffer ms me) (\<lambda>b. Inr (Some b)))
      else Inr (file_read_exact_at file (unat pos) len))"

text \<open>The layouts \<open>assert_layout\<close> lets through.\<close>

definition layout_ok :: "wal_layout \<Rightarrow> bool" where
  "layout_ok L \<longleftrightarrow> assert_layout L = Inr ()"

text \<open>A small layout, for concrete runs.\<close>

definition demo_layout :: wal_layout where
  "demo_layout = \<lparr>frag_size = 1024, max_maps = 2, direct_io = False, wal_file_size = 4096,
     kind = Replay\<rparr>"

definition alignment :: "wal_layout \<Rightarrow> nat" where
  "alignment L = (if direct_io L then 512 else 8)"

section \<open>Alignment\<close>

lemma unat_align_down: "0 < a \<Longrightarrow> unat (align_down v a) = unat v div unat a * unat a"
proof -
  have "unat v div unat a * unat a \<le> unat v" by simp
  then have "unat v div unat a * unat a < 2 ^ LENGTH(64)"
    using unat_lt [of v] by linarith
  then show ?thesis
    by (simp add: align_down_def unat_word_ariths(2) unat_div)
qed

lemma unat_add_small:
  "unat (v :: u64) + n < 2 ^ 64 \<Longrightarrow> unat (v + of_nat n) = unat v + n"
proof -
  assume a: "unat v + n < 2 ^ 64"
  then have "unat (of_nat n :: u64) = n" by (simp add: unat_of_nat)
  with a show ?thesis by (simp add: unat_word_ariths)
qed

lemma unat_plus: "unat x + unat y < 2 ^ 64 \<Longrightarrow> unat (x + y :: u64) = unat x + unat y"
  by (simp add: unat_word_ariths(1))

lemma unat_last:
  fixes v a :: u64
  assumes "0 < unat a" "unat v + unat a \<le> 2 ^ 64"
  shows "unat (v + a - 1) = unat v + unat a - 1"
proof -
  have "v + a - 1 = v + of_nat (unat a - 1)"
    using assms(1) by (simp add: of_nat_diff Suc_leI)
  also have "unat \<dots> = unat v + (unat a - 1)"
    using assms by (intro unat_add_small) linarith
  finally show ?thesis using assms(1) by simp
qed

lemma unat_align_up:
  assumes "0 < a" "unat v + unat a \<le> 2 ^ 64"
  shows "unat (align_up v a) = (unat v + unat a - 1) div unat a * unat a"
proof -
  have a1: "1 \<le> unat a" using assms(1) by (simp add: unat_gt_0 Suc_leI)
  have "unat (v + a - 1) = unat v + unat a - 1"
    using assms(2) a1 by (intro unat_last) auto
  then show ?thesis
    using assms(1) by (simp add: align_up_def unat_align_down)
qed

lemma unat_align:
  assumes "unat v + 512 \<le> 2 ^ 64"
  shows "unat (align L v) = (unat v + alignment L - 1) div alignment L * alignment L"
  using assms unat_align_up [of DEFAULT_ALIGNMENT v] unat_align_up [of DIRECT_IO_ALIGNMENT v]
  by (simp add: align_def align_size_def alignment_def DEFAULT_ALIGNMENT_def
      DIRECT_IO_ALIGNMENT_def)

lemma round_up_bounds:
  fixes v a :: nat
  assumes "0 < a"
  shows "v \<le> (v + a - 1) div a * a" "(v + a - 1) div a * a < v + a"
    "a dvd (v + a - 1) div a * a"
proof -
  have m: "(v + a - 1) div a * a = v + a - 1 - (v + a - 1) mod a"
    by (simp add: minus_mod_eq_div_mult)
  have lt: "(v + a - 1) mod a < a" using assms by simp
  show "v \<le> (v + a - 1) div a * a" using m lt by linarith
  show "(v + a - 1) div a * a < v + a" using m assms by linarith
qed simp

lemma round_up_fixed: "0 < (a::nat) \<Longrightarrow> a dvd v \<Longrightarrow> (v + a - 1) div a * a = v"
proof -
  assume a: "0 < a" "a dvd v"
  then obtain k where k: "v = k * a" by (auto simp: dvd_def mult.commute)
  have "(k * a + r) div a = k" if "r < a" for r using that by simp
  from this [of "a - 1"] show ?thesis using k a(1) by simp
qed

lemma align_bounds:
  assumes "unat v + 512 \<le> 2 ^ 64"
  shows "unat v \<le> unat (align L v)" "unat (align L v) < unat v + alignment L"
    "alignment L dvd unat (align L v)" "8 dvd unat (align L v)"
proof -
  have p: "0 < alignment L" "8 dvd alignment L" by (simp_all add: alignment_def)
  show "unat v \<le> unat (align L v)" "unat (align L v) < unat v + alignment L"
      and d: "alignment L dvd unat (align L v)"
    using round_up_bounds [OF p(1), of "unat v"] unat_align [OF assms, of L] by simp_all
  show "8 dvd unat (align L v)" using p(2) d dvd_trans by blast
qed

text \<open>An aligned read covers the request, and the mapped range picks the request out of it.\<close>

lemma align_range_covers:
  assumes "unat (fst r) \<le> unat (snd r)" "unat (snd r) + 512 \<le> 2 ^ 64"
    and "align_range r = ((rs, re), (ms, me))"
  shows "unat rs + ms = unat (fst r)" "unat rs + me = unat (snd r)" "unat (snd r) \<le> unat re"
    "512 dvd unat rs" "512 dvd unat re"
proof -
  have rs: "rs = align_down (fst r) DIRECT_IO_ALIGNMENT"
    and re: "re = align_up (snd r) DIRECT_IO_ALIGNMENT"
    and ms: "ms = unat (fst r - rs)" and me: "me = ms + unat (snd r - fst r)"
    using assms(3) by (auto simp: align_range_def Let_def)
  have urs: "unat rs = unat (fst r) div 512 * 512"
    by (simp add: rs DIRECT_IO_ALIGNMENT_def unat_align_down)
  have ure: "unat re = (unat (snd r) + 511) div 512 * 512"
    using assms(2) unat_align_up [of DIRECT_IO_ALIGNMENT "snd r"]
    by (simp add: re DIRECT_IO_ALIGNMENT_def)
  have le: "unat rs \<le> unat (fst r)" by (simp add: urs)
  then have ms': "ms = unat (fst r) - unat rs"
    by (simp add: ms unat_sub word_le_nat_alt)
  show "unat rs + ms = unat (fst r)" using le ms' by simp
  show "unat rs + me = unat (snd r)"
    using le ms' assms(1) by (simp add: me unat_sub word_le_nat_alt)
  show "unat (snd r) \<le> unat re"
    using round_up_bounds(1) [of 512 "unat (snd r)"] by (simp add: ure)
  show "512 dvd unat rs" "512 dvd unat re" by (simp_all add: urs ure)
qed

section \<open>Fragments\<close>

lemma demo_layout_ok: "layout_ok demo_layout"
  by code_simp

lemma layout_okD:
  assumes "layout_ok L"
  shows "0 < unat (frag_size L)" "unat (frag_size L) < 2 ^ 32"
    "alignment L dvd unat (frag_size L)" "8 dvd unat (frag_size L)"
    "unat (frag_size L) dvd unat (wal_file_size L)"
proof -
  have le: "frag_size L \<le> 0xFFFFFFFF" and eq: "frag_size L = align L (frag_size L)"
    and nz: "frag_size L \<noteq> 0" and md: "wal_file_size L mod frag_size L = 0"
    using assms by (auto simp: layout_ok_def assert_layout_def assertr_def split: if_splits)
  show "0 < unat (frag_size L)" using nz by (simp add: unat_gt_0 word_neq_0_conv)
  show lt: "unat (frag_size L) < 2 ^ 32" using le by (simp add: word_le_nat_alt)
  then have "unat (frag_size L) + 512 \<le> 2 ^ 64" by simp
  from align_bounds(3,4) [OF this, of L] eq
  show "alignment L dvd unat (frag_size L)" "8 dvd unat (frag_size L)" by simp_all
  show "unat (frag_size L) dvd unat (wal_file_size L)"
    using md by (metis dvd_eq_mod_eq_0 unat_0 unat_mod)
qed

lemma same_frag_iff:
  fixes P N F :: nat
  assumes "0 < N" "N \<le> F"
  shows "(P + N - 1) div F = P div F \<longleftrightarrow> P mod F + N \<le> F"
proof -
  have F: "0 < F" using assms by simp
  have eq: "P + N - 1 = (P mod F + N - 1) + P div F * F"
    using div_mult_mod_eq [of P F] assms(1) by linarith
  have "(P + N - 1) div F = (P mod F + N - 1) div F + P div F"
    unfolding eq using F by simp
  then show ?thesis
    using F assms(1) by (auto simp: div_eq_0_iff)
qed

text \<open>The core of the allocator: where an entry of \<open>N\<close> bytes starts, as numbers.\<close>

definition next_start :: "nat \<Rightarrow> nat \<Rightarrow> nat \<Rightarrow> nat" where
  "next_start F P N = (if P mod F + N \<le> F then P else (P div F + 1) * F)"

lemma next_start_props:
  assumes "0 < N" "N \<le> F"
  shows "P \<le> next_start F P N" "next_start F P N < P + F"
    "next_start F P N mod F + N \<le> F"
    "next_start F P N \<noteq> P \<Longrightarrow> next_start F P N mod F = 0"
proof -
  have d: "P = P div F * F + P mod F" and m: "P mod F < F"
    using assms by simp_all
  have "P \<le> P div F * F + F" using d m by linarith
  moreover have "P div F * F < P" if "\<not> P mod F + N \<le> F" using d that assms by linarith
  ultimately show "P \<le> next_start F P N" "next_start F P N < P + F"
    using assms by (auto simp: next_start_def add.commute)
  show "next_start F P N mod F + N \<le> F" "next_start F P N \<noteq> P \<Longrightarrow> next_start F P N mod F = 0"
    using assms by (auto simp: next_start_def)
qed

lemma next_position_spec:
  assumes "layout_ok L" "0 < unat len" "unat len \<le> unat (frag_size L)"
    and "unat pos + 2 * unat (frag_size L) \<le> 2 ^ 64"
  shows "\<exists>r. next_position L pos len = Inr r
           \<and> unat r = next_start (unat (frag_size L)) (unat pos) (unat len)"
proof -
  let ?F = "unat (frag_size L)" and ?P = "unat pos" and ?N = "unat len"
  have last: "unat (pos + len - 1) = ?P + ?N - 1"
    using assms by (intro unat_last) linarith+
  have "fst (locate L pos) = fst (locate L (pos + len - 1)) \<longleftrightarrow> ?P div ?F = (?P + ?N - 1) div ?F"
    by (simp add: locate_def word_unat_eq_iff unat_div last)
  then have cross: "fst (locate L pos) \<noteq> fst (locate L (pos + len - 1)) \<longleftrightarrow> \<not> ?P mod ?F + ?N \<le> ?F"
    using same_frag_iff [OF assms(2,3), of ?P] by auto
  have bound: "(?P div ?F + 1) * ?F < 2 ^ 64"
  proof -
    have "(?P div ?F + 1) * ?F \<le> ?P + ?F" by simp
    then show ?thesis using assms(4) layout_okD(1) [OF assms(1)] by linarith
  qed
  have "unat (pos div frag_size L + 1) = ?P div ?F + 1"
  proof -
    have "?P div ?F + 1 < 2 ^ 64"
      using div_le_dividend [of ?P ?F] assms(4) layout_okD(1) [OF assms(1)] by linarith
    then show ?thesis using unat_add_small [of "pos div frag_size L" 1] by (simp add: unat_div)
  qed
  then have "unat (first_in_frag L (next_map (fst (locate L pos)))) = (?P div ?F + 1) * ?F"
    using bound by (simp add: first_in_frag_def next_map_def locate_def unat_word_ariths(2))
  with cross show ?thesis
    using assms(3) by (auto simp: next_position_def next_start_def Let_def word_le_nat_alt)
qed

lemma next_position_too_large:
  "frag_size L < len \<Longrightarrow> next_position L pos len = Inl AssertFailed"
  by (simp add: next_position_def not_le [symmetric])

section \<open>Files\<close>

lemma locate_file_in_range:
  assumes "0 < wal_file_size L" "unat pos + unat (wal_file_size L) < 2 ^ 64"
  shows "fst (wal_file_range L (locate_file L pos)) \<le> pos"
    "pos < snd (wal_file_range L (locate_file L pos))"
proof -
  let ?W = "unat (wal_file_size L)" and ?P = "unat pos"
  have W: "0 < ?W" using assms(1) by (simp add: unat_gt_0)
  have s: "?W * (?P div ?W) \<le> ?P" by simp
  have e: "?P < ?W * (?P div ?W + 1)" "?W * (?P div ?W + 1) \<le> ?P + ?W"
    using dividend_less_times_div [OF W, of ?P] by (simp_all add: algebra_simps)
  have "unat (wal_file_size L * locate_file L pos) = ?W * (?P div ?W)"
    using le_less_trans [OF s unat_lt [of pos]]
    by (simp add: locate_file_def unat_word_ariths(2) unat_div)
  then show "fst (wal_file_range L (locate_file L pos)) \<le> pos"
    by (simp add: wal_file_range_def word_le_nat_alt)
  have "?P div ?W + 1 < 2 ^ 64"
  proof -
    have "?P div ?W + 1 \<le> ?W * (?P div ?W + 1)" using W by (metis Suc_leI mult_le_mono1 mult_1 One_nat_def)
    then show ?thesis using e assms(2) by linarith
  qed
  then have "unat (locate_file L pos + 1) = ?P div ?W + 1"
    using unat_add_small [of "locate_file L pos" 1] by (simp add: locate_file_def unat_div)
  then have "unat (wal_file_size L * (locate_file L pos + 1)) = ?W * (?P div ?W + 1)"
    using le_less_trans [OF e(2) assms(2)] by (simp add: unat_word_ariths(2))
  then show "pos < snd (wal_file_range L (locate_file L pos))"
    using e by (simp add: wal_file_range_def word_less_nat_alt)
qed

end
