(* ===== verification/Wal_Allocator.thy ===== *)
theory Wal_Allocator
  imports Wal_Layout
begin

text \<open>
  \<open>tidehunter/src/wal/allocator.rs\<close>: the lock-free allocator of log space. \<open>allocate\<close> is one
  successful round of the compare-and-swap loop; \<open>cas_step\<close> interleaves the rounds of any
  number of threads. The locale \<open>allocation_source\<close> is what the tracker and the log rely on:
  the results form a chain in which every block starts where the one before it ended, or at
  the fragment boundary after it.
\<close>

record allocation_result =
  allocated_position :: u64
  previous_position :: u64
  len_aligned :: u64

record wal_allocator =
  alloc_position :: u64
  alloc_layout :: wal_layout

definition allocator_new :: "wal_layout \<Rightarrow> u64 \<Rightarrow> wal_allocator" where
  "allocator_new L initial_position = \<lparr>alloc_position = initial_position, alloc_layout = L\<rparr>"

text \<open>The body of the loop before the compare-and-swap: the result for a loaded position.\<close>

definition allocate_at :: "wal_layout \<Rightarrow> u64 \<Rightarrow> u64 \<Rightarrow> allocation_result res" where
  "allocate_at L len current_pos =
     (let la = align L len
      in bindr (next_position L current_pos la) (\<lambda>allocated_pos.
           Inr \<lparr>allocated_position = allocated_pos, previous_position = current_pos,
                len_aligned = la\<rparr>))"

definition need_skip_marker :: "allocation_result \<Rightarrow> u64 option" where
  "need_skip_marker r =
     (if previous_position r \<noteq> allocated_position r then Some (previous_position r) else None)"

definition ar_next_position :: "allocation_result \<Rightarrow> u64" where
  "ar_next_position r = allocated_position r + len_aligned r"

definition allocate :: "wal_allocator \<Rightarrow> u64 \<Rightarrow> (wal_allocator \<times> allocation_result) res" where
  "allocate A len =
     bindr (allocate_at (alloc_layout A) len (alloc_position A)) (\<lambda>r.
       Inr (A\<lparr>alloc_position := ar_next_position r\<rparr>, r))"

fun allocate_all :: "wal_allocator \<Rightarrow> u64 list \<Rightarrow> (wal_allocator \<times> allocation_result list) res" where
  "allocate_all A [] = Inr (A, [])"
| "allocate_all A (len # lens) =
     bindr (allocate A len) (\<lambda>(A', r).
     bindr (allocate_all A' lens) (\<lambda>(A'', rs). Inr (A'', r # rs)))"

section \<open>Threads racing through the compare-and-swap loop\<close>

datatype alloc_pc =
    Idle
  | Loop u64
  | Loaded u64 allocation_result
  | Returned allocation_result
  | AllocPanic

record cas_state =
  shared :: wal_allocator
  pcs :: "nat \<Rightarrow> alloc_pc"
  alloc_log :: "(u64 \<times> allocation_result) list"

inductive cas_step :: "cas_state \<Rightarrow> cas_state \<Rightarrow> bool" where
  call: "pcs s t = Idle \<Longrightarrow> cas_step s (s\<lparr>pcs := (pcs s)(t := Loop len)\<rparr>)"
| load: "pcs s t = Loop len
    \<Longrightarrow> allocate_at (alloc_layout (shared s)) len (alloc_position (shared s)) = Inr r
    \<Longrightarrow> cas_step s (s\<lparr>pcs := (pcs s)(t := Loaded len r)\<rparr>)"
| too_large: "pcs s t = Loop len
    \<Longrightarrow> allocate_at (alloc_layout (shared s)) len (alloc_position (shared s)) = Inl e
    \<Longrightarrow> cas_step s (s\<lparr>pcs := (pcs s)(t := AllocPanic)\<rparr>)"
| cas_ok: "pcs s t = Loaded len r \<Longrightarrow> alloc_position (shared s) = previous_position r
    \<Longrightarrow> cas_step s (s\<lparr>shared := (shared s)\<lparr>alloc_position := ar_next_position r\<rparr>,
                      pcs := (pcs s)(t := Returned r), alloc_log := alloc_log s @ [(len, r)]\<rparr>)"
| cas_retry: "pcs s t = Loaded len r \<Longrightarrow> alloc_position (shared s) \<noteq> previous_position r
    \<Longrightarrow> cas_step s (s\<lparr>pcs := (pcs s)(t := Loop len)\<rparr>)"
| return: "pcs s t = Returned r \<Longrightarrow> cas_step s (s\<lparr>pcs := (pcs s)(t := Idle)\<rparr>)"

definition cas_init :: "wal_layout \<Rightarrow> u64 \<Rightarrow> cas_state" where
  "cas_init L p = \<lparr>shared = allocator_new L p, pcs = (\<lambda>_. Idle), alloc_log = []\<rparr>"

section \<open>The chain of allocations\<close>

text \<open>A block of the log: in one fragment, after the previous end, at most a skip away.\<close>

definition block_ok :: "wal_layout \<Rightarrow> allocation_result \<Rightarrow> bool" where
  "block_ok L r \<longleftrightarrow>
     previous_position r \<le> allocated_position r
   \<and> allocated_position r < ar_next_position r
   \<and> unat (allocated_position r) mod unat (frag_size L) + unat (len_aligned r)
       \<le> unat (frag_size L)
   \<and> unat (ar_next_position r) = unat (allocated_position r) + unat (len_aligned r)
   \<and> (need_skip_marker r \<noteq> None \<longrightarrow> is_first_in_frag L (allocated_position r) \<noteq> None)"

fun chained :: "u64 \<Rightarrow> allocation_result list \<Rightarrow> bool" where
  "chained p [] \<longleftrightarrow> True"
| "chained p (r # rs) \<longleftrightarrow> previous_position r = p \<and> p < ar_next_position r
     \<and> chained (ar_next_position r) rs"

locale allocation_source =
  fixes ok :: "'c \<Rightarrow> bool"
    and start :: "'c \<Rightarrow> u64"
    and results :: "'c \<Rightarrow> allocation_result list"
  assumes results_chained: "ok c \<Longrightarrow> chained (start c) (results c)"
begin

lemma results_distinct_starts:
  assumes "ok c" "i < j" "j < length (results c)"
  shows "ar_next_position (results c ! i) \<le> previous_position (results c ! j)"
proof -
  have "chained p rs \<Longrightarrow> j < length rs \<Longrightarrow> i < j
      \<Longrightarrow> ar_next_position (rs ! i) \<le> previous_position (rs ! j)" for p rs
  proof (induction rs arbitrary: p i j)
    case (Cons r rs)
    have ge: "chained q xs \<Longrightarrow> k < length xs \<Longrightarrow> q \<le> previous_position (xs ! k)" for q xs k
    proof (induction xs arbitrary: q k)
      case (Cons x xs)
      then show ?case by (cases k) (auto intro: order.trans [OF less_imp_le])
    qed simp
    from Cons show ?case by (cases j; cases i) (auto simp: ge)
  qed simp
  with assms results_chained [OF assms(1)] show ?thesis by blast
qed

end

section \<open>One allocation\<close>

lemma align_le_frag:
  assumes "layout_ok L" "unat len \<le> unat (frag_size L)"
  shows "unat (align L len) \<le> unat (frag_size L)" "unat len \<le> unat (align L len)"
    "8 dvd unat (align L len)"
proof -
  note ok = layout_okD [OF assms(1)]
  have small: "unat len + 512 \<le> 2 ^ 64" using assms(2) ok(2) by simp
  note b = align_bounds [OF small, of L]
  obtain k where k: "unat (frag_size L) = k * alignment L"
    using ok(3) by (auto simp: dvd_def mult.commute)
  obtain m where m: "unat (align L len) = m * alignment L"
    using b(3) by (auto simp: dvd_def mult.commute)
  have "m * alignment L < k * alignment L + alignment L"
    using b(2) assms(2) k m by linarith
  then have "m * alignment L < (k + 1) * alignment L" by simp
  then have "m \<le> k" using mult_less_cancel2 [of m "alignment L" "k + 1"] by simp
  then show "unat (align L len) \<le> unat (frag_size L)" using k m by simp
  show "unat len \<le> unat (align L len)" "8 dvd unat (align L len)" using b by simp_all
qed

lemma allocate_at_spec:
  assumes "layout_ok L" "0 < unat len" "unat len \<le> unat (frag_size L)"
    and "unat pos + 2 * unat (frag_size L) \<le> 2 ^ 64"
  shows "\<exists>r. allocate_at L len pos = Inr r \<and> previous_position r = pos
           \<and> len_aligned r = align L len \<and> block_ok L r
           \<and> unat (ar_next_position r) < unat pos + 2 * unat (frag_size L)"
proof -
  let ?F = "unat (frag_size L)" and ?N = "unat (align L len)"
  note a = align_le_frag [OF assms(1,3)]
  have N: "0 < ?N" "?N \<le> ?F" using a assms(2) by linarith+
  obtain p where p: "next_position L pos (align L len) = Inr p"
      and up: "unat p = next_start ?F (unat pos) ?N"
    using next_position_spec [OF assms(1) N assms(4)] by blast
  note s = next_start_props [OF N, of "unat pos"]
  have nx: "unat (p + align L len) = unat p + ?N"
  proof -
    have "unat p + ?N < 2 ^ 64" using s(2) N up assms(4) by linarith
    then show ?thesis by (simp add: unat_word_ariths(1))
  qed
  have first: "p \<noteq> pos \<Longrightarrow> is_first_in_frag L p \<noteq> None"
    using s(4) up by (auto simp: is_first_in_frag_def locate_def word_unat_eq_iff unat_mod)
  show ?thesis
    using p up s nx N first
    by (auto simp: allocate_at_def Let_def block_ok_def ar_next_position_def
        need_skip_marker_def word_le_nat_alt word_less_nat_alt)
qed

lemma allocate_at_too_large:
  assumes "frag_size L < align L len"
  shows "allocate_at L len pos = Inl AssertFailed"
  using assms by (simp add: allocate_at_def next_position_too_large)

lemma block_ok_chained: "block_ok L r \<Longrightarrow> previous_position r < ar_next_position r"
  by (auto simp: block_ok_def)

section \<open>Runs of the allocator\<close>

type_synonym alloc_config = "wal_layout \<times> u64 \<times> u64 list"

definition alloc_ok :: "alloc_config \<Rightarrow> bool" where
  "alloc_ok c = (case c of (L, p, lens) \<Rightarrow>
     layout_ok L \<and> list_all (\<lambda>l. 0 < unat l \<and> unat l \<le> unat (frag_size L)) lens
   \<and> unat p + 2 * unat (frag_size L) * length lens \<le> 2 ^ 64)"

definition alloc_start :: "alloc_config \<Rightarrow> u64" where
  "alloc_start c = fst (snd c)"

definition alloc_results :: "alloc_config \<Rightarrow> allocation_result list" where
  "alloc_results c = (case c of (L, p, lens) \<Rightarrow>
     (case allocate_all (allocator_new L p) lens of Inl _ \<Rightarrow> [] | Inr (_, rs) \<Rightarrow> rs))"

lemma allocate_all_spec:
  assumes "alloc_ok (L, p, lens)"
  shows "\<exists>A rs. allocate_all (allocator_new L p) lens = Inr (A, rs) \<and> length rs = length lens
           \<and> chained p rs \<and> list_all (block_ok L) rs
           \<and> alloc_position A = (if rs = [] then p else ar_next_position (last rs))
           \<and> alloc_layout A = L"
  using assms
proof (induction lens arbitrary: p)
  case Nil
  then show ?case by (simp add: allocator_new_def)
next
  case (Cons len lens)
  let ?F = "unat (frag_size L)"
  from Cons.prems have ok: "layout_ok L" "0 < unat len" "unat len \<le> ?F"
      "unat p + 2 * ?F \<le> 2 ^ 64"
    by (auto simp: alloc_ok_def)
  obtain r where r: "allocate_at L len p = Inr r" "previous_position r = p" "block_ok L r"
      "unat (ar_next_position r) < unat p + 2 * ?F"
    using allocate_at_spec [OF ok] by blast
  have "alloc_ok (L, ar_next_position r, lens)"
    using Cons.prems r(4) by (auto simp: alloc_ok_def algebra_simps)
  from Cons.IH [OF this] obtain A rs where IH:
    "allocate_all (allocator_new L (ar_next_position r)) lens = Inr (A, rs)"
    "length rs = length lens" "chained (ar_next_position r) rs" "list_all (block_ok L) rs"
    "alloc_position A = (if rs = [] then ar_next_position r else ar_next_position (last rs))"
    "alloc_layout A = L"
    by blast
  have "allocate (allocator_new L p) len = Inr (allocator_new L (ar_next_position r), r)"
    using r(1) by (simp add: allocate_def allocator_new_def)
  then show ?case
    using IH r(2,3) block_ok_chained [OF r(3)] by auto
qed

lemma alloc_results_spec:
  assumes "alloc_ok (L, p, lens)"
  shows "chained p (alloc_results (L, p, lens))" "list_all (block_ok L) (alloc_results (L, p, lens))"
    "length (alloc_results (L, p, lens)) = length lens"
  using allocate_all_spec [OF assms] by (auto simp: alloc_results_def)

interpretation wal_alloc: allocation_source alloc_ok alloc_start alloc_results
  by unfold_locales (auto simp: alloc_start_def intro: alloc_results_spec(1))

section \<open>The race is linearizable\<close>

lemma allocate_all_append:
  "allocate_all A (xs @ ys) = bindr (allocate_all A xs) (\<lambda>(A', rs).
     bindr (allocate_all A' ys) (\<lambda>(A'', rs'). Inr (A'', rs @ rs')))"
  by (induction A xs rule: allocate_all.induct) (auto simp: bindr_def split: sum.splits)

definition cas_inv :: "wal_layout \<Rightarrow> u64 \<Rightarrow> cas_state \<Rightarrow> bool" where
  "cas_inv L p s \<longleftrightarrow>
     alloc_layout (shared s) = L
   \<and> allocate_all (allocator_new L p) (map fst (alloc_log s)) = Inr (shared s, map snd (alloc_log s))
   \<and> (\<forall>t len r. pcs s t = Loaded len r \<longrightarrow> allocate_at L len (previous_position r) = Inr r)"

lemma allocate_at_previous: "allocate_at L len pos = Inr r \<Longrightarrow> previous_position r = pos"
  by (auto simp: allocate_at_def Let_def bindr_def split: sum.splits)

lemma cas_step_inv: "cas_step s s' \<Longrightarrow> cas_inv L p s \<Longrightarrow> cas_inv L p s'"
proof (induction rule: cas_step.induct)
  case (load s t len r)
  then show ?case
    using allocate_at_previous by (fastforce simp: cas_inv_def)
next
  case (cas_ok s t len r)
  have "allocate (shared s) len = Inr ((shared s)\<lparr>alloc_position := ar_next_position r\<rparr>, r)"
    using cas_ok by (auto simp: cas_inv_def allocate_def)
  then show ?case
    using cas_ok by (auto simp: cas_inv_def allocate_all_append)
qed (auto simp: cas_inv_def)

lemma cas_reachable_inv: "cas_step\<^sup>*\<^sup>* (cas_init L p) s \<Longrightarrow> cas_inv L p s"
proof (induction rule: rtranclp_induct)
  case base
  then show ?case by (simp add: cas_inv_def cas_init_def allocator_new_def)
qed (rule cas_step_inv)

text \<open>C4. However many threads race through the compare-and-swap loop of \<open>allocate\<close>, the blocks
  they obtain, in the order of their successful swaps, form one chain from the initial position:
  each block starts at the end of the one before it or, when it would cross a fragment boundary,
  at the start of the next fragment (the skipped tail then gets a skip marker); no block crosses a
  fragment; and no two blocks overlap.\<close>

theorem concurrent_allocations:
  assumes "cas_step\<^sup>*\<^sup>* (cas_init L p) s" "alloc_ok (L, p, map fst (alloc_log s))"
  shows "chained p (map snd (alloc_log s)) \<and> list_all (block_ok L) (map snd (alloc_log s))
    \<and> (\<forall>i j. i < j \<and> j < length (alloc_log s) \<longrightarrow>
         ar_next_position (snd (alloc_log s ! i)) \<le> previous_position (snd (alloc_log s ! j)))"
proof -
  have eq: "alloc_results (L, p, map fst (alloc_log s)) = map snd (alloc_log s)"
    using cas_reachable_inv [OF assms(1)] by (simp add: cas_inv_def alloc_results_def)
  show ?thesis
    using alloc_results_spec [OF assms(2)] wal_alloc.results_distinct_starts [OF assms(2)]
    by (simp add: eq)
qed

text \<open>Two threads allocate 1000 and 100 bytes; the second loses the race, retries and lands in
  the next fragment.\<close>

theorem concurrent_allocations_witness:
  "\<exists>s. cas_step\<^sup>*\<^sup>* (cas_init demo_layout 0) s \<and> map fst (alloc_log s) = [1000, 100]
     \<and> map (\<lambda>e. allocated_position (snd e)) (alloc_log s) = [0, 1024]
     \<and> chained 0 (map snd (alloc_log s))"
proof -
  let ?r = "\<lparr>allocated_position = 0, previous_position = 0, len_aligned = 1000\<rparr> :: allocation_result"
  let ?q = "\<lparr>allocated_position = 0, previous_position = 0, len_aligned = 104\<rparr> :: allocation_result"
  let ?t = "\<lparr>allocated_position = 1024, previous_position = 1000, len_aligned = 104\<rparr> :: allocation_result"
  let ?A = "allocator_new demo_layout 0"
  let ?B = "?A\<lparr>alloc_position := ar_next_position ?r\<rparr>"
  define s1 where "s1 = (cas_init demo_layout 0)\<lparr>pcs := (\<lambda>_. Idle)(0 := Loop 1000)\<rparr>"
  define s2 where "s2 = s1\<lparr>pcs := (pcs s1)(1 := Loop 100)\<rparr>"
  define s3 where "s3 = s2\<lparr>pcs := (pcs s2)(1 := Loaded 100 ?q)\<rparr>"
  define s4 where "s4 = s3\<lparr>pcs := (pcs s3)(0 := Loaded 1000 ?r)\<rparr>"
  define s5 where "s5 = s4\<lparr>shared := (shared s4)\<lparr>alloc_position := ar_next_position ?r\<rparr>,
    pcs := (pcs s4)(0 := Returned ?r), alloc_log := alloc_log s4 @ [(1000, ?r)]\<rparr>"
  define s6 where "s6 = s5\<lparr>pcs := (pcs s5)(1 := Loop 100)\<rparr>"
  define s7 where "s7 = s6\<lparr>pcs := (pcs s6)(1 := Loaded 100 ?t)\<rparr>"
  define s8 where "s8 = s7\<lparr>shared := (shared s7)\<lparr>alloc_position := ar_next_position ?t\<rparr>,
    pcs := (pcs s7)(1 := Returned ?t), alloc_log := alloc_log s7 @ [(100, ?t)]\<rparr>"
  note d = s1_def s2_def s3_def s4_def s5_def s6_def s7_def cas_init_def allocator_new_def
  have at: "allocate_at demo_layout 1000 0 = Inr ?r" "allocate_at demo_layout 100 0 = Inr ?q"
      "allocate_at demo_layout 100 1000 = Inr ?t"
    by code_simp+
  have nx: "ar_next_position ?r = 1000" by (simp add: ar_next_position_def)
  have 1: "cas_step (cas_init demo_layout 0) s1"
    using cas_step.call [of "cas_init demo_layout 0" 0 1000] by (simp add: s1_def cas_init_def)
  have 2: "cas_step s1 s2" unfolding s2_def by (rule cas_step.call) (simp add: d)
  have 3: "cas_step s2 s3" unfolding s3_def by (rule cas_step.load) (simp_all add: d at)
  have 4: "cas_step s3 s4" unfolding s4_def by (rule cas_step.load) (simp_all add: d at)
  have 5: "cas_step s4 s5" unfolding s5_def by (rule cas_step.cas_ok) (simp_all add: d)
  have 6: "cas_step s5 s6" unfolding s6_def by (rule cas_step.cas_retry [where len = 100 and r = ?q]) (simp_all add: d nx)
  have 7: "cas_step s6 s7" unfolding s7_def by (rule cas_step.load) (simp_all add: d at nx)
  have 8: "cas_step s7 s8" unfolding s8_def by (rule cas_step.cas_ok) (simp_all add: d nx)
  note c = converse_rtranclp_into_rtranclp [of cas_step]
  have run: "cas_step\<^sup>*\<^sup>* (cas_init demo_layout 0) s8"
    by (rule c [OF 1], rule c [OF 2], rule c [OF 3], rule c [OF 4], rule c [OF 5], rule c [OF 6],
        rule c [OF 7], rule r_into_rtranclp [of cas_step, OF 8])
  have log: "alloc_log s8 = [(1000, ?r), (100, ?t)]" by (simp add: s8_def d)
  have ok: "alloc_ok (demo_layout, 0, map fst (alloc_log s8))"
    using demo_layout_ok by (simp add: alloc_ok_def log) (simp add: demo_layout_def)
  have "chained 0 (map snd (alloc_log s8))"
    using concurrent_allocations [OF run ok] by (rule conjunct1)
  with run log show ?thesis by (intro exI [of _ s8] conjI) (assumption | simp add: log)+
qed

end
