(* ===== verification/Wal_Tracker.thy ===== *)
theory Wal_Tracker
  imports Wal_Allocator Sorted_Map "HOL-Library.Product_Lexorder"
begin

text \<open>
  \<open>tidehunter/src/wal/tracker.rs\<close>: the thread that turns out-of-order completions of log writes
  into the frontier \<open>last_processed\<close>, and the latches that pin the published frontier.
  \<open>tracker_handle\<close> is the body of \<open>WalTrackerThread::run\<close> for one message; \<open>tracker_step\<close>
  interleaves writers (allocate, send, drop the guard) with the thread. A response channel is a
  token, and what the thread sends on it (or to the mapper) is an event.
\<close>

record wal_tracker_state =
  pending :: "(u64, allocation_result) smap"
  ts_last_processed :: last_processed
  highest_seen :: u64

datatype wal_tracker_latch = WalTrackerLatch (latch_id: u64) (latch_position: last_processed)

record pending_latch_request =
  target :: u64
  request_id :: u64
  response :: nat

record pending_wait =
  wait_target :: u64
  wait_response :: nat

record wal_tracker_thread =
  shared_last_processed :: last_processed
  tracker_state :: wal_tracker_state
  latches :: "(last_processed \<times> u64, unit) smap"
  next_latch_id :: u64
  pending_requests :: "pending_latch_request list"
  pending_waits :: "pending_wait list"
  thread_layout :: wal_layout

datatype wal_tracker_message =
    AllocationMessage allocation_result
  | LatchRequest nat
  | LatchRelease wal_tracker_latch
  | WaitProcessed nat
  | Barrier nat

datatype tracker_event =
    MapFinalized map_id
  | LatchReply nat wal_tracker_latch
  | WaitReply nat
  | BarrierDropped nat

section \<open>The state: completions to frontier\<close>

definition tracker_new_empty :: "last_processed \<Rightarrow> wal_tracker_state" where
  "tracker_new_empty lp = \<lparr>pending = [], ts_last_processed = lp, highest_seen = lp\<rparr>"

text \<open>The \<open>while let\<close> loop: the remaining map, the last result taken, and the results the
  callback saw, in order.\<close>

function add_loop :: "(u64, allocation_result) smap \<Rightarrow> allocation_result
    \<Rightarrow> (u64, allocation_result) smap \<times> allocation_result \<times> allocation_result list" where
  "add_loop pend r =
     (case map_of pend (ar_next_position r) of
        None \<Rightarrow> (pend, r, [])
      | Some r' \<Rightarrow>
          let (pend', rf, cs) = add_loop (sm_remove (ar_next_position r) pend) r'
          in (pend', rf, r' # cs))"
  by pat_completeness auto

termination
proof (relation "measure (\<lambda>(pend, r). length pend)", goal_cases)
  case (2 pend r r')
  then have "(ar_next_position r, r') \<in> set pend" by (rule map_of_SomeD)
  then show ?case by (auto simp: sm_remove_def intro: length_filter_less)
qed simp

declare add_loop.simps [simp del]

definition add_processed :: "wal_tracker_state \<Rightarrow> allocation_result
    \<Rightarrow> wal_tracker_state \<times> last_processed option \<times> allocation_result list" where
  "add_processed st result =
     (let st = st\<lparr>highest_seen := max (highest_seen st) (ar_next_position result)\<rparr>
      in if ts_last_processed st \<noteq> previous_position result
         then (st\<lparr>pending := sm_insert (previous_position result) result (pending st)\<rparr>, None, [])
         else
           let (pend, rf, cs) = add_loop (pending st) result;
               lp = ar_next_position rf
           in (st\<lparr>pending := pend, ts_last_processed := lp\<rparr>, Some lp, result # cs))"

section \<open>The thread\<close>

definition tracker_start :: "wal_layout \<Rightarrow> last_processed \<Rightarrow> wal_tracker_thread" where
  "tracker_start L lp =
     \<lparr>shared_last_processed = lp, tracker_state = tracker_new_empty lp, latches = [],
      next_latch_id = 0, pending_requests = [], pending_waits = [], thread_layout = L\<rparr>"

definition publish :: "wal_tracker_thread \<Rightarrow> wal_tracker_thread" where
  "publish th =
     (let internal = ts_last_processed (tracker_state th);
          external = (case first_of (latches th) of
                        None \<Rightarrow> internal
                      | Some ((min_position, _), _) \<Rightarrow> min internal min_position)
      in th\<lparr>shared_last_processed := external\<rparr>)"

definition fulfill_pending_requests :: "wal_tracker_thread \<Rightarrow> wal_tracker_thread \<times> tracker_event list" where
  "fulfill_pending_requests th =
     (let lp = ts_last_processed (tracker_state th);
          ready = filter (\<lambda>q. target q \<le> lp) (pending_requests th);
          ready_waits = filter (\<lambda>w. wait_target w \<le> lp) (pending_waits th)
      in (th\<lparr>pending_requests := filter (\<lambda>q. \<not> target q \<le> lp) (pending_requests th),
             pending_waits := filter (\<lambda>w. \<not> wait_target w \<le> lp) (pending_waits th)\<rparr>,
          map (\<lambda>q. LatchReply (response q) (WalTrackerLatch (request_id q) (target q))) ready
          @ map (\<lambda>w. WaitReply (wait_response w)) ready_waits))"

definition finalize_callback :: "wal_layout \<Rightarrow> allocation_result \<Rightarrow> tracker_event list" where
  "finalize_callback L processed =
     (case is_first_in_frag L (allocated_position processed) of
        None \<Rightarrow> []
      | Some frag \<Rightarrow>
          (case prev_map frag of None \<Rightarrow> [] | Some prev_frag \<Rightarrow> [MapFinalized prev_frag]))"

definition handle_allocation :: "allocation_result \<Rightarrow> wal_tracker_thread
    \<Rightarrow> wal_tracker_thread \<times> tracker_event list" where
  "handle_allocation result th =
     (let (st, advanced, cs) = add_processed (tracker_state th) result;
          th = th\<lparr>tracker_state := st\<rparr>;
          finalized = concat (map (finalize_callback (thread_layout th)) cs)
      in if advanced \<noteq> None
         then
           let th = publish th
           in if pending_requests th \<noteq> [] \<or> pending_waits th \<noteq> []
              then let (th, evs) = fulfill_pending_requests th in (th, finalized @ evs)
              else (th, finalized)
         else (th, finalized))"

definition handle_latch_request :: "nat \<Rightarrow> wal_tracker_thread
    \<Rightarrow> wal_tracker_thread \<times> tracker_event list" where
  "handle_latch_request resp th =
     (let i = next_latch_id th;
          tgt = highest_seen (tracker_state th);
          th = th\<lparr>next_latch_id := i + 1, latches := sm_insert (tgt, i) () (latches th)\<rparr>
      in if ts_last_processed (tracker_state th) \<ge> tgt
         then (publish th, [LatchReply resp (WalTrackerLatch i tgt)])
         else (publish (th\<lparr>pending_requests := pending_requests th
                 @ [\<lparr>target = tgt, request_id = i, response = resp\<rparr>]\<rparr>), []))"

definition handle_latch_release :: "wal_tracker_latch \<Rightarrow> wal_tracker_thread
    \<Rightarrow> wal_tracker_thread \<times> tracker_event list" where
  "handle_latch_release latch th =
     (publish (th\<lparr>latches := sm_remove (latch_position latch, latch_id latch) (latches th)\<rparr>), [])"

definition handle_wait_processed :: "nat \<Rightarrow> wal_tracker_thread
    \<Rightarrow> wal_tracker_thread \<times> tracker_event list" where
  "handle_wait_processed resp th =
     (let tgt = highest_seen (tracker_state th)
      in if ts_last_processed (tracker_state th) \<ge> tgt
         then (th, [WaitReply resp])
         else (th\<lparr>pending_waits := pending_waits th
                 @ [\<lparr>wait_target = tgt, wait_response = resp\<rparr>]\<rparr>, []))"

fun tracker_handle :: "wal_tracker_message \<Rightarrow> wal_tracker_thread
    \<Rightarrow> wal_tracker_thread \<times> tracker_event list" where
  "tracker_handle (AllocationMessage result) th = handle_allocation result th"
| "tracker_handle (LatchRequest resp) th = handle_latch_request resp th"
| "tracker_handle (LatchRelease latch) th = handle_latch_release latch th"
| "tracker_handle (WaitProcessed resp) th = handle_wait_processed resp th"
| "tracker_handle (Barrier g) th = (th, [BarrierDropped g])"

section \<open>Writers and the thread\<close>

text \<open>\<open>in_hand\<close> holds results a writer has obtained and not yet announced, \<open>held\<close> those whose
  \<open>WalGuard\<close>s are still alive. \<open>allocated\<close> and \<open>delivered\<close> record history.\<close>

record tracker_sys =
  sys_alloc :: wal_allocator
  allocated :: "allocation_result list"
  in_hand :: "allocation_result set"
  held :: "allocation_result set"
  channel :: "wal_tracker_message list"
  delivered :: "allocation_result set"
  thread :: wal_tracker_thread
  events :: "tracker_event list"

inductive tracker_step :: "tracker_sys \<Rightarrow> tracker_sys \<Rightarrow> bool" where
  alloc: "0 < len \<Longrightarrow> len \<le> frag_size (alloc_layout (sys_alloc s))
    \<Longrightarrow> allocate (sys_alloc s) len = Inr (A, r)
    \<Longrightarrow> tracker_step s (s\<lparr>sys_alloc := A, allocated := allocated s @ [r],
          in_hand := insert r (in_hand s)\<rparr>)"
| announce: "r \<in> in_hand s
    \<Longrightarrow> tracker_step s (s\<lparr>in_hand := in_hand s - {r}, held := insert r (held s),
          channel := channel s @ [AllocationMessage r]\<rparr>)"
| drop_guard: "r \<in> held s \<Longrightarrow> tracker_step s (s\<lparr>held := held s - {r}\<rparr>)"
| send: "(\<forall>r. m \<noteq> AllocationMessage r) \<Longrightarrow> tracker_step s (s\<lparr>channel := channel s @ [m]\<rparr>)"
| recv_allocation: "channel s = AllocationMessage r # ms \<Longrightarrow> r \<notin> held s
    \<Longrightarrow> handle_allocation r (thread s) = (th, evs)
    \<Longrightarrow> tracker_step s (s\<lparr>channel := ms, delivered := insert r (delivered s), thread := th,
          events := events s @ evs\<rparr>)"
| recv_other: "channel s = m # ms \<Longrightarrow> (\<forall>r. m \<noteq> AllocationMessage r)
    \<Longrightarrow> tracker_handle m (thread s) = (th, evs)
    \<Longrightarrow> tracker_step s (s\<lparr>channel := ms, thread := th, events := events s @ evs\<rparr>)"

definition tracker_init :: "wal_layout \<Rightarrow> u64 \<Rightarrow> tracker_sys" where
  "tracker_init L p =
     \<lparr>sys_alloc = allocator_new L p, allocated = [], in_hand = {}, held = {}, channel = [],
      delivered = {}, thread = tracker_start L p, events = []\<rparr>"

section \<open>The frontier against the chain of allocations\<close>

definition chain_end :: "u64 \<Rightarrow> allocation_result list \<Rightarrow> u64" where
  "chain_end p rs = (if rs = [] then p else ar_next_position (last rs))"

lemma chain_end_simps [simp]:
  "chain_end p [] = p" "chain_end p (r # rs) = chain_end (ar_next_position r) rs"
  "chain_end p (rs @ [r]) = ar_next_position r"
  by (simp_all add: chain_end_def)

lemma chain_end_append: "chain_end p (xs @ ys) = chain_end (chain_end p xs) ys"
  by (simp add: chain_end_def)

lemma chained_append:
  "chained p (xs @ ys) \<longleftrightarrow> chained p xs \<and> chained (chain_end p xs) ys"
  by (induction xs arbitrary: p) auto

lemma chained_ge:
  assumes "chained p rs" "r \<in> set rs"
  shows "p \<le> previous_position r" "p < ar_next_position r"
  using assms
proof (induction rs arbitrary: p)
  case (Cons x rs)
  { case 1 then show ?case using Cons.IH(1) [of "ar_next_position x"] by fastforce
  next
    case 2 then show ?case using Cons.IH(2) [of "ar_next_position x"] by fastforce }
qed simp_all

lemma chained_le_end:
  assumes "chained p rs"
  shows "p \<le> chain_end p rs" "r \<in> set rs \<Longrightarrow> ar_next_position r \<le> chain_end p rs"
  using assms
proof (induction rs arbitrary: p)
  case (Cons x rs)
  { case 1 then show ?case using Cons.IH(1) [of "ar_next_position x"] by fastforce
  next
    case 2 then show ?case
      using Cons.IH(1,2) [of "ar_next_position x"] by auto }
qed simp_all

lemma chained_distinct:
  assumes "chained p rs"
  shows "distinct rs" "inj_on previous_position (set rs)"
  using assms
proof (induction rs arbitrary: p)
  case (Cons x rs)
  have gt: "p < previous_position r" if "chained p (x # rs)" "r \<in> set rs" for r p
    using chained_ge(1) [of "ar_next_position x" rs r] that by auto
  { case 1 then show ?case using Cons.IH(1) gt by force
  next
    case 2
    then have "previous_position r \<noteq> previous_position x" if "r \<in> set rs" for r
      using gt [OF 2 that] by auto
    with 2 Cons.IH(2) show ?case by (auto simp: inj_on_insert) (metis image_iff)+ }
qed simp_all

lemma chained_head_unique:
  assumes "chained p rs" "r \<in> set rs" "previous_position r = p"
  shows "\<exists>ys. rs = r # ys"
proof (cases rs)
  case (Cons x ys)
  have "r = x"
    using chained_distinct(2) [OF assms(1)] assms Cons by (auto simp: inj_on_def)
  with Cons show ?thesis by blast
qed (use assms in simp)

text \<open>\<open>rep_pending\<close>: the map holds exactly the delivered results of a suffix of the chain.\<close>

definition rep_pending :: "allocation_result set \<Rightarrow> allocation_result list
    \<Rightarrow> (u64, allocation_result) smap \<Rightarrow> bool" where
  "rep_pending D ys pend \<longleftrightarrow> sm_wf pend
   \<and> (\<forall>q r. map_of pend q = Some r \<longleftrightarrow> r \<in> set ys \<and> r \<in> D \<and> previous_position r = q)"

lemma rep_pending_Nil: "rep_pending D [] pend \<Longrightarrow> pend = []"
  by (intro sm_eqI) (auto simp: rep_pending_def fun_eq_iff intro!: option.expand)

lemma rep_pending_remove:
  assumes "rep_pending D (r # ys) pend" "chained p (r # ys)"
  shows "rep_pending D ys (sm_remove p pend)"
proof -
  have "previous_position x \<noteq> p" if "x \<in> set ys" for x
    using chained_ge(1) [of "ar_next_position r" ys x] assms(2) that by auto
  with assms show ?thesis
    by (auto simp: rep_pending_def map_of_sm_remove sm_wf_remove)
qed

text \<open>The loop takes the longest delivered run after \<open>r\<close>.\<close>

lemma add_loop_spec:
  assumes "chained (ar_next_position r) ys" "rep_pending D ys pend"
  shows "\<exists>cs zs pend'. add_loop pend r = (pend', last (r # cs), cs) \<and> ys = cs @ zs
           \<and> set cs \<subseteq> D \<and> (zs \<noteq> [] \<longrightarrow> hd zs \<notin> D) \<and> rep_pending D zs pend'"
  using assms
proof (induction ys arbitrary: r pend)
  case Nil
  then have "pend = []" by (simp add: rep_pending_Nil)
  with Nil show ?case by (simp add: add_loop.simps [of "[]"])
next
  case (Cons y ys)
  let ?n = "ar_next_position r"
  have prev: "previous_position y = ?n" and ch: "chained (ar_next_position y) ys"
    using Cons.prems by simp_all
  show ?case
  proof (cases "y \<in> D")
    case True
    then have look: "map_of pend ?n = Some y"
      using Cons.prems prev by (simp add: rep_pending_def)
    have "rep_pending D ys (sm_remove ?n pend)"
      using rep_pending_remove Cons.prems by blast
    from Cons.IH [OF ch this] obtain cs zs pend' where
      "add_loop (sm_remove ?n pend) y = (pend', last (y # cs), cs)" "ys = cs @ zs"
      "set cs \<subseteq> D" "zs \<noteq> [] \<longrightarrow> hd zs \<notin> D" "rep_pending D zs pend'"
      by blast
    with True look show ?thesis
      by (intro exI [of _ "y # cs"] exI [of _ zs] exI [of _ pend'])
        (simp add: add_loop.simps [of pend r])
  next
    case False
    have "map_of pend ?n = None"
    proof (rule ccontr)
      assume "map_of pend ?n \<noteq> None"
      then obtain x where x: "x \<in> set (y # ys)" "x \<in> D" "previous_position x = ?n"
        using Cons.prems(2) by (auto simp: rep_pending_def)
      with chained_head_unique [OF Cons.prems(1)] False show False by auto
    qed
    with False Cons.prems show ?thesis
      by (intro exI [of _ "[]"] exI [of _ "y # ys"] exI [of _ pend])
        (simp add: add_loop.simps [of pend r])
  qed
qed

text \<open>The abstraction: after the completions \<open>D\<close> of the chain \<open>rs\<close>, the frontier is the end of
  the longest completed prefix, and the highest position seen is the largest completed end.\<close>

definition tracker_rep :: "u64 \<Rightarrow> allocation_result list \<Rightarrow> allocation_result set
    \<Rightarrow> wal_tracker_state \<Rightarrow> bool" where
  "tracker_rep p rs D st \<longleftrightarrow>
     (\<exists>xs ys. rs = xs @ ys \<and> set xs \<subseteq> D \<and> (ys \<noteq> [] \<longrightarrow> hd ys \<notin> D)
        \<and> ts_last_processed st = chain_end p xs \<and> rep_pending D ys (pending st))
   \<and> highest_seen st \<in> insert p (ar_next_position ` D)
   \<and> p \<le> highest_seen st \<and> (\<forall>r \<in> D. ar_next_position r \<le> highest_seen st)"

lemma tracker_rep_new: "tracker_rep p [] {} (tracker_new_empty p)"
  by (simp add: tracker_rep_def tracker_new_empty_def rep_pending_def)

lemma tracker_rep_grow:
  assumes "tracker_rep p rs D st" "D \<subseteq> set rs" "chained p (rs @ [r])"
  shows "tracker_rep p (rs @ [r]) D st"
proof -
  obtain xs ys where x: "rs = xs @ ys" "set xs \<subseteq> D" "ys \<noteq> [] \<longrightarrow> hd ys \<notin> D"
      "ts_last_processed st = chain_end p xs" "rep_pending D ys (pending st)"
    using assms(1) by (auto simp: tracker_rep_def)
  have "r \<notin> D"
    using chained_distinct(1) [OF assms(3)] assms(2) by auto
  then have "rep_pending D (ys @ [r]) (pending st)" "hd (ys @ [r]) \<notin> D"
    using x by (auto simp: rep_pending_def hd_append)
  moreover have "highest_seen st \<in> insert p (ar_next_position ` D)" "p \<le> highest_seen st"
      "\<forall>r \<in> D. ar_next_position r \<le> highest_seen st"
    using assms(1) by (auto simp: tracker_rep_def)
  ultimately show ?thesis
    using x unfolding tracker_rep_def by (intro conjI exI [of _ xs] exI [of _ "ys @ [r]"]) auto
qed

lemma highest_seen_add:
  assumes "add_processed st r = (st', adv, cs)"
  shows "highest_seen st' = max (highest_seen st) (ar_next_position r)"
  using assms by (auto simp: add_processed_def Let_def split: if_splits prod.splits)

lemma add_processed_rep:
  assumes "chained p rs" "tracker_rep p rs D st" "r \<in> set rs" "r \<notin> D"
    and add: "add_processed st r = (st', adv, cs)"
  shows "tracker_rep p rs (insert r D) st'"
    and "ts_last_processed st \<le> ts_last_processed st'"
    and "adv = None \<Longrightarrow> ts_last_processed st' = ts_last_processed st \<and> cs = []"
    and "\<exists>xs zs. rs = xs @ cs @ zs \<and> ts_last_processed st = chain_end p xs
           \<and> (adv \<noteq> None \<longrightarrow> ts_last_processed st' = chain_end p (xs @ cs))"
proof -
  obtain xs ys where x: "rs = xs @ ys" "set xs \<subseteq> D" "ys \<noteq> [] \<longrightarrow> hd ys \<notin> D"
      "ts_last_processed st = chain_end p xs" "rep_pending D ys (pending st)"
    using assms(2) by (auto simp: tracker_rep_def)
  have ys: "chained (chain_end p xs) ys" "r \<in> set ys"
    using assms(1,3,4) x by (auto simp: chained_append)
  have hs: "highest_seen st' \<in> insert p (ar_next_position ` insert r D)" "p \<le> highest_seen st'"
      "\<forall>q \<in> insert r D. ar_next_position q \<le> highest_seen st'"
    using assms(2) highest_seen_add [OF add]
    by (auto simp: tracker_rep_def max_def intro: order.trans)
  have "tracker_rep p rs (insert r D) st' \<and> ts_last_processed st \<le> ts_last_processed st'
    \<and> (adv = None \<longrightarrow> ts_last_processed st' = ts_last_processed st \<and> cs = [])
    \<and> (\<exists>xs zs. rs = xs @ cs @ zs \<and> ts_last_processed st = chain_end p xs
         \<and> (adv \<noteq> None \<longrightarrow> ts_last_processed st' = chain_end p (xs @ cs)))"
  proof (cases "chain_end p xs = previous_position r")
    case True
    then obtain ys' where ys': "ys = r # ys'"
      using chained_head_unique [OF ys] by auto
    have rep: "rep_pending (insert r D) ys' (pending st)"
    proof -
      have "r \<notin> set ys'" using chained_distinct(1) [OF ys(1)] ys' by simp
      with x(5) assms(4) ys' show ?thesis by (auto simp: rep_pending_def)
    qed
    have "chained (ar_next_position r) ys'" using ys ys' by simp
    from add_loop_spec [OF this rep] obtain cs' zs pend' where l:
      "add_loop (pending st) r = (pend', last (r # cs'), cs')" "ys' = cs' @ zs"
      "set cs' \<subseteq> insert r D" "zs \<noteq> [] \<longrightarrow> hd zs \<notin> insert r D" "rep_pending (insert r D) zs pend'"
      by blast
    have st': "cs = r # cs'" "adv \<noteq> None" "pending st' = pend'"
        "ts_last_processed st' = chain_end p (xs @ r # cs')"
      using add l(1) True x(4) by (auto simp: add_processed_def Let_def chain_end_def)
    have rs: "rs = (xs @ r # cs') @ zs" using x(1) ys' l(2) by simp
    have "chained (chain_end p xs) (r # cs')"
      using ys ys' l(2) by (simp add: chained_append)
    then have "chain_end p xs \<le> chain_end p (xs @ r # cs')"
      using chained_le_end(1) by (fastforce simp: chain_end_def)
    moreover have "tracker_rep p rs (insert r D) st'"
      using rs l x(2) st' hs unfolding tracker_rep_def
      by (intro conjI exI [of _ "xs @ r # cs'"] exI [of _ zs]) auto
    ultimately show ?thesis using st' x(4) rs by auto
  next
    case False
    have st': "st' = st\<lparr>highest_seen := max (highest_seen st) (ar_next_position r),
        pending := sm_insert (previous_position r) r (pending st)\<rparr>" "adv = None" "cs = []"
      using add False x(4) by (auto simp: add_processed_def Let_def)
    have "rep_pending (insert r D) ys (pending st')"
      using x(5) ys(2) chained_distinct(2) [OF ys(1)] assms(4)
      by (auto simp: rep_pending_def st' map_of_sm_insert sm_wf_insert inj_on_def)
    moreover have "hd ys \<noteq> r"
      using ys False by (cases ys) auto
    ultimately have "tracker_rep p rs (insert r D) st'"
      using x hs unfolding tracker_rep_def
      by (intro conjI exI [of _ xs] exI [of _ ys]) (auto simp: st')
    then show ?thesis using st' x by auto
  qed
  then show "tracker_rep p rs (insert r D) st'"
    and "ts_last_processed st \<le> ts_last_processed st'"
    and "adv = None \<Longrightarrow> ts_last_processed st' = ts_last_processed st \<and> cs = []"
    and "\<exists>xs zs. rs = xs @ cs @ zs \<and> ts_last_processed st = chain_end p xs
           \<and> (adv \<noteq> None \<longrightarrow> ts_last_processed st' = chain_end p (xs @ cs))"
    by blast+
qed

lemma tracker_rep_frontier:
  assumes "chained p rs" "tracker_rep p rs D st"
  shows "ts_last_processed st \<le> highest_seen st"
    and "r \<in> set rs \<Longrightarrow> previous_position r < ts_last_processed st \<Longrightarrow> r \<in> D"
    and "set rs = D \<Longrightarrow> ts_last_processed st = chain_end p rs
           \<and> highest_seen st \<le> ts_last_processed st \<and> pending st = []"
    and "ts_last_processed st \<le> chain_end p rs"
proof -
  obtain xs ys where x: "rs = xs @ ys" "set xs \<subseteq> D" "ys \<noteq> [] \<longrightarrow> hd ys \<notin> D"
      "ts_last_processed st = chain_end p xs" "rep_pending D ys (pending st)"
    using assms(2) by (auto simp: tracker_rep_def)
  have hs: "highest_seen st \<in> insert p (ar_next_position ` D)" "p \<le> highest_seen st"
      "\<forall>r \<in> D. ar_next_position r \<le> highest_seen st"
    using assms(2) by (auto simp: tracker_rep_def)
  show "ts_last_processed st \<le> chain_end p rs"
    using assms(1) x chained_le_end(1) [of "chain_end p xs" ys]
    by (simp add: chained_append chain_end_append)
  show "ts_last_processed st \<le> highest_seen st"
    using x hs by (cases xs rule: rev_cases) auto
  show "r \<in> set rs \<Longrightarrow> previous_position r < ts_last_processed st \<Longrightarrow> r \<in> D"
    using chained_ge(1) [of "chain_end p xs" ys r] assms(1) x by (auto simp: chained_append not_le)
  assume all: "set rs = D"
  then have ys: "ys = []" using x by (cases ys) auto
  have "highest_seen st \<le> chain_end p rs"
    using hs chained_le_end [OF assms(1)] all by auto
  then show "ts_last_processed st = chain_end p rs
      \<and> highest_seen st \<le> ts_last_processed st \<and> pending st = []"
    using x ys rep_pending_Nil by auto
qed

section \<open>The published frontier\<close>

definition external_of :: "wal_tracker_thread \<Rightarrow> last_processed" where
  "external_of th = shared_last_processed (publish th)"

lemma external_of_bounds:
  assumes "sm_wf (latches th)"
  shows "external_of th \<le> ts_last_processed (tracker_state th)"
    and "((q, i), u) \<in> set (latches th) \<Longrightarrow> external_of th \<le> q"
    and "x \<le> ts_last_processed (tracker_state th)
      \<Longrightarrow> (\<And>q i. ((q, i), ()) \<in> set (latches th) \<Longrightarrow> x \<le> q) \<Longrightarrow> x \<le> external_of th"
proof -
  have first: "q' \<le> q" if "first_of (latches th) = Some ((q', i'), u')"
      "((q, i), u) \<in> set (latches th)" for q' i' u' q i u
  proof -
    have "\<forall>e \<in> set (latches th). (q', i') \<le> fst e"
      using first_of_sm_iff [OF assms, of "(q', i')" u'] that(1) by auto
    with that(2) have "(q', i') \<le> (q, i)" by force
    then show ?thesis by auto
  qed
  show "external_of th \<le> ts_last_processed (tracker_state th)"
    by (auto simp: external_of_def publish_def Let_def split: option.splits)
  show "((q, i), u) \<in> set (latches th) \<Longrightarrow> external_of th \<le> q"
    using first by (auto simp: external_of_def publish_def Let_def first_of_def min.coboundedI2
        split: option.splits list.splits)
  show "x \<le> ts_last_processed (tracker_state th)
      \<Longrightarrow> (\<And>q i. ((q, i), ()) \<in> set (latches th) \<Longrightarrow> x \<le> q) \<Longrightarrow> x \<le> external_of th"
    by (auto simp: external_of_def publish_def Let_def split: option.splits dest: first_of_Some)
qed

lemma external_of_cong:
  "latches a = latches b
     \<Longrightarrow> ts_last_processed (tracker_state a) = ts_last_processed (tracker_state b)
     \<Longrightarrow> external_of a = external_of b"
  by (simp add: external_of_def publish_def Let_def)

lemma external_of_pending [simp]:
  "external_of (th\<lparr>pending_waits := ws\<rparr>) = external_of th"
  "external_of (th\<lparr>pending_requests := qs\<rparr>) = external_of th"
  by (intro external_of_cong; simp)+

lemma publish_simps [simp]:
  "tracker_state (publish th) = tracker_state th" "latches (publish th) = latches th"
  "pending_requests (publish th) = pending_requests th"
  "pending_waits (publish th) = pending_waits th" "thread_layout (publish th) = thread_layout th"
  "next_latch_id (publish th) = next_latch_id th"
  "external_of (publish th) = external_of th" "shared_last_processed (publish th) = external_of th"
  by (simp_all add: publish_def external_of_def Let_def)

definition thread_inv :: "wal_tracker_thread \<Rightarrow> bool" where
  "thread_inv th \<longleftrightarrow> sm_wf (latches th) \<and> shared_last_processed th = external_of th
   \<and> ts_last_processed (tracker_state th) \<le> highest_seen (tracker_state th)
   \<and> (\<forall>q \<in> set (pending_requests th). ts_last_processed (tracker_state th) < target q
        \<and> target q \<le> highest_seen (tracker_state th))
   \<and> (\<forall>w \<in> set (pending_waits th). ts_last_processed (tracker_state th) < wait_target w
        \<and> wait_target w \<le> highest_seen (tracker_state th))"

text \<open>What an event the thread has sent promises, given the frontier: a latch is handed out, and
  a fragment finalized, only when everything below it is processed.\<close>

fun event_ok :: "wal_layout \<Rightarrow> last_processed \<Rightarrow> tracker_event \<Rightarrow> bool" where
  "event_ok L lp (LatchReply _ latch) \<longleftrightarrow> latch_position latch \<le> lp"
| "event_ok L lp (MapFinalized m) \<longleftrightarrow> (unat m + 1) * unat (frag_size L) \<le> unat lp"
| "event_ok L lp _ \<longleftrightarrow> True"

lemma event_ok_mono: "event_ok L lp e \<Longrightarrow> lp \<le> lp' \<Longrightarrow> event_ok L lp' e"
  by (cases e) (auto simp: word_le_nat_alt)

lemma handle_other_inv:
  assumes "thread_inv th" "tracker_handle m th = (th', evs)" "\<forall>r. m \<noteq> AllocationMessage r"
  shows "thread_inv th' \<and> shared_last_processed th \<le> shared_last_processed th'
    \<and> tracker_state th' = tracker_state th \<and> thread_layout th' = thread_layout th
    \<and> list_all (event_ok L (ts_last_processed (tracker_state th))) evs"
proof (cases m)
  case (LatchRequest resp)
  let ?st = "tracker_state th"
  let ?ls = "sm_insert (highest_seen ?st, next_latch_id th) () (latches th)"
  have wf: "sm_wf ?ls" using assms(1) by (simp add: thread_inv_def sm_wf_insert)
  have th': "latches th' = ?ls" "tracker_state th' = ?st"
    using assms(2) LatchRequest by (auto simp: handle_latch_request_def Let_def split: if_splits)
  have "external_of th \<le> external_of th'"
  proof (rule external_of_bounds(3))
    show "sm_wf (latches th')" using wf th' by simp
    show "external_of th \<le> ts_last_processed (tracker_state th')"
      using assms(1) th' by (simp add: thread_inv_def external_of_bounds)
    fix q i assume "((q, i), ()) \<in> set (latches th')"
    then have "(q, i) = (highest_seen ?st, next_latch_id th) \<or> ((q, i), ()) \<in> set (latches th)"
      using th' sm_insert_key by fastforce
    then show "external_of th \<le> q"
      using assms(1) external_of_bounds(1,2) [of th]
      by (auto simp: thread_inv_def intro: order.trans)
  qed
  then show ?thesis
    using assms LatchRequest wf
    by (auto simp: handle_latch_request_def Let_def thread_inv_def not_le split: if_splits)
next
  case (LatchRelease latch)
  have "external_of th \<le> external_of th'" if "latches th' = sm_remove k (latches th)"
      "tracker_state th' = tracker_state th" for k
    using assms(1) that external_of_bounds(1,2) [of th]
    by (intro external_of_bounds(3)) (auto simp: thread_inv_def sm_wf_filter sm_remove_def)
  then show ?thesis
    using assms LatchRelease
    by (auto simp: handle_latch_release_def thread_inv_def sm_wf_remove)
qed (use assms in \<open>auto simp: handle_wait_processed_def thread_inv_def Let_def not_le
       split: if_splits\<close>)

text \<open>An allocation message, given what \<open>add_processed\<close> did to the state.\<close>

lemma handle_allocation_inv:
  assumes "thread_inv th" "handle_allocation r th = (th', evs)"
    and add: "add_processed (tracker_state th) r = (st', adv, cs)"
    and mono: "ts_last_processed (tracker_state th) \<le> ts_last_processed st'"
    and none: "adv = None \<Longrightarrow> ts_last_processed st' = ts_last_processed (tracker_state th)"
    and hs: "ts_last_processed st' \<le> highest_seen st'"
  shows "thread_inv th' \<and> shared_last_processed th \<le> shared_last_processed th'
    \<and> tracker_state th' = st' \<and> thread_layout th' = thread_layout th
    \<and> (\<forall>e \<in> set evs. e \<in> set (concat (map (finalize_callback (thread_layout th)) cs))
         \<or> event_ok L (ts_last_processed st') e)"
proof -
  have hs': "highest_seen (tracker_state th) \<le> highest_seen st'"
    using highest_seen_add [OF add] by simp
  have th': "tracker_state th' = st'" "latches th' = latches th" "thread_layout th' = thread_layout th"
    using assms(2) by (auto simp: handle_allocation_def add Let_def fulfill_pending_requests_def
        split: if_splits)
  have ext: "external_of th \<le> external_of th'"
    using assms(1) mono external_of_bounds(1,2) [of th]
    by (intro external_of_bounds(3)) (auto simp: th' thread_inv_def intro: order.trans)
  have sh: "shared_last_processed th' = external_of th'"
  proof (cases "adv = None")
    case True
    then have "th' = th\<lparr>tracker_state := st'\<rparr>"
      using assms(2) by (auto simp: handle_allocation_def add Let_def)
    moreover have "external_of (th\<lparr>tracker_state := st'\<rparr>) = external_of th"
      using none [OF True] by (intro external_of_cong) simp_all
    ultimately show ?thesis using assms(1) by (simp add: thread_inv_def)
  next
    case False
    then have "shared_last_processed th' = external_of (th\<lparr>tracker_state := st'\<rparr>)"
      using assms(2)
      by (auto simp: handle_allocation_def add Let_def fulfill_pending_requests_def split: if_splits)
    also have "\<dots> = external_of th'"
      using th' by (intro external_of_cong) simp_all
    finally show ?thesis .
  qed
  have "thread_inv th'"
    using assms(1,2) hs hs' sh none unfolding thread_inv_def
    by (auto simp: handle_allocation_def add Let_def fulfill_pending_requests_def not_le th'
        intro: order.trans split: if_splits)
  moreover have "\<forall>e \<in> set evs. e \<in> set (concat (map (finalize_callback (thread_layout th)) cs))
      \<or> event_ok L (ts_last_processed st') e"
    using assms(2) by (auto simp: handle_allocation_def add Let_def fulfill_pending_requests_def
        split: if_splits)
  ultimately show ?thesis
    using th' ext sh assms(1) by (simp add: thread_inv_def)
qed

text \<open>The callback finalizes a fragment only from the first block of the next one.\<close>

lemma finalize_callback_ok:
  assumes "MapFinalized m \<in> set (finalize_callback L r)" "block_ok L r"
    and "ar_next_position r \<le> lp"
  shows "event_ok L lp (MapFinalized m)"
proof -
  let ?a = "allocated_position r"
  have frag: "?a mod frag_size L = 0" "?a div frag_size L \<noteq> 0" "m = ?a div frag_size L - 1"
    using assms(1) by (auto simp: finalize_callback_def is_first_in_frag_def locate_def prev_map_def
        split: if_splits)
  have "unat m = unat ?a div unat (frag_size L) - 1" "0 < unat ?a div unat (frag_size L)"
    using frag(2,3) unat_sub [of 1 "?a div frag_size L"]
    by (auto simp: unat_div word_le_nat_alt Suc_le_eq unat_gt_0 simp flip: unat_div)
  then have "(unat m + 1) * unat (frag_size L) = unat ?a div unat (frag_size L) * unat (frag_size L)"
    by simp
  also have "\<dots> \<le> unat ?a" by simp
  also have "\<dots> \<le> unat lp"
    using assms(2,3) by (auto simp: block_ok_def word_le_nat_alt word_less_nat_alt)
  finally show ?thesis by simp
qed

lemma finalize_callback_MapFinalized:
  "e \<in> set (finalize_callback L r) \<Longrightarrow> \<exists>m. e = MapFinalized m"
  by (auto simp: finalize_callback_def split: option.splits)

section \<open>The whole system\<close>

fun channel_allocs :: "wal_tracker_message list \<Rightarrow> allocation_result list" where
  "channel_allocs [] = []"
| "channel_allocs (AllocationMessage r # ms) = r # channel_allocs ms"
| "channel_allocs (_ # ms) = channel_allocs ms"

lemma channel_allocs_append [simp]:
  "channel_allocs (xs @ ys) = channel_allocs xs @ channel_allocs ys"
  by (induction xs rule: channel_allocs.induct) auto

lemma channel_allocs_other: "(\<forall>r. m \<noteq> AllocationMessage r) \<Longrightarrow> channel_allocs (m # ms) = channel_allocs ms"
  by (cases m) auto

text \<open>Every result is in exactly one place: with its writer, in the channel, or delivered; and
  guards are held only for results not yet delivered.\<close>

definition owners_inv :: "tracker_sys \<Rightarrow> bool" where
  "owners_inv s \<longleftrightarrow>
     set (allocated s) = in_hand s \<union> set (channel_allocs (channel s)) \<union> delivered s
   \<and> in_hand s \<inter> set (channel_allocs (channel s)) = {}
   \<and> in_hand s \<inter> delivered s = {} \<and> set (channel_allocs (channel s)) \<inter> delivered s = {}
   \<and> distinct (channel_allocs (channel s)) \<and> held s \<subseteq> set (channel_allocs (channel s))"

definition alloc_inv :: "wal_layout \<Rightarrow> u64 \<Rightarrow> tracker_sys \<Rightarrow> bool" where
  "alloc_inv L p s \<longleftrightarrow>
     alloc_layout (sys_alloc s) = L \<and> alloc_position (sys_alloc s) = chain_end p (allocated s)
   \<and> chained p (allocated s) \<and> list_all (block_ok L) (allocated s)
   \<and> unat (chain_end p (allocated s)) \<le> unat p + 2 * unat (frag_size L) * length (allocated s)"

definition sys_inv :: "wal_layout \<Rightarrow> u64 \<Rightarrow> tracker_sys \<Rightarrow> bool" where
  "sys_inv L p s \<longleftrightarrow> alloc_inv L p s \<and> owners_inv s \<and> thread_inv (thread s)
   \<and> thread_layout (thread s) = L
   \<and> tracker_rep p (allocated s) (delivered s) (tracker_state (thread s))
   \<and> list_all (event_ok L (ts_last_processed (tracker_state (thread s)))) (events s)"

text \<open>The log has room: with \<open>n\<close> allocations so far no 64-bit position has wrapped.\<close>

definition log_fits :: "wal_layout \<Rightarrow> u64 \<Rightarrow> tracker_sys \<Rightarrow> bool" where
  "log_fits L p s \<longleftrightarrow> unat p + 2 * unat (frag_size L) * length (allocated s) \<le> 2 ^ 64"

lemma tracker_step_allocated: "tracker_step s s' \<Longrightarrow> length (allocated s) \<le> length (allocated s')"
  by (induction rule: tracker_step.induct) auto

lemma log_fits_step: "tracker_step s s' \<Longrightarrow> log_fits L p s' \<Longrightarrow> log_fits L p s"
  using tracker_step_allocated [of s s']
  by (auto simp: log_fits_def intro: order.trans [rotated] mult_le_mono2)

lemma sys_inv_init: "sys_inv L p (tracker_init L p)"
  using tracker_rep_new [of p]
  by (auto simp: sys_inv_def tracker_init_def alloc_inv_def owners_inv_def thread_inv_def
      tracker_start_def allocator_new_def external_of_def publish_def tracker_new_empty_def)

lemma step_alloc_inv:
  assumes "layout_ok L" "sys_inv L p s" "0 < unat len" "unat len \<le> unat (frag_size L)"
    and "allocate (sys_alloc s) len = Inr (A, r)"
    and "unat p + 2 * unat (frag_size L) * Suc (length (allocated s)) \<le> 2 ^ 64"
  shows "sys_inv L p (s\<lparr>sys_alloc := A, allocated := allocated s @ [r],
           in_hand := insert r (in_hand s)\<rparr>)"
proof -
  have inv: "alloc_inv L p s" "owners_inv s"
      "tracker_rep p (allocated s) (delivered s) (tracker_state (thread s))"
    using assms(2) by (auto simp: sys_inv_def)
  have fits: "unat (chain_end p (allocated s)) + 2 * unat (frag_size L) \<le> 2 ^ 64"
    using inv(1) assms(6) by (simp add: alloc_inv_def)
  obtain r' where r': "allocate_at L len (chain_end p (allocated s)) = Inr r'"
      "previous_position r' = chain_end p (allocated s)" "block_ok L r'"
      "unat (ar_next_position r') < unat (chain_end p (allocated s)) + 2 * unat (frag_size L)"
    using allocate_at_spec [OF assms(1,3,4) fits] by blast
  have A: "r = r'" "A = (sys_alloc s)\<lparr>alloc_position := ar_next_position r'\<rparr>"
    using assms(5) r'(1) inv(1) by (auto simp: allocate_def alloc_inv_def)
  have ch: "chained p (allocated s @ [r])"
    using inv(1) r' block_ok_chained [OF r'(3)] A by (auto simp: alloc_inv_def chained_append)
  have sub: "delivered s \<subseteq> set (allocated s)" using inv(2) by (auto simp: owners_inv_def)
  have "alloc_inv L p (s\<lparr>sys_alloc := A, allocated := allocated s @ [r],
      in_hand := insert r (in_hand s)\<rparr>)"
    using inv(1) r' A ch by (auto simp: alloc_inv_def)
  moreover have "owners_inv (s\<lparr>sys_alloc := A, allocated := allocated s @ [r],
      in_hand := insert r (in_hand s)\<rparr>)"
    using inv(2) chained_distinct(1) [OF ch] by (auto simp: owners_inv_def)
  ultimately show ?thesis
    using assms(2) tracker_rep_grow [OF inv(3) sub ch] by (simp add: sys_inv_def)
qed

lemma step_recv_inv:
  assumes "sys_inv L p s" "channel s = AllocationMessage r # ms" "r \<notin> held s"
    and "handle_allocation r (thread s) = (th, evs)"
  shows "sys_inv L p (s\<lparr>channel := ms, delivered := insert r (delivered s), thread := th,
           events := events s @ evs\<rparr>)"
    and "shared_last_processed (thread s) \<le> shared_last_processed th"
proof -
  let ?st = "tracker_state (thread s)"
  have inv: "chained p (allocated s)" "list_all (block_ok L) (allocated s)" "owners_inv s"
      "thread_inv (thread s)" "tracker_rep p (allocated s) (delivered s) ?st"
      "thread_layout (thread s) = L" "list_all (event_ok L (ts_last_processed ?st)) (events s)"
    using assms(1) by (auto simp: sys_inv_def alloc_inv_def)
  have r: "r \<in> set (allocated s)" "r \<notin> delivered s"
    using inv(3) assms(2) by (auto simp: owners_inv_def)
  obtain st' adv cs where add: "add_processed ?st r = (st', adv, cs)"
    by (cases "add_processed ?st r")
  note ap = add_processed_rep [OF inv(1) inv(5) r add]
  note h = handle_allocation_inv [OF inv(4) assms(4) add ap(2), of L]
  have hs: "ts_last_processed st' \<le> highest_seen st'"
    using tracker_rep_frontier(1) [OF inv(1) ap(1)] .
  have th: "thread_inv th" "tracker_state th = st'" "thread_layout th = L"
      "shared_last_processed (thread s) \<le> shared_last_processed th"
    using h hs ap(3) inv(6) by auto
  have evs: "event_ok L (ts_last_processed st') e" if "e \<in> set evs" for e
  proof (cases "e \<in> set (concat (map (finalize_callback L) cs))")
    case True
    then obtain q where q: "q \<in> set cs" "e \<in> set (finalize_callback L q)" by auto
    obtain xs zs where x: "allocated s = xs @ cs @ zs" "adv \<noteq> None"
        "ts_last_processed st' = chain_end p (xs @ cs)"
      using ap(3,4) q(1) by (cases "adv = None") auto
    have "ar_next_position q \<le> chain_end p (xs @ cs)"
      using chained_le_end(2) [of p "xs @ cs" q] inv(1) x(1) q(1)
      by (simp add: chained_append)
    moreover have "block_ok L q" using inv(2) x(1) q(1) by (auto simp: list_all_iff)
    ultimately show ?thesis
      using finalize_callback_ok q(2) finalize_callback_MapFinalized [OF q(2)] x(3) by metis
  next
    case False
    then show ?thesis using h hs ap(3) inv(6) that by auto
  qed
  have "list_all (event_ok L (ts_last_processed st')) (events s @ evs)"
    using inv(7) evs ap(2) event_ok_mono by (auto simp: list_all_iff)
  moreover have "owners_inv (s\<lparr>channel := ms, delivered := insert r (delivered s), thread := th,
      events := events s @ evs\<rparr>)"
    using inv(3) assms(2,3) by (auto simp: owners_inv_def)
  ultimately show "sys_inv L p (s\<lparr>channel := ms, delivered := insert r (delivered s), thread := th,
           events := events s @ evs\<rparr>)"
    using assms(1) th ap(1) by (simp add: sys_inv_def alloc_inv_def)
  show "shared_last_processed (thread s) \<le> shared_last_processed th" by (rule th(4))
qed

lemma tracker_step_inv:
  assumes "tracker_step s s'" "layout_ok L" "sys_inv L p s" "log_fits L p s'"
  shows "sys_inv L p s'
    \<and> shared_last_processed (thread s) \<le> shared_last_processed (thread s')"
  using assms
proof (induction rule: tracker_step.induct)
  case (alloc len s A r)
  have "alloc_layout (sys_alloc s) = L"
    using alloc.prems(2) by (simp add: sys_inv_def alloc_inv_def)
  with alloc step_alloc_inv [of L p s len A r] show ?case
    by (simp add: log_fits_def word_le_nat_alt word_less_nat_alt)
next
  case (announce r s)
  then show ?case
    by (auto simp: sys_inv_def alloc_inv_def owners_inv_def)
next
  case (drop_guard r s)
  then show ?case by (auto simp: sys_inv_def alloc_inv_def owners_inv_def)
next
  case (send m s)
  then have "channel_allocs (channel s @ [m]) = channel_allocs (channel s)"
    by (simp add: channel_allocs_other)
  with send show ?case by (simp add: sys_inv_def alloc_inv_def owners_inv_def)
next
  case (recv_allocation s r ms th evs)
  then show ?case using step_recv_inv by simp
next
  case (recv_other s m ms th evs)
  have "thread_inv (thread s)" using recv_other.prems by (simp add: sys_inv_def)
  from handle_other_inv [OF this recv_other(3,2), of L] recv_other
    channel_allocs_other [OF recv_other(2), of ms]
  show ?case by (simp add: sys_inv_def alloc_inv_def owners_inv_def)
qed

lemma tracker_reachable_inv:
  assumes "tracker_step\<^sup>*\<^sup>* (tracker_init L p) s" "layout_ok L" "log_fits L p s"
  shows "sys_inv L p s"
  using assms
proof (induction rule: rtranclp_induct)
  case (step s s')
  then show ?case using tracker_step_inv log_fits_step by blast
qed (simp add: sys_inv_init)

section \<open>Running the system\<close>

text \<open>A deterministic driver for concrete runs; results are named by their order of allocation.\<close>

datatype tracker_action =
  AAlloc u64 | AAnnounce nat | ADrop nat | ASend wal_tracker_message | ARecv

fun perform :: "tracker_action \<Rightarrow> tracker_sys \<Rightarrow> tracker_sys option" where
  "perform (AAlloc len) s =
     (if 0 < len \<and> len \<le> frag_size (alloc_layout (sys_alloc s))
      then (case allocate (sys_alloc s) len of
              Inl _ \<Rightarrow> None
            | Inr (A, r) \<Rightarrow> Some (s\<lparr>sys_alloc := A, allocated := allocated s @ [r],
                                   in_hand := insert r (in_hand s)\<rparr>))
      else None)"
| "perform (AAnnounce i) s =
     (let r = allocated s ! i
      in if r \<in> in_hand s
         then Some (s\<lparr>in_hand := in_hand s - {r}, held := insert r (held s),
                channel := channel s @ [AllocationMessage r]\<rparr>)
         else None)"
| "perform (ADrop i) s =
     (let r = allocated s ! i
      in if r \<in> held s then Some (s\<lparr>held := held s - {r}\<rparr>) else None)"
| "perform (ASend m) s =
     (case m of AllocationMessage _ \<Rightarrow> None | _ \<Rightarrow> Some (s\<lparr>channel := channel s @ [m]\<rparr>))"
| "perform ARecv s =
     (case channel s of
        [] \<Rightarrow> None
      | AllocationMessage r # ms \<Rightarrow>
          (if r \<notin> held s
           then let (th, evs) = handle_allocation r (thread s)
                in Some (s\<lparr>channel := ms, delivered := insert r (delivered s), thread := th,
                           events := events s @ evs\<rparr>)
           else None)
      | m # ms \<Rightarrow>
          let (th, evs) = tracker_handle m (thread s)
          in Some (s\<lparr>channel := ms, thread := th, events := events s @ evs\<rparr>))"

fun perform_all :: "tracker_action list \<Rightarrow> tracker_sys \<Rightarrow> tracker_sys option" where
  "perform_all [] s = Some s"
| "perform_all (a # as) s = (case perform a s of None \<Rightarrow> None | Some s' \<Rightarrow> perform_all as s')"

lemma perform_recv_other:
  "channel s = m # ms \<Longrightarrow> (\<forall>r. m \<noteq> AllocationMessage r) \<Longrightarrow> tracker_handle m (thread s) = (th, evs)
     \<Longrightarrow> perform ARecv s = Some (s\<lparr>channel := ms, thread := th, events := events s @ evs\<rparr>)"
  by (cases m) auto

lemma perform_recv_step: "perform ARecv s = Some s' \<Longrightarrow> tracker_step s s'"
proof (cases "channel s")
  case (Cons m ms)
  assume p: "perform ARecv s = Some s'"
  show ?thesis
  proof (cases "\<exists>r. m = AllocationMessage r")
    case True
    with p Cons show ?thesis
      by (auto split: if_splits prod.splits intro: tracker_step.recv_allocation)
  next
    case False
    then show ?thesis
      using p Cons perform_recv_other [of s m ms] tracker_step.recv_other [of s m ms]
      by (cases "tracker_handle m (thread s)") auto
  qed
qed simp

lemma perform_step: "perform a s = Some s' \<Longrightarrow> tracker_step s s'"
proof (cases a)
  case ARecv
  then show "perform a s = Some s' \<Longrightarrow> ?thesis" using perform_recv_step by blast
qed (auto simp: Let_def intro: tracker_step.intros
    split: if_splits sum.splits wal_tracker_message.splits)

lemma perform_all_steps: "perform_all as s = Some s' \<Longrightarrow> tracker_step\<^sup>*\<^sup>* s s'"
proof (induction as arbitrary: s)
  case (Cons a as)
  then obtain t where "perform a s = Some t" "perform_all as t = Some s'"
    by (auto split: option.splits)
  with Cons.IH show ?case
    by (meson converse_rtranclp_into_rtranclp perform_step)
qed simp

text \<open>Two writes complete in the wrong order while a latch is requested between them; the second
  block starts a fragment.\<close>

definition demo_actions :: "tracker_action list" where
  "demo_actions =
     [AAlloc 1000, AAlloc 100, AAnnounce 1, ADrop 1, ARecv, ASend (LatchRequest 7),
      AAnnounce 0, ADrop 0, ARecv, ARecv]"

definition demo_final :: tracker_sys where
  "demo_final = the (perform_all demo_actions (tracker_init demo_layout 0))"

lemma demo_final_reachable: "tracker_step\<^sup>*\<^sup>* (tracker_init demo_layout 0) demo_final"
proof -
  have "perform_all demo_actions (tracker_init demo_layout 0) \<noteq> None" by code_simp
  then show ?thesis by (intro perform_all_steps) (auto simp: demo_final_def)
qed

lemma demo_final_fits: "log_fits demo_layout 0 demo_final"
proof -
  have "length (allocated demo_final) = 2" by code_simp
  then show ?thesis by (simp add: log_fits_def demo_layout_def)
qed

section \<open>Properties\<close>

text \<open>C2. The tracker's promise: in every interleaving of writers and the tracker thread, a block
  that starts below the published \<open>last_processed\<close> has been delivered and its guard dropped, so
  its index entry is in memory.\<close>

theorem published_frontier_safe:
  assumes "tracker_step\<^sup>*\<^sup>* (tracker_init L p) s" "layout_ok L" "log_fits L p s"
    and "r \<in> set (allocated s)"
    and "is_processed (shared_last_processed (thread s)) (allocated_position r)"
  shows "r \<in> delivered s \<and> r \<notin> held s \<and> r \<notin> in_hand s"
proof -
  have inv: "sys_inv L p s" using tracker_reachable_inv [OF assms(1-3)] .
  have "previous_position r \<le> allocated_position r"
    using inv assms(4) by (auto simp: sys_inv_def alloc_inv_def block_ok_def list_all_iff)
  then have "previous_position r < ts_last_processed (tracker_state (thread s))"
    using assms(5) inv external_of_bounds(1) [of "thread s"]
    by (auto simp: sys_inv_def thread_inv_def is_processed_def)
  then have "r \<in> delivered s"
    using tracker_rep_frontier(2) assms(4) inv by (auto simp: sys_inv_def alloc_inv_def)
  then show ?thesis using inv by (auto simp: sys_inv_def owners_inv_def)
qed

theorem published_frontier_safe_witness:
  "\<exists>s. tracker_step\<^sup>*\<^sup>* (tracker_init demo_layout 0) s \<and> shared_last_processed (thread s) = 1128
     \<and> (allocated s ! 1) \<in> delivered s \<and> (allocated s ! 1) \<notin> held s"
proof -
  have "allocated demo_final ! 1 \<in> set (allocated demo_final)" by code_simp
  moreover have "shared_last_processed (thread demo_final) = 1128" by code_simp
  moreover have "is_processed (shared_last_processed (thread demo_final))
      (allocated_position (allocated demo_final ! 1))"
    by code_simp
  ultimately show ?thesis
    using published_frontier_safe [OF demo_final_reachable demo_layout_ok demo_final_fits]
      demo_final_reachable by blast
qed

text \<open>C6. The published frontier never goes back, and while a latch is active it never passes the
  latch's position.\<close>

theorem published_frontier_monotone:
  assumes "tracker_step\<^sup>*\<^sup>* (tracker_init L p) s" "tracker_step s s'" "layout_ok L" "log_fits L p s'"
  shows "shared_last_processed (thread s) \<le> shared_last_processed (thread s')
    \<and> (\<forall>q i. ((q, i), ()) \<in> set (latches (thread s')) \<longrightarrow> shared_last_processed (thread s') \<le> q)"
proof -
  have "sys_inv L p s" using tracker_reachable_inv assms log_fits_step by blast
  from tracker_step_inv [OF assms(2,3) this assms(4)] show ?thesis
    using external_of_bounds(2) by (auto simp: sys_inv_def thread_inv_def)
qed

theorem published_frontier_monotone_witness:
  "\<exists>s'. tracker_step demo_final s' \<and> shared_last_processed (thread demo_final) = 1128
     \<and> shared_last_processed (thread demo_final) \<le> shared_last_processed (thread s')"
proof -
  let ?s = "the (perform (AAlloc 8) demo_final)"
  have "perform (AAlloc 8) demo_final \<noteq> None" by code_simp
  then have step: "tracker_step demo_final ?s"
    by (intro perform_step [of "AAlloc 8"]) (simp del: perform.simps)
  have "length (allocated ?s) = 3" by code_simp
  then have "log_fits demo_layout 0 ?s" by (simp add: log_fits_def demo_layout_def)
  moreover have "shared_last_processed (thread demo_final) = 1128" by code_simp
  ultimately show ?thesis
    using published_frontier_monotone [OF demo_final_reachable step demo_layout_ok] step by blast
qed



text \<open>C5. Nothing gets stuck: once every obtained block has been announced and received, the
  frontier has reached the end of the log, no completion is left pending, every deferred latch
  and wait request has been answered, and with no latch active the published frontier is the
  allocator's position.\<close>

theorem tracker_quiescent:
  assumes "tracker_step\<^sup>*\<^sup>* (tracker_init L p) s" "layout_ok L" "log_fits L p s"
    and "in_hand s = {}" "channel s = []"
  shows "ts_last_processed (tracker_state (thread s)) = alloc_position (sys_alloc s)
    \<and> pending (tracker_state (thread s)) = [] \<and> pending_requests (thread s) = []
    \<and> pending_waits (thread s) = []
    \<and> (latches (thread s) = [] \<longrightarrow>
         shared_last_processed (thread s) = alloc_position (sys_alloc s))"
proof -
  let ?th = "thread s"
  have inv: "sys_inv L p s" using tracker_reachable_inv [OF assms(1-3)] .
  then have ch: "chained p (allocated s)"
      and rep: "tracker_rep p (allocated s) (delivered s) (tracker_state ?th)"
      and th: "thread_inv ?th" and pos: "alloc_position (sys_alloc s) = chain_end p (allocated s)"
    by (auto simp: sys_inv_def alloc_inv_def)
  have "set (allocated s) = delivered s"
    using inv assms(4,5) by (auto simp: sys_inv_def owners_inv_def)
  note f = tracker_rep_frontier(3) [OF ch rep this]
  have "pending_requests ?th = []" "pending_waits ?th = []"
    using th f unfolding thread_inv_def
    by (cases "pending_requests ?th"; cases "pending_waits ?th"; auto)+
  then show ?thesis
    using f pos th by (auto simp: thread_inv_def external_of_def publish_def)
qed

theorem tracker_quiescent_witness:
  "ts_last_processed (tracker_state (thread demo_final)) = 1128
   \<and> pending_requests (thread demo_final) = []"
proof -
  have "in_hand demo_final = {}" "channel demo_final = []" by code_simp+
  moreover have "alloc_position (sys_alloc demo_final) = 1128" by code_simp
  ultimately show ?thesis
    using tracker_quiescent [OF demo_final_reachable demo_layout_ok demo_final_fits] by simp
qed

end
