(* ===== verification/Wal_Files.thy ===== *)
theory Wal_Files
  imports Wal_Layout Sorted_Map
begin

text \<open>
  \<open>tidehunter/src/wal/files.rs\<close>, and \<open>open_file\<close>, \<open>resize\<close>, \<open>extend_to_map_id\<close>, \<open>covers_map\<close> of
  \<open>tidehunter/src/wal/mod.rs\<close>: the set of log files. A file is its contents; a directory is the
  list of its regular files with readable names, in the order the listing yields them.
\<close>

type_synonym wal_file = bytes
type_synonym directory = "(string \<times> wal_file) list"
type_synonym wal_files = "(wal_file_id, wal_file) smap"

definition resize :: "wal_layout \<Rightarrow> wal_file \<Rightarrow> wal_file" where
  "resize L f =
     (let r = length f mod unat (frag_size L)
      in if r \<noteq> 0 then f @ replicate (unat (frag_size L) - r) 0 else f)"

text \<open>\<open>create(true)\<close>: opening a file that does not exist gives an empty one.\<close>

definition open_file :: "wal_layout \<Rightarrow> wal_file option \<Rightarrow> wal_file" where
  "open_file L f = resize L (case f of None \<Rightarrow> [] | Some f \<Rightarrow> f)"

fun strip_prefix :: "string \<Rightarrow> string \<Rightarrow> string option" where
  "strip_prefix [] s = Some s"
| "strip_prefix (c # p) [] = None"
| "strip_prefix (c # p) (d # s) = (if c = d then strip_prefix p s else None)"

text \<open>\<open>u64::from_str_radix(s, 16)\<close>: an optional \<open>+\<close>, then at least one hexadecimal digit of
  either case, within 64 bits.\<close>

definition hex_value :: "char \<Rightarrow> nat option" where
  "hex_value c =
     (let n = of_char c :: nat
      in if 48 \<le> n \<and> n \<le> 57 then Some (n - 48)
         else if 97 \<le> n \<and> n \<le> 102 then Some (n - 87)
         else if 65 \<le> n \<and> n \<le> 70 then Some (n - 55)
         else None)"

fun parse_hex :: "nat \<Rightarrow> string \<Rightarrow> nat option" where
  "parse_hex acc [] = Some acc"
| "parse_hex acc (c # s) =
     (case hex_value c of
        None \<Rightarrow> None
      | Some d \<Rightarrow> if acc * 16 + d < 2 ^ 64 then parse_hex (acc * 16 + d) s else None)"

definition from_str_radix_16 :: "string \<Rightarrow> u64 option" where
  "from_str_radix_16 s =
     (let s = (case s of [] \<Rightarrow> [] | c # s' \<Rightarrow> if c = CHR ''+'' then s' else c # s')
      in if s = [] then None else map_option of_nat (parse_hex 0 s))"

fun load_entries :: "wal_layout \<Rightarrow> directory \<Rightarrow> wal_files \<Rightarrow> wal_files res" where
  "load_entries L [] files = Inr files"
| "load_entries L ((name, f) # es) files =
     (case strip_prefix (wal_kind_name (kind L)) name of
        None \<Rightarrow> load_entries L es files
      | Some id_str \<Rightarrow>
          (case strip_prefix ''_'' id_str of
             None \<Rightarrow> Inl ExplicitPanic
           | Some id_str \<Rightarrow>
               (case from_str_radix_16 id_str of
                  None \<Rightarrow> Inl ExplicitPanic
                | Some i \<Rightarrow> load_entries L es (sm_insert i (open_file L (Some f)) files))))"

definition load :: "wal_layout \<Rightarrow> directory \<Rightarrow> wal_files res" where
  "load L dir =
     bindr (load_entries L dir []) (\<lambda>files.
       if files = [] then Inr (sm_insert 0 (open_file L None) files) else Inr files)"

definition min_file_id :: "wal_files \<Rightarrow> wal_file_id res" where
  "min_file_id files = expectr (map_option fst (first_of files))"

definition current_file_id :: "wal_files \<Rightarrow> wal_file_id res" where
  "current_file_id files = expectr (map_option fst (last_of files))"

definition current_file :: "wal_files \<Rightarrow> wal_file res" where
  "current_file files = expectr (map_option snd (last_of files))"

definition get_checked :: "wal_files \<Rightarrow> wal_file_id \<Rightarrow> wal_file option" where
  "get_checked files i = map_of files i"

definition get_file :: "wal_files \<Rightarrow> wal_file_id \<Rightarrow> wal_file res" where
  "get_file files i = (case get_checked files i of None \<Rightarrow> Inl ExplicitPanic | Some f \<Rightarrow> Inr f)"

fun without_files :: "wal_files \<Rightarrow> wal_file_id list \<Rightarrow> wal_files \<times> (wal_file_id \<times> wal_file) list" where
  "without_files files [] = (files, [])"
| "without_files files (i # ids) =
     (case map_of files i of
        None \<Rightarrow> without_files files ids
      | Some f \<Rightarrow> let (files', removed) = without_files (sm_remove i files) ids
                  in (files', (i, f) # removed))"

definition with_file :: "wal_files \<Rightarrow> wal_file_id \<Rightarrow> wal_file \<Rightarrow> wal_files res" where
  "with_file files i f = assertr (map_of files i = None) (Inr (sm_insert i f files))"

definition map_end_in_file :: "wal_layout \<Rightarrow> map_id \<Rightarrow> u64" where
  "map_end_in_file L m =
     (let e = offset_in_wal_file L (snd (map_range L m))
      in if e = 0 then wal_file_size L else e)"

definition extend_to_map_id :: "wal_layout \<Rightarrow> wal_file \<Rightarrow> map_id \<Rightarrow> wal_file" where
  "extend_to_map_id L f m =
     (let e = unat (map_end_in_file L m)
      in if length f < e then f @ replicate (e - length f) 0 else f)"

definition covers_map :: "wal_layout \<Rightarrow> wal_file \<Rightarrow> map_id \<Rightarrow> bool" where
  "covers_map L f m \<longleftrightarrow> unat (map_end_in_file L m) \<le> length f"

section \<open>File names\<close>

lemma hex_value_digit: "d < 16 \<Longrightarrow> hex_value (hex_digit d) = Some d"
proof -
  have "\<forall>d \<in> set [0..<16]. hex_value (hex_digit d) = Some d" by code_simp
  then show "d < 16 \<Longrightarrow> hex_value (hex_digit d) = Some d" by auto
qed

lemma parse_hex_append:
  "parse_hex acc (s @ t) = (case parse_hex acc s of None \<Rightarrow> None | Some a \<Rightarrow> parse_hex a t)"
  by (induction s arbitrary: acc) (auto split: option.splits)

lemma parse_hex_digits: "n < 16 ^ k \<Longrightarrow> n < 2 ^ 64 \<Longrightarrow> parse_hex 0 (hex_digits k n) = Some n"
proof (induction k arbitrary: n)
  case (Suc k)
  have "n div 16 < 16 ^ k" using Suc.prems(1) by (simp add: less_mult_imp_div_less mult.commute)
  moreover have "n div 16 < 2 ^ 64" using Suc.prems(2) by (rule le_less_trans [OF div_le_dividend])
  ultimately have "parse_hex 0 (hex_digits k (n div 16)) = Some (n div 16)" using Suc.IH by blast
  moreover have "n div 16 * 16 + n mod 16 = n" by simp
  ultimately show ?case
    using Suc.prems(2) by (simp add: parse_hex_append hex_value_digit)
qed simp

lemma length_hex_digits [simp]: "length (hex_digits k n) = k"
  by (induction k arbitrary: n) auto

lemma hex_digit_not_plus: "d < 16 \<Longrightarrow> hex_digit d \<noteq> CHR ''+''"
  using hex_value_digit [of d] by (auto simp: hex_value_def)

lemma set_hex_digits: "c \<in> set (hex_digits k n) \<Longrightarrow> c \<noteq> CHR ''+''"
  by (induction k arbitrary: n) (auto, metis hex_digit_not_plus mod_less_divisor zero_less_numeral)

lemma from_str_radix_hex_digits: "from_str_radix_16 (hex_digits 16 (unat f)) = Some f"
proof (cases "hex_digits 16 (unat f)")
  case Nil
  then have "length (hex_digits 16 (unat f)) = 0" by simp
  then show ?thesis by simp
next
  case (Cons c s)
  have "c \<noteq> CHR ''+''"
    using set_hex_digits [of c 16 "unat f"] Cons by simp
  moreover have "parse_hex 0 (hex_digits 16 (unat f)) = Some (unat f)"
    using unat_lt [of f] by (intro parse_hex_digits) (simp_all del: hex_digits.simps)
  ultimately show ?thesis
    unfolding from_str_radix_16_def Let_def by (simp add: Cons)
qed

lemma strip_prefix_append [simp]: "strip_prefix p (p @ s) = Some s"
  by (induction p) auto

lemma load_entry_named:
  "load_entries L ((wal_file_name L i, f) # es) files =
     load_entries L es (sm_insert i (open_file L (Some f)) files)"
  using from_str_radix_hex_digits [of i] by (simp add: wal_file_name_def)

section \<open>Lengths\<close>

lemma resize_multiple:
  assumes "0 < unat (frag_size L)"
  shows "unat (frag_size L) dvd length (resize L f)" "take (length f) (resize L f) = f"
proof -
  let ?F = "unat (frag_size L)"
  show "take (length f) (resize L f) = f" by (simp add: resize_def Let_def)
  have "length f + (?F - length f mod ?F) = length f div ?F * ?F + ?F"
    using mod_less_divisor [OF assms, of "length f"] div_mult_mod_eq [of "length f" ?F] by linarith
  then have "?F dvd length f + (?F - length f mod ?F)" by simp
  then show "?F dvd length (resize L f)"
    by (simp add: resize_def Let_def dvd_eq_mod_eq_0)
qed

lemma without_files_spec:
  assumes "sm_wf files" "without_files files ids = (files', removed)"
  shows "sm_wf files'" "map_of files' = (\<lambda>i. if i \<in> set ids then None else map_of files i)"
    "set (map fst removed) = dom (map_of files) \<inter> set ids"
proof -
  have "sm_wf files' \<and> map_of files' = (\<lambda>i. if i \<in> set ids then None else map_of files i)
    \<and> set (map fst removed) = dom (map_of files) \<inter> set ids"
    using assms
  proof (induction files ids arbitrary: files' removed rule: without_files.induct)
    case (2 files i ids)
    show ?case
    proof (cases "map_of files i")
      case None
      with 2 have "sm_wf files' \<and> map_of files' = (\<lambda>j. if j \<in> set ids then None else map_of files j)
          \<and> set (map fst removed) = dom (map_of files) \<inter> set ids"
        by simp
      with None show ?thesis by (auto simp: fun_eq_iff)
    next
      case (Some f)
      then obtain rest where r: "without_files (sm_remove i files) ids = (files', rest)"
          "removed = (i, f) # rest"
        using 2(4) by (auto split: prod.splits)
      have "sm_wf files' \<and> map_of files' = (\<lambda>j. if j \<in> set ids then None
            else map_of (sm_remove i files) j)
          \<and> set (map fst rest) = dom (map_of (sm_remove i files)) \<inter> set ids"
        using 2(2) [OF Some _ r(1)] 2(3) by (simp add: sm_wf_remove)
      with Some r(2) show ?thesis by (auto simp: map_of_sm_remove fun_eq_iff)
    qed
  qed simp
  then show "sm_wf files'" "map_of files' = (\<lambda>i. if i \<in> set ids then None else map_of files i)"
    "set (map fst removed) = dom (map_of files) \<inter> set ids"
    by blast+
qed

end
