(* ===== verification/Wal_Mapper.thy ===== *)
theory Wal_Mapper
  imports Wal_Files
begin

text \<open>
  \<open>tidehunter/src/wal/mapper.rs\<close>: the bounded set of mapped fragments (\<open>WalMaps\<close>) and the mapper
  thread that maps ahead of the writer, retires finalized fragments and deletes files. A map is
  its identifier and flags; its bytes are those of its file (\<open>Wal_Log\<close>). What the thread hands
  to the syncer and to the unlink worker are events.
\<close>

record wal_map =
  wm_id :: map_id
  writeable :: bool
  populated :: bool

type_synonym wal_maps = "(map_id, wal_map) smap"

definition INITIAL_MAPS_BUFFER :: usize where "INITIAL_MAPS_BUFFER = 2"

definition create_map_impl :: "map_id \<Rightarrow> bool \<Rightarrow> bool \<Rightarrow> wal_map" where
  "create_map_impl m populate w = \<lparr>wm_id = m, writeable = w, populated = populate\<rparr>"

definition create_map :: "map_id \<Rightarrow> wal_map" where
  "create_map m = create_map_impl m True True"

definition maps_map :: "wal_layout \<Rightarrow> map_id \<Rightarrow> wal_maps \<Rightarrow> (wal_map \<times> wal_maps) res" where
  "maps_map L m maps =
     assertr (map_of maps m = None)
     (let maps = sm_insert m (create_map m) maps;
          maps = (if max_maps L < length maps then tl maps else maps)
      in bindr (expectr (map_of maps m)) (\<lambda>r. Inr (r, maps)))"

definition map_readonly :: "wal_layout \<Rightarrow> map_id \<Rightarrow> wal_maps \<Rightarrow> wal_maps res" where
  "map_readonly L m maps =
     assertr (length maps < max_maps L)
     (assertr (map_of maps m = None) (Inr (sm_insert m (create_map_impl m False False) maps)))"

record wal_mapper_thread =
  mt_maps :: wal_maps
  maps_arc :: wal_maps
  mt_files :: wal_files
  mt_layout :: wal_layout
  mt_map_id :: map_id

datatype mapper_message =
  MapFinalizedMsg map_id | MinWalPositionUpdated u64 | DeleteFiles "wal_file_id list"

datatype mapper_event = SyncMap map_id u64 | Unlink wal_file_id

definition publish_maps :: "wal_mapper_thread \<Rightarrow> wal_mapper_thread" where
  "publish_maps th = th\<lparr>maps_arc := mt_maps th\<rparr>"

definition mapper_make_map :: "map_id \<Rightarrow> wal_mapper_thread \<Rightarrow> wal_mapper_thread res" where
  "mapper_make_map m th =
     (let L = mt_layout th; file_id = file_for_map L m; files = mt_files th
      in bindr (current_file_id files) (\<lambda>cur.
         bindr (if cur < file_id
                then assertr (file_id = cur + 1) (with_file files file_id (open_file L None))
                else Inr files) (\<lambda>files.
         bindr (get_file files file_id) (\<lambda>f.
         bindr (maps_map L m (mt_maps th)) (\<lambda>(_, maps).
           Inr (publish_maps (th\<lparr>mt_files := sm_insert file_id (extend_to_map_id L f m) files,
                                 mt_maps := maps\<rparr>)))))))"

text \<open>\<open>delete_files\<close>: the maps that are dropped, then the files no remaining map is over.\<close>

definition drop_dead_maps :: "wal_file_id list \<Rightarrow> wal_mapper_thread \<Rightarrow> wal_mapper_thread" where
  "drop_dead_maps deleting th =
     (let maps = sm_retain (\<lambda>m w. writeable w \<or> file_for_map (mt_layout th) m \<notin> set deleting)
                   (mt_maps th);
          th' = th\<lparr>mt_maps := maps\<rparr>
      in if length maps \<noteq> length (mt_maps th) then publish_maps th' else th')"

definition delete_files :: "wal_file_id list \<Rightarrow> wal_mapper_thread
    \<Rightarrow> wal_mapper_thread \<times> mapper_event list" where
  "delete_files to_delete th =
     (let th' = drop_dead_maps to_delete th;
          mapped_files = map (\<lambda>e. file_for_map (mt_layout th) (fst e)) (mt_maps th');
          actual = filter (\<lambda>i. i \<notin> set mapped_files \<and> map_of (mt_files th) i \<noteq> None) to_delete
      in if actual = [] then (th', [])
         else
           let actual = remdups (sort actual);
               (new_files, removed_files) = without_files (mt_files th) actual
           in (th'\<lparr>mt_files := new_files\<rparr>, map (\<lambda>e. Unlink (fst e)) removed_files))"

definition min_wal_position_updated :: "u64 \<Rightarrow> wal_mapper_thread
    \<Rightarrow> wal_mapper_thread \<times> mapper_event list" where
  "min_wal_position_updated watermark th =
     (let to_delete = takeWhile (\<lambda>i. \<not> watermark < snd (wal_file_range (mt_layout th) i))
                        (map fst (mt_files th))
      in if to_delete \<noteq> [] then delete_files to_delete th else (th, []))"

definition mapper_finalized :: "map_id \<Rightarrow> wal_mapper_thread
    \<Rightarrow> (wal_mapper_thread \<times> mapper_event list) res" where
  "mapper_finalized m th =
     (case map_of (mt_maps th) m of
        None \<Rightarrow> Inr (th, [])
      | Some w \<Rightarrow>
          if \<not> writeable w then Inr (th, [])
          else
            let th = th\<lparr>mt_maps := sm_insert m (w\<lparr>writeable := False\<rparr>) (mt_maps th)\<rparr>;
                next_id = next_map (mt_map_id th);
                th = th\<lparr>mt_map_id := next_id\<rparr>
            in bindr (mapper_make_map next_id th) (\<lambda>th.
                 Inr (th, [SyncMap m (snd (map_range (mt_layout th) m))])))"

fun mapper_handle :: "mapper_message \<Rightarrow> wal_mapper_thread
    \<Rightarrow> (wal_mapper_thread \<times> mapper_event list) res" where
  "mapper_handle (MapFinalizedMsg m) th = mapper_finalized m th"
| "mapper_handle (MinWalPositionUpdated watermark) th = Inr (min_wal_position_updated watermark th)"
| "mapper_handle (DeleteFiles ids) th = Inr (delete_files ids th)"

fun make_ahead :: "nat \<Rightarrow> wal_mapper_thread \<Rightarrow> wal_mapper_thread res" where
  "make_ahead 0 th = Inr th"
| "make_ahead (Suc n) th =
     (let next_id = next_map (mt_map_id th)
      in bindr (mapper_make_map next_id (th\<lparr>mt_map_id := next_id\<rparr>)) (make_ahead n))"

definition mapper_start :: "wal_layout \<Rightarrow> wal_files \<Rightarrow> wal_maps \<Rightarrow> wal_mapper_thread res" where
  "mapper_start L files maps =
     assertr (maps \<noteq> [])
     (if max_maps L < INITIAL_MAPS_BUFFER + 1 then Inl ExplicitPanic
      else
        bindr (expectr (map_option fst (last_of maps))) (\<lambda>m.
          make_ahead INITIAL_MAPS_BUFFER
            \<lparr>mt_maps = maps, maps_arc = maps, mt_files = files, mt_layout = L, mt_map_id = m\<rparr>))"

section \<open>The invariant of the mapper\<close>

text \<open>At most \<open>max_maps\<close> maps, filed under their identifiers, every one over a file that still
  exists; readers see the thread's own set.\<close>

definition mapper_inv :: "wal_mapper_thread \<Rightarrow> bool" where
  "mapper_inv th \<longleftrightarrow>
     sm_wf (mt_maps th) \<and> sm_wf (mt_files th) \<and> length (mt_maps th) \<le> max_maps (mt_layout th)
   \<and> (\<forall>m w. map_of (mt_maps th) m = Some w \<longrightarrow> wm_id w = m
        \<and> file_for_map (mt_layout th) m \<in> dom (map_of (mt_files th)))
   \<and> maps_arc th = mt_maps th"

lemma length_sm_insert_new: "map_of m k = None \<Longrightarrow> length (sm_insert k v m) = Suc (length m)"
  by (induction m) (auto split: if_splits)

lemma length_sm_insert_old:
  "sm_wf m \<Longrightarrow> map_of m k \<noteq> None \<Longrightarrow> length (sm_insert k v m) = length m"
proof (induction m)
  case (Cons e m)
  obtain k' v' where e: "e = (k', v')" by (cases e)
  show ?case
  proof (cases "k < k'")
    case True
    then have "map_of (e # m) k = None"
      using Cons.prems(1) e by (intro map_of_lt_None) auto
    with Cons.prems(2) show ?thesis by simp
  next
    case False
    with Cons e show ?thesis by (auto split: if_splits)
  qed
qed simp

lemma sm_wf_tl: "sm_wf m \<Longrightarrow> sm_wf (tl m)"
  by (cases m) (auto simp: sm_wf_def)

lemma map_of_tl: "sm_wf m \<Longrightarrow> map_of (tl m) k = Some v \<Longrightarrow> map_of m k = Some v"
proof (cases m)
  case (Cons e m')
  assume "sm_wf m" "map_of (tl m) k = Some v"
  with Cons have "map_of m' k = Some v" "k \<noteq> fst e"
    by (cases e; force dest: map_of_SomeD)+
  with Cons show ?thesis by simp
qed simp

lemma maps_map_inv:
  assumes "maps_map L m maps = Inr (w, maps')" "sm_wf maps" "length maps \<le> max_maps L"
  shows "sm_wf maps'" "length maps' \<le> max_maps L" "map_of maps' m = Some (create_map m)"
    "w = create_map m" "map_of maps' k = Some v \<Longrightarrow> k = m \<and> v = create_map m \<or> map_of maps k = Some v"
proof -
  let ?ms = "sm_insert m (create_map m) maps"
  have wf: "sm_wf ?ms" using assms(2) by (rule sm_wf_insert)
  have new: "map_of maps m = None" using assms(1) by (simp add: maps_map_def assertr_def split: if_splits)
  have ms': "maps' = (if max_maps L < length ?ms then tl ?ms else ?ms)" "map_of maps' m = Some w"
    using assms(1) new by (auto simp: maps_map_def Let_def expectr_def split: if_splits option.splits)
  show "sm_wf maps'" using ms'(1) wf by (simp add: sm_wf_tl)
  show "length maps' \<le> max_maps L"
    using ms'(1) assms(3) length_sm_insert_new [OF new] by auto
  have sub: "map_of ?ms k = Some v" if "map_of maps' k = Some v" for k v
    using ms'(1) that map_of_tl [OF wf] by (auto split: if_splits)
  show "w = create_map m" using sub [OF ms'(2)] by (simp add: map_of_sm_insert)
  then show "map_of maps' m = Some (create_map m)" using ms'(2) by simp
  show "map_of maps' k = Some v \<Longrightarrow> k = m \<and> v = create_map m \<or> map_of maps k = Some v"
    using sub [of k v] by (auto simp: map_of_sm_insert split: if_splits)
qed

lemma mapper_make_map_inv:
  assumes "mapper_inv (th\<lparr>maps_arc := mt_maps th\<rparr>)" "mapper_make_map m th = Inr th'"
  shows "mapper_inv th'" "mt_layout th' = mt_layout th" "mt_map_id th' = mt_map_id th"
    "map_of (mt_maps th') m = Some (create_map m)"
proof -
  let ?L = "mt_layout th"
  obtain cur files f w maps where s:
    "current_file_id (mt_files th) = Inr cur"
    "(if cur < file_for_map ?L m then assertr (file_for_map ?L m = cur + 1)
        (with_file (mt_files th) (file_for_map ?L m) (open_file ?L None)) else Inr (mt_files th))
      = Inr files"
    "get_file files (file_for_map ?L m) = Inr f" "maps_map ?L m (mt_maps th) = Inr (w, maps)"
    "th' = publish_maps (th\<lparr>mt_files := sm_insert (file_for_map ?L m)
        (extend_to_map_id ?L f m) files, mt_maps := maps\<rparr>)"
    using assms(2) by (auto simp: mapper_make_map_def Let_def bindr_Inr_iff)
  have inv: "sm_wf (mt_maps th)" "sm_wf (mt_files th)" "length (mt_maps th) \<le> max_maps ?L"
      "\<And>m w. map_of (mt_maps th) m = Some w \<Longrightarrow> wm_id w = m
         \<and> file_for_map ?L m \<in> dom (map_of (mt_files th))"
    using assms(1) by (auto simp: mapper_inv_def)
  have files: "sm_wf files" "dom (map_of (mt_files th)) \<subseteq> dom (map_of files)"
    using s(2) inv(2) by (auto simp: assertr_Inr_iff with_file_def sm_wf_insert map_of_sm_insert
        split: if_splits)
  note mm = maps_map_inv [OF s(4) inv(1,3)]
  have keys: "wm_id v = k \<and> file_for_map ?L k \<in> insert (file_for_map ?L m) (dom (map_of files))"
    if "map_of maps k = Some v" for k v
    using mm(5) [OF that] inv(4) [of k v] files(2)
    by (auto simp: create_map_def create_map_impl_def)
  show "mapper_inv th'"
    using mm(1,2) files(1) keys unfolding mapper_inv_def s(5)
    by (auto simp: publish_maps_def sm_wf_insert map_of_sm_insert dom_def)
  show "mt_layout th' = mt_layout th" "mt_map_id th' = mt_map_id th"
    "map_of (mt_maps th') m = Some (create_map m)"
    using s(5) mm(3) by (simp_all add: publish_maps_def)
qed

section \<open>Deleting files\<close>

definition has_writeable_map :: "wal_mapper_thread \<Rightarrow> wal_file_id \<Rightarrow> bool" where
  "has_writeable_map th i \<longleftrightarrow>
     list_ex (\<lambda>e. writeable (snd e) \<and> file_for_map (mt_layout th) (fst e) = i) (mt_maps th)"

lemma retained_files:
  assumes "i \<in> set ids"
  shows "i \<in> (\<lambda>e. file_for_map L (fst e)) `
      set (sm_retain (\<lambda>m w. writeable w \<or> file_for_map L m \<notin> set ids) maps)
    \<longleftrightarrow> list_ex (\<lambda>e. writeable (snd e) \<and> file_for_map L (fst e) = i) maps"
  using assms by (force simp: sm_retain_def list_ex_iff)

lemma retain_same_length: "length (sm_retain p m) = length m \<Longrightarrow> sm_retain p m = m"
  unfolding sm_retain_def by (metis filter_True length_filter_less less_irrefl)

lemma delete_files_effect:
  assumes "mapper_inv th" "delete_files ids th = (th', evs)"
  shows "mt_layout th' = mt_layout th" "mt_map_id th' = mt_map_id th"
    "mt_maps th' = sm_retain (\<lambda>m w. writeable w \<or> file_for_map (mt_layout th) m \<notin> set ids) (mt_maps th)"
    "maps_arc th' = mt_maps th'" "sm_wf (mt_files th')"
    "map_of (mt_files th') = (\<lambda>i. if i \<in> set ids \<and> \<not> has_writeable_map th i then None
                                   else map_of (mt_files th) i)"
    "set evs = Unlink ` {i \<in> set ids. \<not> has_writeable_map th i \<and> map_of (mt_files th) i \<noteq> None}"
proof -
  let ?L = "mt_layout th"
  let ?maps = "sm_retain (\<lambda>m w. writeable w \<or> file_for_map ?L m \<notin> set ids) (mt_maps th)"
  let ?th = "drop_dead_maps ids th"
  let ?actual = "filter (\<lambda>i. i \<notin> set (map (\<lambda>e. file_for_map ?L (fst e)) (mt_maps ?th))
      \<and> map_of (mt_files th) i \<noteq> None) ids"
  have wf: "sm_wf (mt_files th)" and arc: "maps_arc th = mt_maps th"
    using assms(1) by (auto simp: mapper_inv_def)
  have th: "mt_maps ?th = ?maps" "mt_layout ?th = ?L" "mt_map_id ?th = mt_map_id th"
      "mt_files ?th = mt_files th"
    by (simp_all add: drop_dead_maps_def Let_def publish_maps_def)
  have arc': "maps_arc ?th = ?maps"
    using arc retain_same_length [of "\<lambda>m w. writeable w \<or> file_for_map ?L m \<notin> set ids" "mt_maps th"]
    by (cases "length ?maps = length (mt_maps th)")
      (simp_all add: drop_dead_maps_def Let_def publish_maps_def)
  obtain nf rf where nf: "without_files (mt_files th) (remdups (sort ?actual)) = (nf, rf)"
    by (cases "without_files (mt_files th) (remdups (sort ?actual))")
  note w = without_files_spec [OF wf nf]
  have act: "set ?actual = {i \<in> set ids. \<not> has_writeable_map th i \<and> map_of (mt_files th) i \<noteq> None}"
  proof -
    have "i \<notin> set (map (\<lambda>e. file_for_map ?L (fst e)) (mt_maps ?th)) \<longleftrightarrow> \<not> has_writeable_map th i"
      if "i \<in> set ids" for i
      unfolding th(1) set_map has_writeable_map_def using retained_files [OF that] by simp
    then show ?thesis unfolding set_filter by blast
  qed
  have del: "th' = (if ?actual = [] then ?th else ?th\<lparr>mt_files := nf\<rparr>)"
    and evs: "evs = (if ?actual = [] then [] else map (\<lambda>e. Unlink (fst e)) rf)"
    using assms(2) unfolding delete_files_def Let_def nf
    by (simp_all only: case_prod_conv split: if_splits) (simp_all only: prod.inject simp_thms)
  show "mt_layout th' = mt_layout th" "mt_map_id th' = mt_map_id th" "mt_maps th' = ?maps"
      "maps_arc th' = mt_maps th'"
    using del th arc' by simp_all
  have files: "mt_files th' = (if ?actual = [] then mt_files th else nf)"
    using del th arc' by simp_all
  show "sm_wf (mt_files th')" using files wf w(1) by simp
  show "map_of (mt_files th') = (\<lambda>i. if i \<in> set ids \<and> \<not> has_writeable_map th i then None
                                   else map_of (mt_files th) i)"
  proof
    fix i
    have "map_of (mt_files th') i = (if i \<in> set ?actual then None else map_of (mt_files th) i)"
      using files w(2) by (cases "?actual = []") auto
    then show "map_of (mt_files th') i = (if i \<in> set ids \<and> \<not> has_writeable_map th i then None
                                   else map_of (mt_files th) i)"
      unfolding act by auto
  qed
  have "set evs = Unlink ` set ?actual"
  proof (cases "?actual = []")
    case False
    have "fst ` set rf = set ?actual" using w(3) act by auto
    then have "Unlink ` fst ` set rf = Unlink ` set ?actual" by (rule arg_cong)
    then show ?thesis using False unfolding evs by (simp only: if_False set_map image_image)
  qed (simp add: evs)
  then show "set evs = Unlink ` {i \<in> set ids. \<not> has_writeable_map th i \<and> map_of (mt_files th) i \<noteq> None}"
    unfolding act .
qed

lemma delete_files_inv:
  assumes "mapper_inv th" "delete_files ids th = (th', evs)"
  shows "mapper_inv th'"
proof -
  note d = delete_files_effect [OF assms]
  have inv: "sm_wf (mt_maps th)" "length (mt_maps th) \<le> max_maps (mt_layout th)"
      "\<And>m w. map_of (mt_maps th) m = Some w \<Longrightarrow> wm_id w = m
         \<and> file_for_map (mt_layout th) m \<in> dom (map_of (mt_files th))"
    using assms(1) by (auto simp: mapper_inv_def)
  have "wm_id w = m \<and> file_for_map (mt_layout th') m \<in> dom (map_of (mt_files th'))"
    if "map_of (mt_maps th') m = Some w" for m w
  proof -
    let ?i = "file_for_map (mt_layout th) m"
    have old: "map_of (mt_maps th) m = Some w" "writeable w \<or> ?i \<notin> set ids"
      using that d(3) map_of_sm_retain [OF inv(1)] by (auto split: option.splits if_splits)
    then have "writeable w \<Longrightarrow> has_writeable_map th ?i"
      by (force simp: has_writeable_map_def list_ex_iff dest: map_of_SomeD)
    with old inv(3) [OF old(1)] show ?thesis by (auto simp: d(1,6))
  qed
  moreover have "length (mt_maps th') \<le> length (mt_maps th)" by (simp add: d(3) sm_retain_def)
  moreover have "sm_wf (mt_maps th')" using inv(1) by (simp add: d(3) sm_retain_def sm_wf_filter)
  ultimately show ?thesis
    using d(1,4,5) inv(2) unfolding mapper_inv_def by auto
qed

lemma mapper_finalized_inv:
  assumes "mapper_inv th" "mapper_finalized m th = Inr (th', evs)"
  shows "mapper_inv th' \<and> (\<forall>i. Unlink i \<notin> set evs)"
proof (cases "map_of (mt_maps th) m")
  case None
  with assms show ?thesis by (simp add: mapper_finalized_def)
next
  case (Some w)
  show ?thesis
  proof (cases "writeable w")
    case True
    let ?th = "th\<lparr>mt_maps := sm_insert m (w\<lparr>writeable := False\<rparr>) (mt_maps th),
        mt_map_id := next_map (mt_map_id th)\<rparr>"
    have "mapper_inv (?th\<lparr>maps_arc := mt_maps ?th\<rparr>)"
      using assms(1) Some length_sm_insert_old [of "mt_maps th" m]
      by (auto simp: mapper_inv_def sm_wf_insert map_of_sm_insert split: if_splits)
    then have "mapper_inv th''" if "mapper_make_map (next_map (mt_map_id th)) ?th = Inr th''" for th''
      using mapper_make_map_inv(1) that by blast
    then show ?thesis
      using assms(2) Some True by (auto simp: mapper_finalized_def Let_def bindr_Inr_iff)
  qed (use assms Some in \<open>simp add: mapper_finalized_def\<close>)
qed

lemma min_wal_position_below:
  assumes "i \<in> set (takeWhile (\<lambda>i. \<not> watermark < snd (wal_file_range L i)) ids)"
  shows "snd (wal_file_range L i) \<le> watermark"
  using assms by (auto dest: set_takeWhileD)

section \<open>Properties\<close>

text \<open>C8. The mapper never leaves a reader a map over a deleted file, and never holds more maps
  than \<open>max_maps\<close>: every message keeps the invariant, and a file is handed to the unlinker only
  when no map over it remains and none over it was writeable.\<close>

theorem mapper_maps_stay_live:
  assumes "mapper_inv th" "mapper_handle msg th = Inr (th', evs)"
  shows "mapper_inv th' \<and> (\<forall>i. Unlink i \<in> set evs \<longrightarrow>
           \<not> has_writeable_map th i \<and> map_of (mt_files th') i = None
         \<and> (\<forall>m w. map_of (mt_maps th') m = Some w \<longrightarrow> file_for_map (mt_layout th') m \<noteq> i))"
proof (cases "\<exists>m. msg = MapFinalizedMsg m")
  case True
  with assms mapper_finalized_inv show ?thesis by fastforce
next
  case False
  then obtain ids where d: "delete_files ids th = (th', evs) \<or> th' = th \<and> evs = []"
    using assms(2) by (cases msg) (auto simp: min_wal_position_updated_def Let_def split: if_splits)
  then show ?thesis
  proof
    assume d: "delete_files ids th = (th', evs)"
    have inv: "mapper_inv th'" using delete_files_inv [OF assms(1) d] .
    moreover have "\<not> has_writeable_map th i \<and> map_of (mt_files th') i = None" if "Unlink i \<in> set evs" for i
      using that unfolding delete_files_effect(6,7) [OF assms(1) d] by auto
    ultimately show ?thesis by (fastforce simp: mapper_inv_def)
  qed (use assms in simp)
qed

definition demo_mapper :: wal_mapper_thread where
  "demo_mapper = \<lparr>mt_maps = [(0, create_map_impl 0 True False), (4, create_map 4)],
     maps_arc = [(0, create_map_impl 0 True False), (4, create_map 4)],
     mt_files = [(0, []), (1, [])], mt_layout = demo_layout\<lparr>max_maps := 3\<rparr>, mt_map_id = 4\<rparr>"

theorem mapper_maps_stay_live_witness:
  "\<exists>th'. mapper_handle (DeleteFiles [1, 0]) demo_mapper = Inr (th', [Unlink 0])
     \<and> mapper_inv th' \<and> map_of (mt_files th') 0 = None \<and> map_of (mt_files th') 1 \<noteq> None"
proof -
  let ?r = "delete_files [1, 0] demo_mapper"
  have wf: "sm_wf (mt_maps demo_mapper)" "sm_wf (mt_files demo_mapper)"
      "length (mt_maps demo_mapper) \<le> max_maps (mt_layout demo_mapper)"
      "maps_arc demo_mapper = mt_maps demo_mapper"
    by code_simp+
  have "file_for_map (mt_layout demo_mapper) 0 = 0" "file_for_map (mt_layout demo_mapper) 4 = 1"
    by code_simp+
  then have inv: "mapper_inv demo_mapper"
    using wf by (auto simp: mapper_inv_def demo_mapper_def create_map_def create_map_impl_def
        split: if_splits)
  have r: "snd ?r = [Unlink 0]" "map_of (mt_files (fst ?r)) 1 \<noteq> None" by code_simp+
  have h: "mapper_handle (DeleteFiles [1, 0]) demo_mapper = Inr (fst ?r, [Unlink 0])"
    using r(1) by (simp flip: r(1))
  from mapper_maps_stay_live [OF inv h] r(2) h show ?thesis by auto
qed

end
