(* ===== verification/Wal_Log.thy ===== *)
theory Wal_Log
  imports Wal_Mapper Wal_Allocator Crc_Frame
begin

text \<open>
  \<open>tidehunter/src/wal/mod.rs\<close>: the writer (\<open>multi_write\<close> and the skip marker), the iterator, and
  the readers of single frames. The bytes of a map are the bytes of its file at the fragment's
  range, so a write through a map and a read through the file see one memory; \<open>byte_at\<close> reads
  that memory at an absolute log position, and the lemmas are stated over it. A blocking wait
  for the mapper is the value \<open>None\<close>.
\<close>

record wal =
  files :: wal_files
  layout :: wal_layout
  maps :: wal_maps

datatype wal_error = Crc crc_read_error | EndOfWal | Io

text \<open>Waiting (\<open>None\<close>) or done, with a panic or a value.\<close>

type_synonym 'a blk = "'a res option"

definition bindb :: "'a blk \<Rightarrow> ('a \<Rightarrow> 'b blk) \<Rightarrow> 'b blk" where
  "bindb x f = (case x of None \<Rightarrow> None | Some (Inl e) \<Rightarrow> Some (Inl e) | Some (Inr a) \<Rightarrow> f a)"

section \<open>Maps as views of files\<close>

definition map_offset :: "wal_layout \<Rightarrow> map_id \<Rightarrow> usize" where
  "map_offset L m = unat (offset_in_wal_file L (fst (map_range L m)))"

definition map_data :: "wal_layout \<Rightarrow> wal_files \<Rightarrow> map_id \<Rightarrow> bytes" where
  "map_data L fs m =
     (case map_of fs (file_for_map L m) of
        None \<Rightarrow> []
      | Some f \<Rightarrow> take (unat (frag_size L)) (drop (map_offset L m) f))"

text \<open>\<open>write_buf_at\<close> and the copy through it. The slice is made from a raw pointer with no bounds
  check: outside the mapping its use is undefined, shown here as \<open>OutOfRange\<close>.\<close>

definition write_buf_at :: "wal_layout \<Rightarrow> wal_files \<Rightarrow> map_id \<Rightarrow> usize \<Rightarrow> bytes \<Rightarrow> wal_files res" where
  "write_buf_at L fs m offset buf =
     (case map_of fs (file_for_map L m) of
        None \<Rightarrow> Inl OutOfRange
      | Some f \<Rightarrow>
          if offset + length buf \<le> unat (frag_size L)
          then bindr (copy_at_r (map_offset L m + offset) buf f) (\<lambda>f'.
                 Inr (sm_insert (file_for_map L m) f' fs))
          else Inl OutOfRange)"

section \<open>The writer\<close>

record wal_writer =
  ww_wal :: wal
  ww_allocator :: wal_allocator

definition get_writeable_map :: "wal \<Rightarrow> u64 \<Rightarrow> (map_id \<times> usize) blk" where
  "get_writeable_map W pos =
     (let (m, offset) = locate (layout W) pos
      in case map_of (maps W) m of
           None \<Rightarrow> None
         | Some w \<Rightarrow> Some (assertr (writeable w) (Inr (m, unat offset))))"

definition write_skip_marker :: "wal \<Rightarrow> u64 \<Rightarrow> wal blk" where
  "write_skip_marker W pos =
     bindb (get_writeable_map W pos) (\<lambda>(m, offset).
       Some (bindr (write_buf_at (layout W) (files W) m offset skip_marker) (\<lambda>fs.
         Inr (W\<lparr>files := fs\<rparr>))))"

fun write_frames :: "wal_layout \<Rightarrow> wal_files \<Rightarrow> map_id \<Rightarrow> u64 \<Rightarrow> usize \<Rightarrow> bytes list
    \<Rightarrow> (wal_files \<times> wal_position list) res" where
  "write_frames L fs m pos offset [] = Inr (fs, [])"
| "write_frames L fs m pos offset (w # ws) =
     assertr (length w < 2 ^ 30)
     (let aligned_frame_size = align L (of_nat (length w))
      in bindr (write_buf_at L fs m offset w) (\<lambda>fs.
         bindr (write_frames L fs m (pos + aligned_frame_size)
                  (offset + unat aligned_frame_size) ws) (\<lambda>(fs, guards).
           Inr (fs, WalPosition pos (of_nat (length w)) # guards))))"

definition frames_len :: "wal_layout \<Rightarrow> bytes list \<Rightarrow> u64" where
  "frames_len L ws = sum_list (map (\<lambda>w. align L (of_nat (length w))) ws)"

definition multi_write :: "wal_writer \<Rightarrow> bytes list \<Rightarrow> (wal_writer \<times> wal_position list) blk" where
  "multi_write ww ws =
     (let W = ww_wal ww
      in bindb (Some (allocate (ww_allocator ww) (frames_len (layout W) ws))) (\<lambda>(A, r).
         bindb (case need_skip_marker r of
                  None \<Rightarrow> Some (Inr W)
                | Some skip_marker_pos \<Rightarrow> write_skip_marker W skip_marker_pos) (\<lambda>W.
         bindb (get_writeable_map W (allocated_position r)) (\<lambda>(m, offset).
           Some (bindr (write_frames (layout W) (files W) m (allocated_position r) offset ws)
             (\<lambda>(fs, guards). Inr (\<lparr>ww_wal = W\<lparr>files := fs\<rparr>, ww_allocator = A\<rparr>, guards)))))))"

definition write_one :: "wal_writer \<Rightarrow> bytes \<Rightarrow> (wal_writer \<times> wal_position) blk" where
  "write_one ww w =
     bindb (multi_write ww [w]) (\<lambda>(ww, guards).
       Some (bindr (expectr (first_of guards)) (\<lambda>g. Inr (ww, g))))"

section \<open>The iterator\<close>

record wal_iterator =
  it_wal :: wal
  it_maps :: wal_maps
  it_map :: wal_map
  it_position :: u64
  skip_crc :: bool
  for_writer :: bool

definition make_map :: "wal_layout \<Rightarrow> map_id \<Rightarrow> wal_files \<Rightarrow> wal_maps \<Rightarrow> bool
    \<Rightarrow> (wal_map \<times> wal_files \<times> wal_maps) option res" where
  "make_map L m fs mps fw =
     (case get_checked fs (file_for_map L m) of
        None \<Rightarrow> Inr None
      | Some f \<Rightarrow>
          let fs = sm_insert (file_for_map L m) (extend_to_map_id L f m) fs
          in if fw then bindr (maps_map L m mps) (\<lambda>(w, mps). Inr (Some (w, fs, mps)))
             else Inr (Some (create_map m, fs, mps)))"

definition iterator_new :: "wal \<Rightarrow> u64 \<Rightarrow> bool \<Rightarrow> wal_iterator res" where
  "iterator_new W pos fw =
     (let m = fst (locate (layout W) pos)
      in bindr (make_map (layout W) m (files W) [] fw) (\<lambda>r.
         bindr (expectr r) (\<lambda>(w, fs, mps).
           Inr \<lparr>it_wal = W\<lparr>files := fs\<rparr>, it_maps = mps, it_map = w, it_position = pos,
                skip_crc = False, for_writer = fw\<rparr>)))"

definition it_read :: "(bytes \<Rightarrow> u32) \<Rightarrow> wal_iterator \<Rightarrow> usize \<Rightarrow> wal_error + bytes" where
  "it_read hash it offset =
     (let data = map_data (layout (it_wal it)) (files (it_wal it)) (wm_id (it_map it));
          r = (if skip_crc it then read_unchecked_from_bytes data offset
               else read_from_bytes hash data offset)
      in case r of Inl e \<Rightarrow> Inl (Crc e) | Inr b \<Rightarrow> Inr b)"

definition read_one :: "(bytes \<Rightarrow> u32) \<Rightarrow> wal_iterator \<Rightarrow> (wal_iterator \<times> (wal_error + bytes)) res" where
  "read_one hash it =
     (let W = it_wal it; (m, offset) = locate (layout W) (it_position it)
      in if wm_id (it_map it) \<noteq> m
         then
           bindr (make_map (layout W) m (files W) (it_maps it) (for_writer it)) (\<lambda>r.
             case r of
               None \<Rightarrow> Inr (it, Inl EndOfWal)
             | Some (w, fs, mps) \<Rightarrow>
                 let it = it\<lparr>it_wal := W\<lparr>files := fs\<rparr>, it_maps := mps, it_map := w\<rparr>
                 in Inr (it, it_read hash it (unat offset)))
         else Inr (it, it_read hash it (unat offset)))"

definition it_next :: "(bytes \<Rightarrow> u32) \<Rightarrow> wal_iterator
    \<Rightarrow> (wal_iterator \<times> (wal_error + (wal_position \<times> bytes))) res" where
  "it_next hash it =
     bindr (read_one hash it) (\<lambda>(it, frame).
     bindr (if frame = Inl (Crc SkipMarker)
            then
              let next_id = next_map (wm_id (it_map it));
                  it = it\<lparr>it_position := fst (map_range (layout (it_wal it)) next_id)\<rparr>
              in read_one hash it
            else Inr (it, frame)) (\<lambda>(it, frame).
       case frame of
         Inl e \<Rightarrow> Inr (it, Inl e)
       | Inr b \<Rightarrow>
           let len = length b + CRC_HEADER_LENGTH;
               pos = WalPosition (it_position it) (of_nat len)
           in Inr (it\<lparr>it_position := it_position it + align (layout (it_wal it)) (of_nat len)\<rparr>,
                   Inr (pos, b))))"

text \<open>The caller's loop: read until the first error. \<open>None\<close> when the fuel runs out.\<close>

fun iterate :: "nat \<Rightarrow> (bytes \<Rightarrow> u32) \<Rightarrow> wal_iterator
    \<Rightarrow> (wal_iterator \<times> (wal_position \<times> bytes) list \<times> wal_error) res option" where
  "iterate 0 hash it = None"
| "iterate (Suc n) hash it =
     (case it_next hash it of
        Inl e \<Rightarrow> Some (Inl e)
      | Inr (it, Inl e) \<Rightarrow> Some (Inr (it, [], e))
      | Inr (it, Inr x) \<Rightarrow>
          (case iterate n hash it of
             None \<Rightarrow> None
           | Some (Inl e) \<Rightarrow> Some (Inl e)
           | Some (Inr (it, xs, e)) \<Rightarrow> Some (Inr (it, x # xs, e))))"

definition clear_fragment_from_position :: "wal_iterator \<Rightarrow> u64 \<Rightarrow> wal_iterator res" where
  "clear_fragment_from_position it pos =
     (let L = layout (it_wal it); (m, offset) = locate L pos
      in if m \<noteq> wm_id (it_map it) then Inr it
         else
           let (s, e) = map_range L m;
               fragment_size = unat (e - s);
               bytes_to_zero = fragment_size - unat offset
           in if 0 < bytes_to_zero
              then bindr (write_buf_at L (files (it_wal it)) m (unat offset) (replicate bytes_to_zero 0))
                     (\<lambda>fs. Inr (it\<lparr>it_wal := (it_wal it)\<lparr>files := fs\<rparr>\<rparr>))
              else Inr it)"

definition into_writer :: "wal_iterator \<Rightarrow> u64 option \<Rightarrow> (wal_writer \<times> wal_mapper_thread) res" where
  "into_writer it position_override =
     assertr (for_writer it)
     (let L = layout (it_wal it);
          pos = (case position_override of None \<Rightarrow> it_position it | Some p \<Rightarrow> p)
      in assertr (case map_of (it_maps it) (fst (locate L pos)) of
                    None \<Rightarrow> True | Some w \<Rightarrow> writeable w)
         (bindr (clear_fragment_from_position it pos) (\<lambda>it.
          bindr (mapper_start L (files (it_wal it)) (it_maps it)) (\<lambda>th.
            Inr (\<lparr>ww_wal = (it_wal it)\<lparr>files := mt_files th, maps := maps_arc th\<rparr>,
                  ww_allocator = allocator_new L pos\<rparr>, th)))))"

fun premap_loop :: "wal_layout \<Rightarrow> wal_files \<Rightarrow> nat \<Rightarrow> map_id list \<Rightarrow> wal_maps \<Rightarrow> (nat \<times> wal_maps) res" where
  "premap_loop L fs budget [] mps = Inr (0, mps)"
| "premap_loop L fs budget (m # ms) mps =
     (if budget = 0 then Inr (0, mps)
      else
        case get_checked fs (file_for_map L m) of
          None \<Rightarrow> premap_loop L fs budget ms mps
        | Some f \<Rightarrow>
            if \<not> covers_map L f m then premap_loop L fs budget ms mps
            else bindr (map_readonly L m mps) (\<lambda>mps.
                 bindr (premap_loop L fs (budget - 1) ms mps) (\<lambda>(n, mps). Inr (Suc n, mps))))"

definition premap_live_fragments :: "wal_iterator \<Rightarrow> wal_position list \<Rightarrow> (wal_iterator \<times> usize) res" where
  "premap_live_fragments it live =
     assertr (for_writer it)
     (let L = layout (it_wal it);
          budget = max_maps L - (INITIAL_MAPS_BUFFER + length (it_maps it))
      in if budget = 0 then Inr (it, 0)
         else
           let writer_map = wm_id (it_map it);
               candidates = remdups (sort (filter (\<lambda>m. m < writer_map \<and> map_of (it_maps it) m = None)
                 (map (\<lambda>p. fst (locate L (wp_offset p))) (filter is_valid live))))
           in bindr (premap_loop L (files (it_wal it)) budget (rev candidates) (it_maps it))
                (\<lambda>(mapped, mps). Inr (it\<lparr>it_maps := mps\<rparr>, mapped)))"

definition writer_after_premapped :: "wal \<Rightarrow> wal_position option \<Rightarrow> wal_position list
    \<Rightarrow> (wal_writer \<times> wal_mapper_thread) res" where
  "writer_after_premapped W p live =
     bindr (case p of None \<Rightarrow> Inr 0 | Some p \<Rightarrow> next_after_wal_position (layout W) p) (\<lambda>pos.
     bindr (iterator_new W pos True) (\<lambda>it.
     bindr (premap_live_fragments it live) (\<lambda>(it, _). into_writer it None)))"

section \<open>Reading one frame\<close>

datatype frame_source_t = Mapped map_id u64 | File wal_file

datatype read_type = ReadMapped | ReadSyscall

definition frame_source :: "wal \<Rightarrow> wal_position \<Rightarrow> bool \<Rightarrow> frame_source_t option res" where
  "frame_source W pos whole_frame =
     assertr (pos \<noteq> WAL_INVALID)
     (let (m, offset) = locate (layout W) (wp_offset pos);
          by_file = map_option File (get_checked (files W) (locate_file (layout W) (wp_offset pos)))
      in Inr (case map_of (maps W) m of
                None \<Rightarrow> by_file
              | Some w \<Rightarrow> if populated w \<or> \<not> whole_frame then Some (Mapped m offset) else by_file))"

definition lift_crc :: "crc_read_error + bytes \<Rightarrow> wal_error + bytes" where
  "lift_crc r = (case r of Inl e \<Rightarrow> Inl (Crc e) | Inr b \<Rightarrow> Inr b)"

definition wal_read :: "(bytes \<Rightarrow> u32) \<Rightarrow> wal \<Rightarrow> wal_position
    \<Rightarrow> (wal_error + (read_type \<times> bytes option)) res" where
  "wal_read hash W pos =
     bindr (frame_source W pos True) (\<lambda>src.
       case src of
         Some (Mapped m offset) \<Rightarrow>
           Inr (case lift_crc (read_from_bytes hash (map_data (layout W) (files W) m) (unat offset)) of
                  Inl e \<Rightarrow> Inl e | Inr b \<Rightarrow> Inr (ReadMapped, Some b))
       | Some (File f) \<Rightarrow>
           let buffer_size = (if direct_io (layout W)
                              then unat (align (layout W) (of_nat (frame_len pos)))
                              else frame_len pos)
           in Inr (case file_read_exact_at f (unat (offset_in_wal_file (layout W) (wp_offset pos)))
                          buffer_size of
                     None \<Rightarrow> Inl Io
                   | Some buf \<Rightarrow>
                       let buf = (if direct_io (layout W) \<and> frame_len pos < length buf
                                  then take (frame_len pos) buf else buf)
                       in case lift_crc (read_from_bytes hash buf 0) of
                            Inl e \<Rightarrow> Inl e | Inr b \<Rightarrow> Inr (ReadSyscall, Some b))
       | None \<Rightarrow> Inr (Inr (ReadSyscall, None)))"

definition is_reachable :: "wal \<Rightarrow> wal_position \<Rightarrow> bool res" where
  "is_reachable W pos = bindr (frame_source W pos False) (\<lambda>s. Inr (s \<noteq> None))"

datatype wal_random_read = MappedRead bytes | FileRead wal_file "u64 \<times> u64"

definition reader_at :: "wal \<Rightarrow> wal_position \<Rightarrow> usize \<Rightarrow> bool \<Rightarrow> wal_random_read res" where
  "reader_at W pos inner_offset whole_frame =
     bindr (frame_source W pos whole_frame) (\<lambda>src.
       case src of
         Some (Mapped m offset) \<Rightarrow>
           let header_end = unat offset + CRC_HEADER_LENGTH
           in bindr (slice_r (map_data (layout W) (files W) m) (header_end + inner_offset)
                      (header_end + frame_len pos - CRC_HEADER_LENGTH)) (\<lambda>d. Inr (MappedRead d))
       | Some (File f) \<Rightarrow>
           let offset = offset_in_wal_file (layout W) (wp_offset pos);
               header_end = offset + of_nat CRC_HEADER_LENGTH
           in Inr (FileRead f (header_end + of_nat inner_offset, offset + of_nat (frame_len pos)))
       | None \<Rightarrow> Inl ExplicitPanic)"

definition min_wal_position :: "wal \<Rightarrow> u64 res" where
  "min_wal_position W = bindr (min_file_id (files W)) (\<lambda>i. Inr (i * wal_file_size (layout W)))"

end
