(* ===== verification/Wal_Memory.thy ===== *)
theory Wal_Memory
  imports Wal_Log
begin

text \<open>
  The log as one flat memory. \<open>byte_at\<close> reads the byte of the log files at an absolute position,
  \<open>holds\<close> says that a block inside one fragment has given contents, \<open>zero_from\<close> that the log is
  blank from a position on. Writes through maps, file extension and the fragment views are
  characterised in these terms.
\<close>

definition layout_wf :: "wal_layout \<Rightarrow> bool" where
  "layout_wf L \<longleftrightarrow> layout_ok L \<and> 0 < wal_file_size L"

abbreviation FRAG :: "wal_layout \<Rightarrow> nat" where "FRAG L \<equiv> unat (frag_size L)"
abbreviation FILE :: "wal_layout \<Rightarrow> nat" where "FILE L \<equiv> unat (wal_file_size L)"

definition byte_at :: "wal_layout \<Rightarrow> wal_files \<Rightarrow> nat \<Rightarrow> byte option" where
  "byte_at L fs A =
     (if A < 2 ^ 64
      then (case map_of fs (of_nat (A div FILE L)) of
              None \<Rightarrow> None
            | Some f \<Rightarrow> if A mod FILE L < length f then Some (f ! (A mod FILE L)) else None)
      else None)"

definition holds :: "wal_layout \<Rightarrow> wal_files \<Rightarrow> nat \<Rightarrow> bytes \<Rightarrow> bool" where
  "holds L fs P bs \<longleftrightarrow> P mod FRAG L + length bs \<le> FRAG L
   \<and> (\<forall>i < length bs. byte_at L fs (P + i) = Some (bs ! i))"

definition zero_from :: "wal_layout \<Rightarrow> wal_files \<Rightarrow> nat \<Rightarrow> bool" where
  "zero_from L fs E \<longleftrightarrow> (\<forall>A \<ge> E. byte_at L fs A = None \<or> byte_at L fs A = Some 0)"

text \<open>Fragments whose range does not wrap, and fragments their file covers.\<close>

definition frag_ok :: "wal_layout \<Rightarrow> map_id \<Rightarrow> bool" where
  "frag_ok L m \<longleftrightarrow> (unat m + 1) * FRAG L \<le> 2 ^ 64"

definition covered :: "wal_layout \<Rightarrow> wal_files \<Rightarrow> map_id \<Rightarrow> bool" where
  "covered L fs m \<longleftrightarrow>
     (case map_of fs (file_for_map L m) of None \<Rightarrow> False | Some f \<Rightarrow> map_offset L m + FRAG L \<le> length f)"

section \<open>Arithmetic of fragments and files\<close>

lemma layout_wfD:
  assumes "layout_wf L"
  shows "0 < FRAG L" "FRAG L < 2 ^ 32" "0 < FILE L" "FRAG L dvd FILE L" "8 dvd FRAG L" "layout_ok L"
  using assms layout_okD [of L] by (simp_all add: layout_wf_def unat_gt_0 word_gt_0)

lemma frag_addr:
  fixes m F W i :: nat
  assumes "F dvd W" "0 < W" "i < F"
  shows "(m * F + i) div W = m * F div W" "(m * F + i) mod W = m * F mod W + i"
    "m * F mod W + F \<le> W"
proof -
  obtain k where k: "W = F * k" using assms(1) by (auto simp: dvd_def)
  then have kp: "0 < k" "0 < F" using assms by auto
  have mod: "m * F mod W = F * (m mod k)" by (simp add: k mult.commute)
  have "m mod k + 1 \<le> k" using kp by (simp add: Suc_leI)
  then have "F * (m mod k + 1) \<le> F * k" by (rule mult_le_mono2)
  then show le: "m * F mod W + F \<le> W" by (simp add: mod k algebra_simps)
  have lt: "m * F mod W + i < W" using le assms(3) by linarith
  have eq: "m * F + i = (m * F mod W + i) + m * F div W * W" by simp
  have g: "(a + q * W) div W = q" "(a + q * W) mod W = a" if "a < W" for a q
    using that by simp_all
  show "(m * F + i) div W = m * F div W" "(m * F + i) mod W = m * F mod W + i"
    using g [OF lt, of "m * F div W"] eq by metis+
qed

lemma frag_map_start:
  assumes "frag_ok L m" "layout_wf L"
  shows "unat (frag_size L * m) = unat m * FRAG L"
proof -
  have "unat m * FRAG L < 2 ^ 64"
    using assms(1) layout_wfD(1) [OF assms(2)] by (simp add: frag_ok_def)
  then show ?thesis by (simp add: unat_word_ariths(2) mult.commute)
qed

lemma file_for_map_eq:
  assumes "frag_ok L m" "layout_wf L"
  shows "unat (file_for_map L m) = unat m * FRAG L div FILE L"
    "file_for_map L m = of_nat (unat m * FRAG L div FILE L)"
    "map_offset L m = unat m * FRAG L mod FILE L"
proof -
  show u: "unat (file_for_map L m) = unat m * FRAG L div FILE L"
    by (simp add: file_for_map_def locate_file_def map_range_def unat_div frag_map_start [OF assms])
  then show "file_for_map L m = of_nat (unat m * FRAG L div FILE L)"
    by (simp flip: u)
  show "map_offset L m = unat m * FRAG L mod FILE L"
    by (simp add: map_offset_def offset_in_wal_file_def map_range_def unat_mod frag_map_start [OF assms])
qed

lemma locate_frag:
  assumes "layout_wf L" "unat p + FRAG L \<le> 2 ^ 64"
  shows "unat (fst (locate L p)) = unat p div FRAG L" "unat (snd (locate L p)) = unat p mod FRAG L"
    "frag_ok L (fst (locate L p))"
proof -
  show "unat (fst (locate L p)) = unat p div FRAG L" "unat (snd (locate L p)) = unat p mod FRAG L"
    by (simp_all add: locate_def unat_div unat_mod)
  moreover have "(unat p div FRAG L + 1) * FRAG L \<le> 2 ^ 64"
  proof -
    have "(unat p div FRAG L + 1) * FRAG L = unat p div FRAG L * FRAG L + FRAG L" by simp
    then show ?thesis using div_times_less_eq_dividend [of "unat p" "FRAG L"] assms(2) by linarith
  qed
  ultimately show "frag_ok L (fst (locate L p))" by (simp add: frag_ok_def)
qed

section \<open>Fragment views\<close>

lemma file_index:
  assumes "layout_wf L" "frag_ok L m" "A < 2 ^ 64"
  shows "(of_nat (A div FILE L) :: u64) = file_for_map L m \<longleftrightarrow> A div FILE L = unat m * FRAG L div FILE L"
proof -
  have "A div FILE L < 2 ^ 64"
    using assms(3) by (rule le_less_trans [OF div_le_dividend])
  then have "unat (of_nat (A div FILE L) :: u64) = A div FILE L" by (simp add: unat_of_nat)
  then show ?thesis
    using file_for_map_eq(1) [OF assms(2,1)] by (metis word_unat_eq_iff)
qed

lemma byte_at_frag:
  assumes "layout_wf L" "frag_ok L m" "i < FRAG L"
  shows "byte_at L fs (unat m * FRAG L + i) =
    (case map_of fs (file_for_map L m) of
       None \<Rightarrow> None
     | Some f \<Rightarrow> if map_offset L m + i < length f then Some (f ! (map_offset L m + i)) else None)"
proof -
  note l = layout_wfD [OF assms(1)]
  note f = frag_addr [OF l(4,3) assms(3), of "unat m"]
  have "unat m * FRAG L + i < 2 ^ 64"
    using assms(2,3) by (simp add: frag_ok_def)
  then show ?thesis
    using file_for_map_eq(2,3) [OF assms(2,1)] f(1,2)
    by (cases "map_of fs (file_for_map L m)") (simp_all add: byte_at_def)
qed

lemma byte_at_map_data:
  assumes "layout_wf L" "frag_ok L m" "i < FRAG L"
  shows "byte_at L fs (unat m * FRAG L + i) =
    (if i < length (map_data L fs m) then Some (map_data L fs m ! i) else None)"
  using assms(3) unfolding byte_at_frag [OF assms] map_data_def
  by (auto split: option.splits)

lemma holds_map_data:
  assumes "layout_wf L" "unat p + FRAG L \<le> 2 ^ 64" "holds L fs (unat p) bs" "bs \<noteq> []"
  shows "\<exists>pre post. map_data L fs (fst (locate L p)) = pre @ bs @ post
           \<and> length pre = unat (snd (locate L p))"
proof -
  let ?m = "fst (locate L p)" and ?o = "unat (snd (locate L p))"
  note lf = locate_frag [OF assms(1,2)]
  let ?d = "map_data L fs ?m"
  have P: "unat p = unat ?m * FRAG L + ?o" by (simp add: lf)
  have byte: "?o + i < length ?d \<and> ?d ! (?o + i) = bs ! i" if "i < length bs" for i
  proof -
    have "?o + i < FRAG L" using assms(3) that lf(2) by (simp add: holds_def)
    from byte_at_map_data [OF assms(1) lf(3) this, of fs]
    show ?thesis using assms(3) that P by (auto simp: holds_def add.assoc split: if_splits)
  qed
  have len: "?o + length bs \<le> length ?d"
    using byte [of "length bs - 1"] assms(4) by (cases bs) auto
  have "take (length bs) (drop ?o ?d) = bs"
    using byte len by (intro nth_equalityI) auto
  then have "?d = take ?o ?d @ bs @ drop (length bs) (drop ?o ?d)"
    by (metis append_take_drop_id)
  moreover have "length (take ?o ?d) = ?o" using len by simp
  ultimately show ?thesis by blast
qed

section \<open>Writing through a map\<close>

lemma nth_overwrite:
  assumes "a + length ys \<le> length xs" "i < length xs"
  shows "overwrite a ys xs ! i = (if a \<le> i \<and> i < a + length ys then ys ! (i - a) else xs ! i)"
  using assms by (auto simp: overwrite_def nth_append)

lemma write_buf_at_spec:
  assumes "layout_wf L" "frag_ok L m" "covered L fs m" "off + length buf \<le> FRAG L"
  shows "\<exists>fs'. write_buf_at L fs m off buf = Inr fs'
    \<and> (\<forall>A. byte_at L fs' A = (if unat m * FRAG L + off \<le> A \<and> A < unat m * FRAG L + off + length buf
           then Some (buf ! (A - (unat m * FRAG L + off))) else byte_at L fs A))
    \<and> (\<forall>m'. covered L fs' m' \<longleftrightarrow> covered L fs m')
    \<and> (\<forall>i. map_of fs' i = None \<longleftrightarrow> map_of fs i = None) \<and> (sm_wf fs \<longrightarrow> sm_wf fs')"
proof -
  let ?i = "file_for_map L m" and ?b = "map_offset L m + off"
  note l = layout_wfD [OF assms(1)]
  obtain f where f: "map_of fs ?i = Some f" "map_offset L m + FRAG L \<le> length f"
    using assms(3) by (auto simp: covered_def split: option.splits)
  have fit: "?b + length buf \<le> length f" using f(2) assms(4) by simp
  let ?f' = "overwrite ?b buf f" and ?fs' = "sm_insert ?i (overwrite ?b buf f) fs"
  have w: "write_buf_at L fs m off buf = Inr ?fs'"
    using f assms(4) fit by (simp add: write_buf_at_def copy_at_r_def)
  have len: "length ?f' = length f" using fit by simp
  have "byte_at L ?fs' A = (if unat m * FRAG L + off \<le> A \<and> A < unat m * FRAG L + off + length buf
           then Some (buf ! (A - (unat m * FRAG L + off))) else byte_at L fs A)" for A
  proof (cases "A < 2 ^ 64 \<and> A div FILE L = unat m * FRAG L div FILE L")
    case True
    let ?W = "FILE L" and ?q = "unat m * FRAG L div FILE L" and ?r = "unat m * FRAG L mod FILE L"
    have A: "A = ?q * ?W + A mod ?W" using True by (metis div_mult_mod_eq)
    have M: "unat m * FRAG L = ?q * ?W + ?r" by simp
    have idx: "unat m * FRAG L + off \<le> A \<longleftrightarrow> ?b \<le> A mod ?W"
        "A < unat m * FRAG L + off + length buf \<longleftrightarrow> A mod ?W < ?b + length buf"
        "A - (unat m * FRAG L + off) = A mod ?W - ?b"
      using A M file_for_map_eq(3) [OF assms(2,1)] by linarith+
    have "of_nat (A div ?W) = ?i" using True file_index [OF assms(1,2), of A] by simp
    then show ?thesis
      using True f(1) len fit nth_overwrite [OF fit, of "A mod ?W"]
      unfolding idx byte_at_def by (auto simp: map_of_sm_insert)
  next
    case False
    have "\<not> (unat m * FRAG L + off \<le> A \<and> A < unat m * FRAG L + off + length buf)"
    proof
      assume r: "unat m * FRAG L + off \<le> A \<and> A < unat m * FRAG L + off + length buf"
      then have i: "A - unat m * FRAG L < FRAG L" "A = unat m * FRAG L + (A - unat m * FRAG L)"
        using assms(4) by linarith+
      then have "A < 2 ^ 64" using assms(2) by (simp add: frag_ok_def)
      moreover have "A div FILE L = unat m * FRAG L div FILE L"
        using frag_addr(1) [OF l(4,3) i(1), of "unat m"] i(2) by simp
      ultimately show False using False by simp
    qed
    moreover have "A < 2 ^ 64 \<Longrightarrow> of_nat (A div FILE L) \<noteq> ?i"
      using False file_index [OF assms(1,2)] by blast
    ultimately show ?thesis by (auto simp: byte_at_def map_of_sm_insert)
  qed
  moreover have "covered L ?fs' m' \<longleftrightarrow> covered L fs m'" for m'
    using f(1) len by (auto simp: covered_def map_of_sm_insert split: if_splits)
  ultimately show ?thesis
    using w f(1) by (auto simp: map_of_sm_insert sm_wf_insert)
qed

lemma write_holds:
  assumes "\<And>A. byte_at L fs' A = (if a \<le> A \<and> A < a + length buf then Some (buf ! (A - a)) else byte_at L fs A)"
  shows "a mod FRAG L + length buf \<le> FRAG L \<Longrightarrow> holds L fs' a buf"
    and "holds L fs Q bs \<Longrightarrow> Q + length bs \<le> a \<or> a + length buf \<le> Q \<Longrightarrow> holds L fs' Q bs"
    and "zero_from L fs E \<Longrightarrow> a + length buf \<le> E' \<Longrightarrow> E \<le> E' \<Longrightarrow> zero_from L fs' E'"
  using assms by (auto simp: holds_def zero_from_def)

section \<open>Extending a file\<close>

text \<open>One file set extends another: it has the same bytes, and new ones are zero.\<close>

definition extends :: "wal_layout \<Rightarrow> wal_files \<Rightarrow> wal_files \<Rightarrow> bool" where
  "extends L fs fs' \<longleftrightarrow>
     (\<forall>A. byte_at L fs' A = byte_at L fs A \<or> byte_at L fs A = None \<and> byte_at L fs' A = Some 0)
   \<and> (\<forall>i. map_of fs' i = None \<longleftrightarrow> map_of fs i = None) \<and> (sm_wf fs \<longrightarrow> sm_wf fs')"

lemma extends_refl [simp]: "extends L fs fs"
  by (simp add: extends_def)

lemma extends_trans: "extends L a b \<Longrightarrow> extends L b c \<Longrightarrow> extends L a c"
  unfolding extends_def by metis

lemma extends_holds: "extends L fs fs' \<Longrightarrow> holds L fs P bs \<Longrightarrow> holds L fs' P bs"
  unfolding extends_def holds_def by (metis option.distinct(1))

lemma extends_zero: "extends L fs fs' \<Longrightarrow> zero_from L fs E \<Longrightarrow> zero_from L fs' E"
  unfolding extends_def zero_from_def by metis

lemma map_end_in_file_eq:
  assumes "layout_wf L" "frag_ok L m"
  shows "map_offset L m + FRAG L \<le> unat (map_end_in_file L m)"
proof -
  let ?M = "unat m * FRAG L"
  note l = layout_wfD [OF assms(1)]
  note fr = frag_addr [OF l(4,3) l(1), of "unat m"]
  have le: "?M mod FILE L + FRAG L \<le> FILE L" using fr(3) .
  let ?e = "frag_size L * (m + 1)"
  have "8 \<le> FRAG L" using l(1,5) by (auto intro: dvd_imp_le)
  then have "(unat m + 1) * 8 \<le> (unat m + 1) * FRAG L" by (rule mult_le_mono2)
  then have "(unat m + 1) * 8 \<le> 2 ^ 64" using assms(2) unfolding frag_ok_def by linarith
  then have "unat (m + 1) = unat m + 1" using unat_add_small [of m 1] by simp
  then have "unat ?e = FRAG L * (unat m + 1) mod 2 ^ 64" by (simp add: unat_word_ariths(2))
  also have "FRAG L * (unat m + 1) = ?M + FRAG L" by (simp add: mult.commute)
  finally have ue: "unat ?e = (?M + FRAG L) mod 2 ^ 64" .
  show ?thesis
  proof (cases "offset_in_wal_file L ?e = 0")
    case True
    then show ?thesis
      using le by (simp add: map_end_in_file_def map_range_def file_for_map_eq(3) [OF assms(2,1)])
  next
    case False
    then have nz: "unat ?e mod FILE L \<noteq> 0"
      by (simp add: offset_in_wal_file_def word_unat_eq_iff unat_mod)
    have "?M + FRAG L \<noteq> 2 ^ 64"
    proof
      assume "?M + FRAG L = 2 ^ 64"
      then have "unat ?e = 0" unfolding ue by simp
      with nz show False by simp
    qed
    moreover have "?M + FRAG L \<le> 2 ^ 64" using assms(2) by (simp add: frag_ok_def add.commute)
    ultimately have "unat ?e = ?M + FRAG L" unfolding ue by (intro mod_less) linarith
    then have r: "unat ?e mod FILE L = (?M mod FILE L + FRAG L) mod FILE L"
      by (simp only: mod_add_left_eq)
    have "?M mod FILE L + FRAG L < FILE L"
    proof (rule ccontr)
      assume "\<not> ?M mod FILE L + FRAG L < FILE L"
      then have "?M mod FILE L + FRAG L = FILE L" using le by linarith
      then have "unat ?e mod FILE L = 0" unfolding r by simp
      with nz show False by simp
    qed
    then have "unat ?e mod FILE L = ?M mod FILE L + FRAG L" unfolding r by (rule mod_less)
    then show ?thesis
      using False by (simp add: map_end_in_file_def map_range_def file_for_map_eq(3) [OF assms(2,1)]
          offset_in_wal_file_def unat_mod)
  qed
qed

lemma extend_file_spec:
  assumes "layout_wf L" "frag_ok L m" "map_of fs (file_for_map L m) = Some f"
  shows "extends L fs (sm_insert (file_for_map L m) (extend_to_map_id L f m) fs)"
    "covered L (sm_insert (file_for_map L m) (extend_to_map_id L f m) fs) m"
proof -
  let ?fs' = "sm_insert (file_for_map L m) (extend_to_map_id L f m) fs"
  have e: "\<exists>n. extend_to_map_id L f m = f @ replicate n 0"
    by (auto simp: extend_to_map_id_def Let_def intro: exI [of _ 0])
  then show "extends L fs ?fs'"
    using assms(3) by (auto simp: extends_def byte_at_def map_of_sm_insert nth_append sm_wf_insert
        split: option.splits if_splits)
  show "covered L ?fs' m"
    using map_end_in_file_eq [OF assms(1,2)]
    by (auto simp: covered_def map_of_sm_insert extend_to_map_id_def Let_def)
qed

end
