(* ===== verification/Wal_Roundtrip.thy ===== *)
theory Wal_Roundtrip
  imports Wal_Memory
begin

text \<open>
  What the writer writes, the iterator reads back. \<open>log_run\<close> describes a stretch of the log that
  holds given entries; \<open>multi_write\<close> extends such a stretch, and the iterator, started at its
  beginning, returns exactly its entries and then an error at its end.
\<close>

definition al :: "wal_layout \<Rightarrow> nat \<Rightarrow> nat" where
  "al L n = (n + alignment L - 1) div alignment L * alignment L"

definition frame_size :: "bytes \<Rightarrow> nat" where
  "frame_size t = length t + CRC_HEADER_LENGTH"

definition payload_ok :: "bytes \<Rightarrow> bool" where
  "payload_ok t \<longleftrightarrow> frame_size t < 2 ^ 30"

inductive log_run :: "wal_layout \<Rightarrow> (bytes \<Rightarrow> u32) \<Rightarrow> wal_files \<Rightarrow> nat \<Rightarrow> (nat \<times> bytes) list \<Rightarrow> nat \<Rightarrow> bool"
  for L hash fs where
  blank: "log_run L hash fs E [] E"
| frame: "payload_ok t \<Longrightarrow> holds L fs P (crc_frame_new hash t)
    \<Longrightarrow> log_run L hash fs (P + al L (frame_size t)) es E
    \<Longrightarrow> log_run L hash fs P ((P, t) # es) E"
| skip: "payload_ok t \<Longrightarrow> holds L fs P skip_marker \<Longrightarrow> Q = (P div FRAG L + 1) * FRAG L
    \<Longrightarrow> holds L fs Q (crc_frame_new hash t)
    \<Longrightarrow> log_run L hash fs (Q + al L (frame_size t)) es E
    \<Longrightarrow> log_run L hash fs P ((Q, t) # es) E"

definition entry_at :: "nat \<times> bytes \<Rightarrow> wal_position \<times> bytes" where
  "entry_at e = (WalPosition (of_nat (fst e)) (of_nat (frame_size (snd e))), snd e)"

section \<open>Stretches of the log\<close>

lemma al_props: "n \<le> al L n" "al L n < n + alignment L" "alignment L dvd al L n" "8 dvd al L n"
proof -
  have a: "0 < alignment L" "8 dvd alignment L" by (simp_all add: alignment_def)
  show "n \<le> al L n" "al L n < n + alignment L" "alignment L dvd al L n"
    using round_up_bounds [OF a(1), of n] by (simp_all add: al_def)
  then show "8 dvd al L n" using a(2) dvd_trans by blast
qed

lemma unat_align_al: "unat v + 512 \<le> 2 ^ 64 \<Longrightarrow> unat (align L v) = al L (unat v)"
  by (simp add: unat_align al_def)

lemma unat_align_frame:
  assumes "payload_ok t"
  shows "unat (align L (of_nat (frame_size t))) = al L (frame_size t)"
    "unat (of_nat (frame_size t) :: u64) = frame_size t"
proof -
  show u: "unat (of_nat (frame_size t) :: u64) = frame_size t"
    using assms by (simp add: payload_ok_def unat_of_nat)
  then show "unat (align L (of_nat (frame_size t))) = al L (frame_size t)"
    using assms by (simp add: unat_align_al payload_ok_def)
qed

lemma length_frame: "length (crc_frame_new hash t) = frame_size t"
  by (simp add: frame_size_def)

lemma next_frag_start:
  assumes "P mod FRAG L + 8 \<le> FRAG L"
  shows "P + 8 \<le> (P div FRAG L + 1) * FRAG L"
proof -
  have "(P div FRAG L + 1) * FRAG L = P div FRAG L * FRAG L + FRAG L" by simp
  then show ?thesis using div_mult_mod_eq [of P "FRAG L"] assms by linarith
qed

lemma holds_skip: "holds L fs P skip_marker \<Longrightarrow> P mod FRAG L + 8 \<le> FRAG L"
  by (simp add: holds_def CRC_HEADER_LENGTH_def)

lemma log_run_le: "log_run L hash fs P es E \<Longrightarrow> P \<le> E"
proof (induction rule: log_run.induct)
  case (skip t P Q es E)
  then show ?case using next_frag_start [OF holds_skip [OF skip(2)]] by linarith
qed simp_all

lemma log_run_append:
  "log_run L hash fs P xs M \<Longrightarrow> log_run L hash fs M ys E \<Longrightarrow> log_run L hash fs P (xs @ ys) E"
  by (induction rule: log_run.induct) (auto intro: log_run.intros)

lemma holds_cong:
  assumes "\<And>A. A < E \<Longrightarrow> byte_at L fs' A = byte_at L fs A" "holds L fs P bs" "P + length bs \<le> E"
  shows "holds L fs' P bs"
  using assms by (auto simp: holds_def)

lemma log_run_cong:
  assumes "log_run L hash fs P es E" "\<And>A. A < E \<Longrightarrow> byte_at L fs' A = byte_at L fs A"
  shows "log_run L hash fs' P es E"
  using assms
proof (induction rule: log_run.induct)
  case (frame t P es E)
  have "P + frame_size t \<le> E"
    using al_props(1) [of "frame_size t" L] log_run_le [OF frame(3)] by linarith
  then have "holds L fs' P (crc_frame_new hash t)"
    by (intro holds_cong [OF frame.prems frame(2)]) (simp_all add: frame_size_def)
  with frame show ?case by (auto intro: log_run.frame)
next
  case (skip t P Q es E)
  have le: "Q + frame_size t \<le> E" "P + 8 \<le> Q"
    using al_props(1) [of "frame_size t" L] log_run_le [OF skip(5)]
      next_frag_start [OF holds_skip [OF skip(2)]] skip(3) by linarith+
  have "holds L fs' P skip_marker"
    using le by (intro holds_cong [OF skip.prems skip(2)]) (simp_all add: CRC_HEADER_LENGTH_def)
  moreover have "holds L fs' Q (crc_frame_new hash t)"
    using le by (intro holds_cong [OF skip.prems skip(4)]) (simp_all add: frame_size_def)
  ultimately show ?case using skip by (auto intro: log_run.skip)
qed (auto intro: log_run.blank)

lemma log_run_cong_ge:
  assumes "log_run L hash fs P es E" "\<And>A. P \<le> A \<Longrightarrow> byte_at L fs' A = byte_at L fs A"
  shows "log_run L hash fs' P es E"
  using assms
proof (induction rule: log_run.induct)
  case (frame t P es E)
  have "holds L fs' P (crc_frame_new hash t)" using frame(2) frame.prems by (simp add: holds_def)
  moreover have "log_run L hash fs' (P + al L (frame_size t)) es E" using frame.IH frame.prems by simp
  ultimately show ?case using frame(1) log_run.frame by blast
next
  case (skip t P Q es E)
  have le: "P \<le> Q" using next_frag_start [OF holds_skip [OF skip(2)]] skip(3) by linarith
  have "holds L fs' P skip_marker" "holds L fs' Q (crc_frame_new hash t)"
    using skip(2,4) skip.prems le by (simp_all add: holds_def)
  moreover have "log_run L hash fs' (Q + al L (frame_size t)) es E"
    using skip.IH skip.prems le by simp
  ultimately show ?case using skip(1,3) log_run.skip by blast
qed (auto intro: log_run.blank)

lemma log_run_extends: "log_run L hash fs P es E \<Longrightarrow> extends L fs fs' \<Longrightarrow> log_run L hash fs' P es E"
  by (induction rule: log_run.induct) (auto intro: log_run.intros extends_holds)

section \<open>The iterator\<close>

definition it_ok :: "wal_layout \<Rightarrow> wal_iterator \<Rightarrow> bool" where
  "it_ok L it \<longleftrightarrow> layout (it_wal it) = L \<and> \<not> skip_crc it
   \<and> covered L (files (it_wal it)) (wm_id (it_map it))
   \<and> wm_id (it_map it) \<le> fst (locate L (it_position it))
   \<and> sm_wf (files (it_wal it))
   \<and> (for_writer it \<longrightarrow> sm_wf (it_maps it) \<and> 0 < max_maps L \<and> length (it_maps it) \<le> max_maps L
        \<and> (\<forall>e \<in> set (it_maps it). fst e \<le> wm_id (it_map it)))"

lemma maps_map_fresh:
  assumes "sm_wf mps" "\<forall>e \<in> set mps. fst e < m" "0 < max_maps L" "length mps \<le> max_maps L"
  shows "\<exists>mps'. maps_map L m mps = Inr (create_map m, mps') \<and> sm_wf mps'
           \<and> length mps' \<le> max_maps L \<and> (\<forall>e \<in> set mps'. fst e \<le> m)"
proof -
  have none: "map_of mps m = None" using assms(2) by (intro map_of_not_key) auto
  have ins: "sm_insert m v mps = mps @ [(m, v)]" for v
    using assms(2) by (induction mps) auto
  let ?ms = "mps @ [(m, create_map m)]"
  let ?mps = "if max_maps L < length ?ms then tl ?ms else ?ms"
  have wf: "sm_wf ?ms" using assms(1,2) by (auto simp: sm_wf_append)
  have "map_of ?mps m = Some (create_map m)"
    using none assms(3,4) by (cases mps) (auto simp: map_add_def split: option.splits)
  then have m: "maps_map L m mps = Inr (create_map m, ?mps)"
    using none by (simp add: maps_map_def ins Let_def)
  moreover have "length ?mps \<le> max_maps L" using assms(4) by auto
  moreover have "sm_wf ?mps" using wf sm_wf_tl [OF wf] by simp
  moreover have "\<forall>e \<in> set ?mps. fst e \<le> m"
    using assms(2) by (cases mps) auto
  ultimately show ?thesis by blast
qed

lemma read_one_ok:
  assumes "layout_wf L" "it_ok L it" "unat (it_position it) + FRAG L \<le> 2 ^ 64"
    and "map_of (files (it_wal it)) (file_for_map L (fst (locate L (it_position it)))) \<noteq> None"
  shows "\<exists>it'. read_one hash it = Inr (it', it_read hash it' (unat (snd (locate L (it_position it)))))
    \<and> it_ok L it' \<and> it_position it' = it_position it
    \<and> extends L (files (it_wal it)) (files (it_wal it'))
    \<and> wm_id (it_map it') = fst (locate L (it_position it))"
proof (cases "wm_id (it_map it) = fst (locate L (it_position it))")
  case True
  with assms(2) show ?thesis
    by (intro exI [of _ it]) (auto simp: read_one_def it_ok_def Let_def split: prod.splits)
next
  case False
  let ?m = "fst (locate L (it_position it))" and ?fs = "files (it_wal it)"
  have lt: "wm_id (it_map it) < ?m" and lay: "layout (it_wal it) = L"
    using assms(2) False by (auto simp: it_ok_def)
  obtain f where f: "map_of ?fs (file_for_map L ?m) = Some f" using assms(4) by blast
  let ?fs' = "sm_insert (file_for_map L ?m) (extend_to_map_id L f ?m) ?fs"
  note ex = extend_file_spec [OF assms(1) locate_frag(3) [OF assms(1,3)] f]
  have "\<exists>mps'. make_map L ?m ?fs (it_maps it) (for_writer it) = Inr (Some (create_map ?m, ?fs', mps'))
    \<and> (for_writer it \<longrightarrow> sm_wf mps' \<and> length mps' \<le> max_maps L \<and> (\<forall>e \<in> set mps'. fst e \<le> ?m))"
  proof (cases "for_writer it")
    case True
    have "\<forall>e \<in> set (it_maps it). fst e < ?m" using assms(2) True lt by (auto simp: it_ok_def)
    then show ?thesis
      using maps_map_fresh [of "it_maps it" ?m L] assms(2) True f
      by (auto simp: it_ok_def make_map_def get_checked_def Let_def)
  next
    case False
    then show ?thesis using f by (simp add: make_map_def get_checked_def Let_def)
  qed
  then obtain mps' where mm:
    "make_map L ?m ?fs (it_maps it) (for_writer it) = Inr (Some (create_map ?m, ?fs', mps'))"
    "for_writer it \<longrightarrow> sm_wf mps' \<and> length mps' \<le> max_maps L \<and> (\<forall>e \<in> set mps'. fst e \<le> ?m)"
    by blast
  let ?it = "it\<lparr>it_wal := (it_wal it)\<lparr>files := ?fs'\<rparr>, it_maps := mps', it_map := create_map ?m\<rparr>"
  have "read_one hash it = Inr (?it, it_read hash ?it (unat (snd (locate L (it_position it)))))"
    using mm(1) False lay by (simp add: read_one_def Let_def split_beta)
  moreover have "it_ok L ?it"
    using assms(2) mm(2) ex by (auto simp: it_ok_def create_map_def create_map_impl_def sm_wf_insert)
  ultimately show ?thesis
    using ex(1) by (intro exI [of _ ?it]) (simp add: create_map_def create_map_impl_def)
qed

lemma it_read_eq:
  assumes "it_ok L it" "wm_id (it_map it) = fst (locate L p)"
  shows "it_read hash it (unat (snd (locate L p))) =
    lift_crc (read_from_bytes hash (map_data L (files (it_wal it)) (fst (locate L p))) (unat (snd (locate L p))))"
  using assms by (simp add: it_read_def it_ok_def lift_crc_def Let_def)

text \<open>Reading at a position that holds a frame, a skip marker, or blank space.\<close>

lemma read_frag:
  assumes "layout_wf L" "unat p + FRAG L \<le> 2 ^ 64"
  shows "holds L fs (unat p) (crc_frame_new hash t) \<Longrightarrow> payload_ok t \<Longrightarrow>
      read_from_bytes hash (map_data L fs (fst (locate L p))) (unat (snd (locate L p))) = Inr t"
    and "holds L fs (unat p) skip_marker \<Longrightarrow>
      read_from_bytes hash (map_data L fs (fst (locate L p))) (unat (snd (locate L p))) = Inl SkipMarker"
    and "holds L fs (unat p) (replicate 8 0) \<Longrightarrow>
      read_from_bytes hash (map_data L fs (fst (locate L p))) (unat (snd (locate L p))) = Inl CrcMismatch"
proof -
  assume h: "holds L fs (unat p) (crc_frame_new hash t)" "payload_ok t"
  have "crc_frame_new hash t \<noteq> []" by (simp add: crc_frame_new_eq flip: length_0_conv)
  from holds_map_data [OF assms h(1) this] h(2)
  show "read_from_bytes hash (map_data L fs (fst (locate L p))) (unat (snd (locate L p))) = Inr t"
    by (auto simp: payload_ok_def frame_size_def CRC_HEADER_LENGTH_def intro!: read_frame_at)
next
  assume h: "holds L fs (unat p) skip_marker"
  have "skip_marker \<noteq> []" by (simp add: skip_marker_def)
  from holds_map_data [OF assms h this]
  show "read_from_bytes hash (map_data L fs (fst (locate L p))) (unat (snd (locate L p))) = Inl SkipMarker"
    by (auto intro!: read_skip_marker_at)
next
  assume h: "holds L fs (unat p) (replicate 8 0)"
  from holds_map_data [OF assms h]
  show "read_from_bytes hash (map_data L fs (fst (locate L p))) (unat (snd (locate L p))) = Inl CrcMismatch"
    by (auto intro!: read_zeroes_at)
qed

text \<open>A step of the iterator at a frame, over a skip marker, and at blank space.\<close>

lemma file_of_holds:
  assumes "layout_wf L" "unat p + FRAG L \<le> 2 ^ 64" "holds L fs (unat p) bs" "bs \<noteq> []"
  shows "map_of fs (file_for_map L (fst (locate L p))) \<noteq> None"
  using holds_map_data [OF assms] assms(4) by (auto simp: map_data_def split: option.splits)

lemma it_ok_advance:
  assumes "it_ok L it" "fst (locate L (it_position it)) \<le> fst (locate L q)"
  shows "it_ok L (it\<lparr>it_position := q\<rparr>)"
  using assms by (auto simp: it_ok_def)

lemma locate_mono: "layout_wf L \<Longrightarrow> p \<le> q \<Longrightarrow> fst (locate L p) \<le> fst (locate L q)"
  by (simp add: locate_def word_le_nat_alt unat_div div_le_mono)

definition it_moved :: "wal_layout \<Rightarrow> wal_iterator \<Rightarrow> wal_iterator \<Rightarrow> nat \<Rightarrow> bool" where
  "it_moved L it it' P \<longleftrightarrow> it_ok L it' \<and> extends L (files (it_wal it)) (files (it_wal it'))
   \<and> unat (it_position it') = P"

lemma it_next_frame:
  assumes "layout_wf L" "it_ok L it" "payload_ok t"
    and "holds L (files (it_wal it)) (unat (it_position it)) (crc_frame_new hash t)"
    and "unat (it_position it) + al L (frame_size t) + FRAG L \<le> 2 ^ 64"
  shows "\<exists>it'. it_next hash it = Inr (it', Inr (entry_at (unat (it_position it), t)))
    \<and> it_moved L it it' (unat (it_position it) + al L (frame_size t))"
proof -
  let ?p = "it_position it"
  have b: "unat ?p + FRAG L \<le> 2 ^ 64" using assms(5) by linarith
  have ne: "crc_frame_new hash t \<noteq> []" by (simp add: crc_frame_new_eq flip: length_0_conv)
  obtain it' where r: "read_one hash it = Inr (it', it_read hash it' (unat (snd (locate L ?p))))"
      "it_ok L it'" "it_position it' = ?p" "extends L (files (it_wal it)) (files (it_wal it'))"
      "wm_id (it_map it') = fst (locate L ?p)"
    using read_one_ok [OF assms(1,2) b file_of_holds [OF assms(1) b assms(4) ne]] by blast
  have "holds L (files (it_wal it')) (unat ?p) (crc_frame_new hash t)"
    using extends_holds [OF r(4) assms(4)] .
  from read_frag(1) [OF assms(1) b this assms(3)]
  have t: "it_read hash it' (unat (snd (locate L ?p))) = Inr t"
    using it_read_eq [OF r(2,5), of hash] by (simp add: lift_crc_def)
  let ?q = "?p + align L (of_nat (frame_size t))"
  have "unat ?p + al L (frame_size t) < 2 ^ 64" using assms(5) layout_wfD(1) [OF assms(1)] by linarith
  then have uq: "unat ?q = unat ?p + al L (frame_size t)"
    using unat_plus [of ?p "align L (of_nat (frame_size t))"]
    unfolding unat_align_frame(1) [OF assms(3)] by blast
  then have "?p \<le> ?q" by (simp add: word_le_nat_alt)
  then have ok: "it_ok L (it'\<lparr>it_position := ?q\<rparr>)"
    using it_ok_advance [OF r(2)] locate_mono [OF assms(1)] r(3) by simp
  have lay: "layout (it_wal it') = L" using r(2) by (simp add: it_ok_def)
  have "it_next hash it = Inr (it'\<lparr>it_position := ?q\<rparr>, Inr (entry_at (unat ?p, t)))"
    by (simp add: it_next_def r(1,3) t lay entry_at_def frame_size_def Let_def)
  then show ?thesis
    using ok r(4) uq by (intro exI [of _ "it'\<lparr>it_position := ?q\<rparr>"]) (simp add: it_moved_def)
qed

lemma read_one_of_next:
  assumes "layout_wf L" "it_ok L it" "payload_ok t"
    and "holds L (files (it_wal it)) (unat (it_position it)) (crc_frame_new hash t)"
    and "unat (it_position it) + FRAG L \<le> 2 ^ 64"
  shows "\<exists>it'. read_one hash it = Inr (it', Inr t)"
proof -
  let ?p = "it_position it"
  have ne: "crc_frame_new hash t \<noteq> []" by (simp add: crc_frame_new_eq flip: length_0_conv)
  obtain it' where r: "read_one hash it = Inr (it', it_read hash it' (unat (snd (locate L ?p))))"
      "it_ok L it'" "extends L (files (it_wal it)) (files (it_wal it'))"
      "wm_id (it_map it') = fst (locate L ?p)"
    using read_one_ok [OF assms(1,2,5) file_of_holds [OF assms(1,5,4) ne]] by blast
  from read_frag(1) [OF assms(1,5) extends_holds [OF r(3) assms(4)] assms(3)]
  have "it_read hash it' (unat (snd (locate L ?p))) = Inr t"
    using it_read_eq [OF r(2,4), of hash] by (simp add: lift_crc_def)
  then show ?thesis using r(1) by simp
qed

lemma it_next_skip:
  assumes "layout_wf L" "it_ok L it" "holds L (files (it_wal it)) (unat (it_position it)) skip_marker"
    and "Q = (unat (it_position it) div FRAG L + 1) * FRAG L" "Q + FRAG L \<le> 2 ^ 64"
  shows "\<exists>it1. it_moved L it it1 Q \<and> (\<forall>it2 t. read_one hash it1 = Inr (it2, Inr t)
           \<longrightarrow> it_next hash it = it_next hash it1)"
proof -
  let ?p = "it_position it"
  have h8: "unat ?p + 8 \<le> Q"
    using next_frag_start [OF holds_skip [OF assms(3)]] assms(4) by simp
  have b: "unat ?p + FRAG L \<le> 2 ^ 64" using h8 assms(5) by linarith
  have ne: "skip_marker \<noteq> []" by (simp add: skip_marker_def)
  obtain it' where r: "read_one hash it = Inr (it', it_read hash it' (unat (snd (locate L ?p))))"
      "it_ok L it'" "it_position it' = ?p" "extends L (files (it_wal it)) (files (it_wal it'))"
      "wm_id (it_map it') = fst (locate L ?p)"
    using read_one_ok [OF assms(1,2) b file_of_holds [OF assms(1) b assms(3) ne]] by blast
  from read_frag(2) [OF assms(1) b extends_holds [OF r(4) assms(3)]]
  have t: "it_read hash it' (unat (snd (locate L ?p))) = Inl (Crc SkipMarker)"
    using it_read_eq [OF r(2,5), of hash] by (simp add: lift_crc_def)
  let ?q = "frag_size L * (fst (locate L ?p) + 1)"
  let ?it1 = "it'\<lparr>it_position := ?q\<rparr>"
  have F: "0 < FRAG L" using layout_wfD(1) [OF assms(1)] .
  have m1: "unat (fst (locate L ?p)) = unat ?p div FRAG L" by (simp add: locate_def unat_div)
  have "unat ?p div FRAG L + 1 < 2 ^ 64"
    using div_le_dividend [of "unat ?p" "FRAG L"] h8 assms(5) F by linarith
  then have "unat (fst (locate L ?p) + 1) = unat ?p div FRAG L + 1"
    using unat_add_small [of "fst (locate L ?p)" 1] m1 by simp
  moreover have "FRAG L * (unat ?p div FRAG L + 1) < 2 ^ 64"
    using assms(4,5) F by (simp only: mult.commute)
  ultimately have uq: "unat ?q = Q"
    using assms(4) by (simp add: unat_word_ariths(2) mult.commute)
  then have "?p \<le> ?q" using h8 by (simp add: word_le_nat_alt)
  then have ok: "it_ok L ?it1"
    using it_ok_advance [OF r(2)] locate_mono [OF assms(1)] r(3) by simp
  have lay: "layout (it_wal it') = L" using r(2) by (simp add: it_ok_def)
  have "it_next hash it = it_next hash ?it1" if "read_one hash ?it1 = Inr (it2, Inr b)" for it2 b
    using that by (simp add: it_next_def r(1,5) t lay next_map_def map_range_def Let_def)
  then show ?thesis
    using ok r(4) uq by (intro exI [of _ ?it1]) (simp add: it_moved_def)
qed

lemma it_next_end:
  assumes "layout_wf L" "it_ok L it" "unat (it_position it) + FRAG L \<le> 2 ^ 64"
    and "zero_from L (files (it_wal it)) (unat (it_position it))" "8 dvd unat (it_position it)"
  shows "\<exists>it' e. it_next hash it = Inr (it', Inl e) \<and> e \<in> {Crc CrcMismatch, EndOfWal}
    \<and> it_moved L it it' (unat (it_position it))"
proof -
  let ?p = "it_position it" and ?m = "fst (locate L (it_position it))"
  note l = layout_wfD [OF assms(1)] and lf = locate_frag [OF assms(1,3)]
  show ?thesis
  proof (cases "map_of (files (it_wal it)) (file_for_map L ?m)")
    case None
    have "wm_id (it_map it) \<noteq> ?m" using assms(2) None by (auto simp: it_ok_def covered_def)
    then have "read_one hash it = Inr (it, Inl EndOfWal)"
      using None assms(2)
      by (simp add: read_one_def it_ok_def make_map_def get_checked_def Let_def split_beta)
    then have "it_next hash it = Inr (it, Inl EndOfWal)" by (simp add: it_next_def)
    then show ?thesis using assms(2) by (auto simp: it_moved_def)
  next
    case (Some f)
    then obtain it' where r: "read_one hash it = Inr (it', it_read hash it' (unat (snd (locate L ?p))))"
        "it_ok L it'" "it_position it' = ?p" "extends L (files (it_wal it)) (files (it_wal it'))"
        "wm_id (it_map it') = ?m"
      using read_one_ok [OF assms(1-3)] by blast
    have room: "unat ?p mod FRAG L + 8 \<le> FRAG L"
    proof -
      have d: "8 dvd unat ?p mod FRAG L" using assms(5) l(5) by (simp add: dvd_mod)
      obtain a b where "unat ?p mod FRAG L = 8 * a" "FRAG L = 8 * b" using d l(5) by (auto elim!: dvdE)
      moreover from this have "a < b" using mod_less_divisor [OF l(1), of "unat ?p"] by simp
      ultimately show ?thesis by simp
    qed
    have "holds L (files (it_wal it')) (unat ?p) (replicate 8 0)"
      unfolding holds_def
    proof (intro conjI allI impI)
      fix i assume i: "i < length (replicate 8 (0 :: byte))"
      let ?o = "unat ?p mod FRAG L + i"
      have o: "?o < FRAG L" using i room by simp
      have "byte_at L (files (it_wal it')) (unat ?m * FRAG L + ?o) \<noteq> None"
        using byte_at_frag [OF assms(1) lf(3) o, of "files (it_wal it')"] r(2,5) o
        by (auto simp: it_ok_def covered_def split: option.splits)
      moreover have "unat ?m * FRAG L + ?o = unat ?p + i" by (simp add: lf(1))
      moreover have "byte_at L (files (it_wal it')) (unat ?p + i) \<in> {None, Some 0}"
        using extends_zero [OF r(4) assms(4)] by (auto simp: zero_from_def)
      ultimately show "byte_at L (files (it_wal it')) (unat ?p + i) = Some (replicate 8 0 ! i)"
        using i by auto
    qed (use room in simp)
    from read_frag(3) [OF assms(1,3) this]
    have "it_read hash it' (unat (snd (locate L ?p))) = Inl (Crc CrcMismatch)"
      using it_read_eq [OF r(2,5), of hash] by (simp add: lift_crc_def)
    then have "it_next hash it = Inr (it', Inl (Crc CrcMismatch))"
      using r by (simp add: it_next_def)
    then show ?thesis using r by (auto simp: it_moved_def)
  qed
qed

lemma it_moved_trans: "it_moved L a b P \<Longrightarrow> it_moved L b c Q \<Longrightarrow> it_moved L a c Q"
  unfolding it_moved_def using extends_trans by blast

lemma iterate_step:
  assumes "it_next hash it = Inr (it1, Inr (entry_at x))" "it_moved L it it1 M"
    and "\<exists>it' e. iterate (Suc (length es)) hash it1 = Some (Inr (it', map entry_at es, e))
      \<and> e \<in> S \<and> it_moved L it1 it' E"
  shows "\<exists>it' e. iterate (Suc (length (x # es))) hash it = Some (Inr (it', map entry_at (x # es), e))
      \<and> e \<in> S \<and> it_moved L it it' E"
proof -
  obtain it' e where r: "iterate (Suc (length es)) hash it1 = Some (Inr (it', map entry_at es, e))"
      "e \<in> S" "it_moved L it1 it' E"
    using assms(3) by blast
  have "iterate (Suc (length (x # es))) hash it = Some (Inr (it', map entry_at (x # es), e))"
    by (subst iterate.simps(2)) (simp add: assms(1) r(1) del: iterate.simps)
  with r(2) it_moved_trans [OF assms(2) r(3)] show ?thesis by blast
qed

lemma iterate_log:
  assumes "log_run L hash fs P es E" "layout_wf L" "zero_from L fs E" "8 dvd E" "E + FRAG L \<le> 2 ^ 64"
    and "it_ok L it" "extends L fs (files (it_wal it))" "unat (it_position it) = P"
  shows "\<exists>it' e. iterate (Suc (length es)) hash it = Some (Inr (it', map entry_at es, e))
    \<and> e \<in> {Crc CrcMismatch, EndOfWal} \<and> it_moved L it it' E"
  using assms
proof (induction arbitrary: it rule: log_run.induct)
  case (blank E)
  have z: "zero_from L (files (it_wal it)) (unat (it_position it))"
    using extends_zero [OF blank.prems(6) blank.prems(2)] blank.prems(7) by simp
  obtain it' e where "it_next hash it = Inr (it', Inl e)" "e \<in> {Crc CrcMismatch, EndOfWal}"
      "it_moved L it it' (unat (it_position it))"
    using it_next_end [OF blank.prems(1,5) _ z] blank.prems by blast
  then show ?case using blank.prems(7) by (auto simp del: insert_iff)
next
  case (frame t P es E)
  have "P + al L (frame_size t) \<le> E" using log_run_le [OF frame.hyps(3)] .
  then have b: "unat (it_position it) + al L (frame_size t) + FRAG L \<le> 2 ^ 64"
    using frame.prems(4,7) by simp
  have h: "holds L (files (it_wal it)) (unat (it_position it)) (crc_frame_new hash t)"
    using extends_holds [OF frame.prems(6) frame.hyps(2)] frame.prems(7) by simp
  obtain it1 where n: "it_next hash it = Inr (it1, Inr (entry_at (P, t)))"
      "it_moved L it it1 (P + al L (frame_size t))"
    using it_next_frame [OF frame.prems(1,5) frame.hyps(1) h b] frame.prems(7) by auto
  then have it1: "it_ok L it1" "extends L fs (files (it_wal it1))"
      "unat (it_position it1) = P + al L (frame_size t)"
    using extends_trans [OF frame.prems(6)] by (auto simp: it_moved_def)
  show ?case by (rule iterate_step [OF n frame.IH [OF frame.prems(1-4) it1]])
next
  case (skip t P Q es E)
  have "Q + al L (frame_size t) \<le> E" using log_run_le [OF skip.hyps(5)] .
  then have b: "Q + al L (frame_size t) + FRAG L \<le> 2 ^ 64" "Q + FRAG L \<le> 2 ^ 64"
    using skip.prems(4) by linarith+
  have h: "holds L (files (it_wal it)) (unat (it_position it)) skip_marker"
    using extends_holds [OF skip.prems(6) skip.hyps(2)] skip.prems(7) by simp
  have Q: "Q = (unat (it_position it) div FRAG L + 1) * FRAG L" using skip.hyps(3) skip.prems(7) by simp
  obtain it0 where it0: "it_moved L it it0 Q"
      "\<And>it2 t. read_one hash it0 = Inr (it2, Inr t) \<Longrightarrow> it_next hash it = it_next hash it0"
    using it_next_skip [OF skip.prems(1,5) h Q b(2)] by blast
  have ok0: "it_ok L it0" "extends L fs (files (it_wal it0))" "unat (it_position it0) = Q"
    using it0(1) extends_trans [OF skip.prems(6)] by (auto simp: it_moved_def)
  have h0: "holds L (files (it_wal it0)) (unat (it_position it0)) (crc_frame_new hash t)"
    using extends_holds [OF ok0(2) skip.hyps(4)] ok0(3) by simp
  obtain it1 where n: "it_next hash it0 = Inr (it1, Inr (entry_at (Q, t)))"
      "it_moved L it0 it1 (Q + al L (frame_size t))"
    using it_next_frame [OF skip.prems(1) ok0(1) skip.hyps(1) h0] b(1) ok0(3) by auto
  obtain it2 b where "read_one hash it0 = Inr (it2, Inr b)"
    using read_one_of_next [OF skip.prems(1) ok0(1) skip.hyps(1) h0] b(2) ok0(3) by auto
  then have nx: "it_next hash it = Inr (it1, Inr (entry_at (Q, t)))" using it0(2) n(1) by simp
  have it1: "it_ok L it1" "extends L fs (files (it_wal it1))"
      "unat (it_position it1) = Q + al L (frame_size t)"
    using n(2) extends_trans [OF ok0(2)] by (auto simp: it_moved_def)
  show ?case
    by (rule iterate_step [OF nx it_moved_trans [OF it0(1) n(2)] skip.IH [OF skip.prems(1-4) it1]])
qed

section \<open>The writer\<close>

fun frames_at :: "wal_layout \<Rightarrow> nat \<Rightarrow> bytes list \<Rightarrow> (nat \<times> bytes) list" where
  "frames_at L P [] = []"
| "frames_at L P (t # ts) = (P, t) # frames_at L (P + al L (frame_size t)) ts"

definition total_len :: "wal_layout \<Rightarrow> bytes list \<Rightarrow> nat" where
  "total_len L ts = sum_list (map (\<lambda>t. al L (frame_size t)) ts)"

lemma total_len_Cons [simp]: "total_len L (t # ts) = al L (frame_size t) + total_len L ts"
  "total_len L [] = 0"
  by (simp_all add: total_len_def)

lemma total_len_aligned: "alignment L dvd total_len L ts" "8 dvd total_len L ts"
  by (induction ts) (auto simp: al_props)

lemma frames_len_eq:
  assumes "\<forall>t \<in> set ts. payload_ok t" "total_len L ts < 2 ^ 32"
  shows "unat (frames_len L (map (crc_frame_new hash) ts)) = total_len L ts"
  using assms
proof (induction ts)
  case (Cons t ts)
  have "unat (align L (of_nat (frame_size t))) = al L (frame_size t)"
    using Cons.prems unat_align_frame(1) by simp
  moreover have "frames_len L (map (crc_frame_new hash) (t # ts)) =
      align L (of_nat (frame_size t)) + frames_len L (map (crc_frame_new hash) ts)"
    by (simp add: frames_len_def frame_size_def)
  ultimately show ?case
    using Cons unat_plus [of "align L (of_nat (frame_size t))" "frames_len L (map (crc_frame_new hash) ts)"]
    by simp
qed (simp add: frames_len_def)

text \<open>The loop of \<open>multi_write\<close> inside one fragment.\<close>

lemma write_frames_spec:
  assumes "layout_wf L" "frag_ok L m" "covered L fs m" "\<forall>t \<in> set ts. payload_ok t"
    and "off + total_len L ts \<le> FRAG L" "unat pos = unat m * FRAG L + off"
    and "unat pos + total_len L ts < 2 ^ 64"
  shows "\<exists>fs'. write_frames L fs m pos off (map (crc_frame_new hash) ts)
      = Inr (fs', map (\<lambda>e. fst (entry_at e)) (frames_at L (unat pos) ts))
    \<and> (\<forall>A. A < unat pos \<or> unat pos + total_len L ts \<le> A \<longrightarrow> byte_at L fs' A = byte_at L fs A)
    \<and> log_run L hash fs' (unat pos) (frames_at L (unat pos) ts) (unat pos + total_len L ts)
    \<and> (\<forall>m'. covered L fs' m' \<longleftrightarrow> covered L fs m') \<and> (sm_wf fs \<longrightarrow> sm_wf fs')"
  using assms
proof (induction ts arbitrary: fs pos off)
  case Nil
  then show ?case by (auto intro: log_run.blank)
next
  case (Cons t ts)
  let ?a = "al L (frame_size t)" and ?w = "crc_frame_new hash t" and ?P = "unat pos"
  have t: "payload_ok t" and len: "length ?w \<le> ?a" "length ?w = frame_size t"
    using Cons.prems(4) al_props(1) [of "frame_size t" L] by (simp_all add: frame_size_def)
  have fit: "off + length ?w \<le> FRAG L" using len Cons.prems(5) by simp
  obtain fs1 where w: "write_buf_at L fs m off ?w = Inr fs1"
      "\<forall>A. byte_at L fs1 A = (if ?P \<le> A \<and> A < ?P + length ?w then Some (?w ! (A - ?P)) else byte_at L fs A)"
      "\<forall>m'. covered L fs1 m' \<longleftrightarrow> covered L fs m'" "sm_wf fs \<longrightarrow> sm_wf fs1"
    using write_buf_at_spec [OF Cons.prems(1-3) fit] unfolding Cons.prems(6) [symmetric] by blast
  have "0 < frame_size t" by (simp add: frame_size_def CRC_HEADER_LENGTH_def)
  then have "off < FRAG L" using Cons.prems(5) len by simp
  then have mod: "?P mod FRAG L + frame_size t \<le> FRAG L"
    using Cons.prems(5,6) len by simp
  have h1: "holds L fs1 ?P ?w"
    using write_holds(1) [of L fs1 ?P ?w fs] w(2) mod by (simp add: frame_size_def)
  let ?q = "pos + align L (of_nat (frame_size t))"
  have ua: "unat (align L (of_nat (frame_size t))) = ?a" using unat_align_frame(1) [OF t] .
  have "?P + ?a < 2 ^ 64" using Cons.prems(7) by simp
  then have uq: "unat ?q = ?P + ?a"
    using unat_plus [of pos "align L (of_nat (frame_size t))"] unfolding ua by blast
  have "\<exists>fs'. write_frames L fs1 m ?q (off + ?a) (map (crc_frame_new hash) ts)
      = Inr (fs', map (\<lambda>e. fst (entry_at e)) (frames_at L (unat ?q) ts))
    \<and> (\<forall>A. A < unat ?q \<or> unat ?q + total_len L ts \<le> A \<longrightarrow> byte_at L fs' A = byte_at L fs1 A)
    \<and> log_run L hash fs' (unat ?q) (frames_at L (unat ?q) ts) (unat ?q + total_len L ts)
    \<and> (\<forall>m'. covered L fs' m' \<longleftrightarrow> covered L fs1 m') \<and> (sm_wf fs1 \<longrightarrow> sm_wf fs')"
    using Cons.prems w(3) uq by (intro Cons.IH) auto
  then obtain fs2 where f2:
    "write_frames L fs1 m ?q (off + ?a) (map (crc_frame_new hash) ts)
      = Inr (fs2, map (\<lambda>e. fst (entry_at e)) (frames_at L (?P + ?a) ts))"
    "\<forall>A. A < ?P + ?a \<or> ?P + ?a + total_len L ts \<le> A \<longrightarrow> byte_at L fs2 A = byte_at L fs1 A"
    "log_run L hash fs2 (?P + ?a) (frames_at L (?P + ?a) ts) (?P + ?a + total_len L ts)"
    "\<forall>m'. covered L fs2 m' \<longleftrightarrow> covered L fs1 m'" "sm_wf fs1 \<longrightarrow> sm_wf fs2"
    unfolding uq by blast
  have "length ?w < 2 ^ 30" using t by (simp add: payload_ok_def frame_size_def)
  then have run: "write_frames L fs m pos off (map (crc_frame_new hash) (t # ts))
      = Inr (fs2, map (\<lambda>e. fst (entry_at e)) (frames_at L ?P (t # ts)))"
    by (simp add: Let_def entry_at_def w(1) f2(1) ua len(2) del: length_crc_frame_new)
  have "holds L fs2 ?P ?w"
    using f2(2) len by (intro holds_cong [where E = "?P + ?a", OF _ h1]) auto
  then have "log_run L hash fs2 ?P (frames_at L ?P (t # ts)) (?P + total_len L (t # ts))"
    using t f2(3) by (auto intro: log_run.frame simp: add.assoc)
  moreover have "byte_at L fs2 A = byte_at L fs A" if "A < ?P \<or> ?P + total_len L (t # ts) \<le> A" for A
    using that f2(2) w(2) len(1) by auto
  ultimately show ?case
    using run w(3,4) f2(4,5) by (intro exI [of _ fs2] conjI) (assumption | simp)+
qed

text \<open>A fragment the writer can write: mapped, writeable, and covered by its file.\<close>

definition map_avail :: "wal \<Rightarrow> map_id \<Rightarrow> bool" where
  "map_avail W m \<longleftrightarrow> covered (layout W) (files W) m
   \<and> (case map_of (maps W) m of None \<Rightarrow> False | Some w \<Rightarrow> writeable w)"

definition writer_ok :: "wal_layout \<Rightarrow> wal_writer \<Rightarrow> bool" where
  "writer_ok L ww \<longleftrightarrow> layout (ww_wal ww) = L \<and> alloc_layout (ww_allocator ww) = L
   \<and> 8 dvd unat (alloc_position (ww_allocator ww)) \<and> sm_wf (files (ww_wal ww))"

definition writer_ready :: "wal_layout \<Rightarrow> wal_writer \<Rightarrow> bool" where
  "writer_ready L ww \<longleftrightarrow> writer_ok L ww
   \<and> zero_from L (files (ww_wal ww)) (unat (alloc_position (ww_allocator ww)))"

definition batch_ok :: "wal_layout \<Rightarrow> bytes list \<Rightarrow> bool" where
  "batch_ok L ts \<longleftrightarrow> ts \<noteq> [] \<and> list_all payload_ok ts \<and> total_len L ts \<le> FRAG L"

lemma get_writeable_map_avail:
  assumes "layout_wf L" "layout W = L" "map_avail W (fst (locate L q))"
  shows "get_writeable_map W q = Some (Inr (fst (locate L q), unat (snd (locate L q))))"
  using assms(2,3) by (auto simp: get_writeable_map_def map_avail_def split_beta split: option.splits)

lemma skip_then_run:
  assumes "log_run L hash fs S ((S, t) # es) E" "holds L fs P skip_marker"
    and "S = (P div FRAG L + 1) * FRAG L" "0 < FRAG L"
  shows "log_run L hash fs P ((S, t) # es) E"
  using assms(1)
proof (cases rule: log_run.cases)
  case frame
  then show ?thesis using assms(2,3) log_run.skip by blast
next
  case skip
  have "(S div FRAG L + 1) * FRAG L = FRAG L + S div FRAG L * FRAG L" by simp
  then show ?thesis using skip(3) dividend_less_div_times [OF assms(4), of S] by linarith
qed

lemma write_at_position:
  assumes "layout_wf L" "unat p + FRAG L \<le> 2 ^ 64" "covered L fs (fst (locate L p))"
    and "unat p mod FRAG L + length buf \<le> FRAG L"
  shows "\<exists>fs'. write_buf_at L fs (fst (locate L p)) (unat (snd (locate L p))) buf = Inr fs'
    \<and> holds L fs' (unat p) buf
    \<and> (\<forall>A. A < unat p \<or> unat p + length buf \<le> A \<longrightarrow> byte_at L fs' A = byte_at L fs A)
    \<and> (\<forall>m. covered L fs' m \<longleftrightarrow> covered L fs m) \<and> (sm_wf fs \<longrightarrow> sm_wf fs')"
proof -
  let ?m = "fst (locate L p)" and ?o = "unat (snd (locate L p))"
  note lf = locate_frag [OF assms(1,2)]
  have p: "unat ?m * FRAG L + ?o = unat p" by (simp add: lf)
  have o: "?o + length buf \<le> FRAG L" using assms(4) lf(2) by simp
  obtain fs' where w: "write_buf_at L fs ?m ?o buf = Inr fs'
      \<and> (\<forall>A. byte_at L fs' A = (if unat p \<le> A \<and> A < unat p + length buf
           then Some (buf ! (A - unat p)) else byte_at L fs A))
      \<and> (\<forall>m. covered L fs' m \<longleftrightarrow> covered L fs m)
      \<and> (\<forall>i. map_of fs' i = None \<longleftrightarrow> map_of fs i = None) \<and> (sm_wf fs \<longrightarrow> sm_wf fs')"
    using write_buf_at_spec [OF assms(1) lf(3) assms(3) o] unfolding p ..
  have b: "byte_at L fs' A = (if unat p \<le> A \<and> A < unat p + length buf
      then Some (buf ! (A - unat p)) else byte_at L fs A)" for A
    using w by blast
  have "holds L fs' (unat p) buf" using write_holds(1) [OF b] assms(4) .
  moreover have "byte_at L fs' A = byte_at L fs A" if "A < unat p \<or> unat p + length buf \<le> A" for A
    using that b [of A] by auto
  ultimately show ?thesis using w by (intro exI [of _ fs'] conjI allI impI) simp_all
qed

lemma write_skip_marker_spec:
  assumes "layout_wf L" "layout W = L" "unat p + FRAG L \<le> 2 ^ 64" "map_avail W (fst (locate L p))"
    and "unat p mod FRAG L + 8 \<le> FRAG L"
  shows "\<exists>fs. write_skip_marker W p = Some (Inr (W\<lparr>files := fs\<rparr>)) \<and> holds L fs (unat p) skip_marker
    \<and> (\<forall>A. A < unat p \<or> unat p + 8 \<le> A \<longrightarrow> byte_at L fs A = byte_at L (files W) A)
    \<and> (\<forall>m. covered L fs m \<longleftrightarrow> covered L (files W) m) \<and> (sm_wf (files W) \<longrightarrow> sm_wf fs)"
proof -
  have c: "covered L (files W) (fst (locate L p))" using assms(2,4) by (simp add: map_avail_def)
  have len: "length skip_marker = 8" by (simp add: CRC_HEADER_LENGTH_def)
  obtain fs where w: "write_buf_at L (files W) (fst (locate L p)) (unat (snd (locate L p))) skip_marker = Inr fs
      \<and> holds L fs (unat p) skip_marker
      \<and> (\<forall>A. A < unat p \<or> unat p + 8 \<le> A \<longrightarrow> byte_at L fs A = byte_at L (files W) A)
      \<and> (\<forall>m. covered L fs m \<longleftrightarrow> covered L (files W) m) \<and> (sm_wf (files W) \<longrightarrow> sm_wf fs)"
    using write_at_position [OF assms(1,3) c, of skip_marker] assms(5) unfolding len by blast
  then have "write_skip_marker W p = Some (Inr (W\<lparr>files := fs\<rparr>))"
    using get_writeable_map_avail [OF assms(1,2,4)] assms(2)
    by (simp add: write_skip_marker_def bindb_def)
  then show ?thesis using w by (intro exI [of _ fs] conjI) simp_all
qed

text \<open>One call: the block lands where the allocator puts it, a skip marker closes the fragment it
  leaves, and the log is blank again after it.\<close>

lemma alloc_frames:
  assumes "layout_wf L" "batch_ok L ts" "alloc_layout A = L" "unat (alloc_position A) + 2 * FRAG L \<le> 2 ^ 64"
  shows "\<exists>r. allocate A (frames_len L (map (crc_frame_new hash) ts))
        = Inr (A\<lparr>alloc_position := ar_next_position r\<rparr>, r)
    \<and> previous_position r = alloc_position A
    \<and> unat (allocated_position r) = next_start (FRAG L) (unat (alloc_position A)) (total_len L ts)
    \<and> unat (ar_next_position r) = unat (allocated_position r) + total_len L ts
    \<and> 0 < total_len L ts \<and> total_len L ts \<le> FRAG L"
proof -
  let ?N = "total_len L ts" and ?w = "frames_len L (map (crc_frame_new hash) ts)"
  note l = layout_wfD [OF assms(1)]
  obtain t ts' where ts: "ts = t # ts'" using assms(2) by (cases ts) (auto simp: batch_ok_def)
  have N: "0 < ?N" "?N \<le> FRAG L"
    using assms(2) al_props(1) [of "frame_size t" L] ts
    by (auto simp: batch_ok_def frame_size_def CRC_HEADER_LENGTH_def)
  have uw: "unat ?w = ?N"
    using frames_len_eq [of ts L hash] assms(2) N(2) l(2) by (simp add: batch_ok_def list_all_iff)
  have "unat (align L ?w) = ?N"
    using unat_align_al [of ?w L] uw N(2) l(2) round_up_fixed [of "alignment L" ?N] total_len_aligned(1) [of L ts]
    by (simp add: al_def alignment_def split: if_splits)
  then have la: "align L ?w = ?w" using uw by (simp add: word_unat_eq_iff)
  obtain r where r: "allocate_at L ?w (alloc_position A) = Inr r" "previous_position r = alloc_position A"
      "len_aligned r = align L ?w" "block_ok L r"
    using allocate_at_spec [OF l(6) _ _ assms(4), of ?w] uw N by auto
  obtain q where q: "next_position L (alloc_position A) ?w = Inr q"
      "unat q = next_start (FRAG L) (unat (alloc_position A)) ?N"
    using next_position_spec [OF l(6) _ _ assms(4), of ?w] uw N by auto
  have "allocated_position r = q" using r(1) q(1) la by (auto simp: allocate_at_def)
  with r q uw la N show ?thesis
    by (intro exI [of _ r]) (simp add: allocate_def assms(3) block_ok_def)
qed

lemma next_start_skip:
  assumes "next_start F P N \<noteq> P"
  shows "next_start F P N = (P div F + 1) * F"
  using assms by (auto simp: next_start_def split: if_splits)

lemma aligned_room: "8 dvd P \<Longrightarrow> 8 dvd F \<Longrightarrow> 0 < F \<Longrightarrow> P mod F + 8 \<le> (F :: nat)"
proof -
  assume a: "8 dvd P" "8 dvd F" "0 < F"
  then have "8 dvd P mod F" by (simp add: dvd_mod)
  then obtain x y where "P mod F = 8 * x" "F = 8 * y" using a(2) by (auto elim!: dvdE)
  moreover have "P mod F < F" using a(3) by simp
  ultimately show ?thesis by simp
qed

lemma div_near: "0 < F \<Longrightarrow> a \<le> b + k * F \<Longrightarrow> a div F \<le> b div F + (k :: nat)"
  using div_le_mono [of a "b + k * F" F] by simp

lemma skip_phase:
  assumes "layout_wf L" "layout W = L" "sm_wf (files W)" "unat p + FRAG L \<le> 2 ^ 64"
    and "map_avail W (fst (locate L p))" "previous_position r = p"
    and "unat p mod FRAG L + 8 \<le> FRAG L"
    and "unat (allocated_position r) = next_start (FRAG L) (unat p) N"
  defines "S \<equiv> next_start (FRAG L) (unat p) N"
  shows "\<exists>fs1. (case need_skip_marker r of None \<Rightarrow> Some (Inr W) | Some x \<Rightarrow> write_skip_marker W x)
        = Some (Inr (W\<lparr>files := fs1\<rparr>))
    \<and> (\<forall>A. A < unat p \<or> S \<le> A \<longrightarrow> byte_at L fs1 A = byte_at L (files W) A)
    \<and> (\<forall>m. covered L fs1 m \<longleftrightarrow> covered L (files W) m) \<and> sm_wf fs1
    \<and> (S \<noteq> unat p \<longrightarrow> holds L fs1 (unat p) skip_marker)"
proof (cases "allocated_position r = p")
  case True
  then show ?thesis
    using assms(3,6,8) by (intro exI [of _ "files W"]) (simp add: need_skip_marker_def S_def)
next
  case False
  have "S \<noteq> unat p" using False assms(8) by (auto simp: word_unat_eq_iff S_def)
  then have "unat p + 8 \<le> S"
    using next_start_skip next_frag_start [OF assms(7)] unfolding S_def by simp
  moreover obtain fs1 where "write_skip_marker W p = Some (Inr (W\<lparr>files := fs1\<rparr>))
      \<and> holds L fs1 (unat p) skip_marker
      \<and> (\<forall>A. A < unat p \<or> unat p + 8 \<le> A \<longrightarrow> byte_at L fs1 A = byte_at L (files W) A)
      \<and> (\<forall>m. covered L fs1 m \<longleftrightarrow> covered L (files W) m) \<and> (sm_wf (files W) \<longrightarrow> sm_wf fs1)"
    using write_skip_marker_spec [OF assms(1,2,4,5,7)] by blast
  ultimately show ?thesis
    using False assms(3,6) by (intro exI [of _ fs1]) (auto simp: need_skip_marker_def)
qed

lemma multi_write_spec:
  assumes "layout_wf L" "writer_ok L ww" "batch_ok L ts" "P = unat (alloc_position (ww_allocator ww))"
    and "P + 2 * FRAG L \<le> 2 ^ 64"
    and avail: "\<And>m. P div FRAG L \<le> unat m \<Longrightarrow> unat m \<le> P div FRAG L + 1 \<Longrightarrow> map_avail (ww_wal ww) m"
  defines "S \<equiv> next_start (FRAG L) P (total_len L ts)"
  shows "\<exists>ww'. multi_write ww (map (crc_frame_new hash) ts)
        = Some (Inr (ww', map (\<lambda>e. fst (entry_at e)) (frames_at L S ts)))
    \<and> writer_ok L ww' \<and> unat (alloc_position (ww_allocator ww')) = S + total_len L ts
    \<and> log_run L hash (files (ww_wal ww')) P (frames_at L S ts) (S + total_len L ts)
    \<and> (\<forall>A. A < P \<or> S + total_len L ts \<le> A
          \<longrightarrow> byte_at L (files (ww_wal ww')) A = byte_at L (files (ww_wal ww)) A)
    \<and> (\<forall>m. map_avail (ww_wal ww') m \<longleftrightarrow> map_avail (ww_wal ww) m)"
proof -
  let ?W = "ww_wal ww" and ?A = "ww_allocator ww" and ?N = "total_len L ts"
  note l = layout_wfD [OF assms(1)]
  have rd: "layout ?W = L" "alloc_layout ?A = L" "8 dvd P" "sm_wf (files ?W)"
    using assms(2,4) by (auto simp: writer_ok_def)
  obtain r where r: "allocate ?A (frames_len L (map (crc_frame_new hash) ts))
        = Inr (?A\<lparr>alloc_position := ar_next_position r\<rparr>, r)"
      "previous_position r = alloc_position ?A" "unat (allocated_position r) = S"
      "unat (ar_next_position r) = S + ?N" "0 < ?N" "?N \<le> FRAG L"
    using alloc_frames [OF assms(1,3) rd(2), of hash] assms(4,5) unfolding S_def by auto
  let ?p = "alloc_position ?A" and ?q = "allocated_position r"
  note ns = next_start_props [OF r(5,6), of P, folded S_def]
  have room: "P mod FRAG L + 8 \<le> FRAG L" using aligned_room [OF rd(3) l(5,1)] .
  have bq: "unat ?q + FRAG L \<le> 2 ^ 64" "S + ?N < 2 ^ 64" using ns(2) r(3,6) assms(5) l(1) by linarith+
  have mp: "map_avail ?W (fst (locate L ?p))"
    using avail [of "fst (locate L ?p)"] assms(4) by (simp add: locate_def unat_div)
  have "S div FRAG L \<le> P div FRAG L + 1" using div_near [OF l(1), of S P 1] ns(2) by simp
  moreover have "P div FRAG L \<le> S div FRAG L" using ns(1) by (rule div_le_mono)
  moreover have "unat (fst (locate L ?q)) = S div FRAG L" by (simp only: locate_def fst_conv unat_div r(3))
  ultimately have mq: "map_avail ?W (fst (locate L ?q))" by (intro avail) (simp_all only:)
  have "\<exists>fs1. (case need_skip_marker r of None \<Rightarrow> Some (Inr ?W) | Some x \<Rightarrow> write_skip_marker ?W x)
        = Some (Inr (?W\<lparr>files := fs1\<rparr>))
    \<and> (\<forall>A. A < P \<or> S \<le> A \<longrightarrow> byte_at L fs1 A = byte_at L (files ?W) A)
    \<and> (\<forall>m. covered L fs1 m \<longleftrightarrow> covered L (files ?W) m) \<and> sm_wf fs1
    \<and> (S \<noteq> P \<longrightarrow> holds L fs1 P skip_marker)"
    using skip_phase [OF assms(1) rd(1,4) _ mp r(2), of "?N"] room r(3) assms(4,5)
    unfolding S_def by simp
  then obtain fs1 where f1:
    "(case need_skip_marker r of None \<Rightarrow> Some (Inr ?W) | Some x \<Rightarrow> write_skip_marker ?W x)
        = Some (Inr (?W\<lparr>files := fs1\<rparr>))"
    "\<forall>A. A < P \<or> S \<le> A \<longrightarrow> byte_at L fs1 A = byte_at L (files ?W) A"
    "\<forall>m. covered L fs1 m \<longleftrightarrow> covered L (files ?W) m" "sm_wf fs1" "S \<noteq> P \<longrightarrow> holds L fs1 P skip_marker"
    by blast
  let ?m = "fst (locate L ?q)" and ?o = "unat (snd (locate L ?q))"
  note lq = locate_frag [OF assms(1) bq(1)]
  have c: "covered L fs1 ?m" using mq f1(3) rd(1) by (simp add: map_avail_def)
  have o: "?o + ?N \<le> FRAG L" "unat ?q = unat ?m * FRAG L + ?o" using ns(3) r(3) lq(1,2) by simp_all
  have po: "\<forall>t \<in> set ts. payload_ok t" using assms(3) by (simp add: batch_ok_def list_all_iff)
  have "unat ?q + ?N < 2 ^ 64" using bq(2) r(3) by simp
  from write_frames_spec [OF assms(1) lq(3) c po o this, of hash]
  obtain fs2 where f2: "write_frames L fs1 ?m ?q ?o (map (crc_frame_new hash) ts)
        = Inr (fs2, map (\<lambda>e. fst (entry_at e)) (frames_at L S ts))
      \<and> (\<forall>A. A < S \<or> S + ?N \<le> A \<longrightarrow> byte_at L fs2 A = byte_at L fs1 A)
      \<and> log_run L hash fs2 S (frames_at L S ts) (S + ?N)
      \<and> (\<forall>m'. covered L fs2 m' \<longleftrightarrow> covered L fs1 m') \<and> (sm_wf fs1 \<longrightarrow> sm_wf fs2)"
    unfolding r(3) ..
  let ?ww = "\<lparr>ww_wal = ?W\<lparr>files := fs2\<rparr>, ww_allocator = ?A\<lparr>alloc_position := ar_next_position r\<rparr>\<rparr>"
  have avl: "map_avail (?W\<lparr>files := fs2\<rparr>) m \<longleftrightarrow> map_avail ?W m"
    "map_avail (?W\<lparr>files := fs1\<rparr>) m \<longleftrightarrow> map_avail ?W m" for m
    using f1(3) f2 rd(1) by (simp_all add: map_avail_def)
  have g: "get_writeable_map (?W\<lparr>files := fs1\<rparr>) ?q = Some (Inr (?m, ?o))"
    using get_writeable_map_avail [OF assms(1), of "?W\<lparr>files := fs1\<rparr>" ?q] avl(2) mq rd(1) by simp
  have run: "multi_write ww (map (crc_frame_new hash) ts)
      = Some (Inr (?ww, map (\<lambda>e. fst (entry_at e)) (frames_at L S ts)))"
    using r(1) f1(1) g f2 rd(1) by (simp add: multi_write_def bindb_def Let_def)
  have log: "log_run L hash fs2 P (frames_at L S ts) (S + ?N)"
  proof (cases "S = P")
    case False
    then have h1: "holds L fs1 P skip_marker" and S: "S = (P div FRAG L + 1) * FRAG L"
      using f1(5) next_start_skip unfolding S_def by blast+
    have le: "P + length skip_marker \<le> S"
      using next_frag_start [OF room] unfolding S by (simp add: CRC_HEADER_LENGTH_def)
    have same: "byte_at L fs2 A = byte_at L fs1 A" if "A < S" for A using f2 that by blast
    have h2: "holds L fs2 P skip_marker" by (rule holds_cong [OF same h1 le])
    obtain t ts' where ts: "ts = t # ts'" using assms(3) by (cases ts) (auto simp: batch_ok_def)
    have "log_run L hash fs2 S ((S, t) # frames_at L (S + al L (frame_size t)) ts') (S + ?N)"
      using f2 unfolding ts frames_at.simps by blast
    from skip_then_run [OF this h2 S l(1)] show ?thesis unfolding ts frames_at.simps .
  qed (use f2 in simp)
  have "8 dvd S + ?N"
    using rd(3) l(5) total_len_aligned(2) [of L ts] by (auto simp: S_def next_start_def)
  then have "writer_ok L ?ww" using rd f1(4) f2 r(4) by (simp add: writer_ok_def)
  moreover have "\<forall>A. A < P \<or> S + ?N \<le> A \<longrightarrow> byte_at L fs2 A = byte_at L (files ?W) A"
    using f1(2) f2 ns(1) by simp
  ultimately show ?thesis
    using run log avl(1) r(4) by (intro exI [of _ ?ww] conjI allI) simp_all
qed

section \<open>A session of writes\<close>

fun write_all :: "wal_writer \<Rightarrow> bytes list list \<Rightarrow> (wal_writer \<times> wal_position list) blk" where
  "write_all ww [] = Some (Inr (ww, []))"
| "write_all ww (ws # wss) =
     bindb (multi_write ww ws) (\<lambda>(ww, gs).
     bindb (write_all ww wss) (\<lambda>(ww, gs'). Some (Inr (ww, gs @ gs'))))"

lemma frames_at_payloads [simp]: "map snd (frames_at L S ts) = ts"
  by (induction ts arbitrary: S) auto

lemma write_all_spec:
  assumes "layout_wf L" "writer_ready L ww" "list_all (batch_ok L) tss"
    and "P = unat (alloc_position (ww_allocator ww))" "P + 2 * FRAG L * length tss \<le> 2 ^ 64"
    and "\<And>m. P div FRAG L \<le> unat m \<Longrightarrow> unat m \<le> P div FRAG L + 2 * length tss \<Longrightarrow> map_avail (ww_wal ww) m"
  shows "\<exists>ww' es. write_all ww (map (map (crc_frame_new hash)) tss)
        = Some (Inr (ww', map (\<lambda>e. fst (entry_at e)) es))
    \<and> map snd es = concat tss \<and> writer_ready L ww'
    \<and> log_run L hash (files (ww_wal ww')) P es (unat (alloc_position (ww_allocator ww')))
    \<and> unat (alloc_position (ww_allocator ww')) \<le> P + 2 * FRAG L * length tss
    \<and> (\<forall>A < P. byte_at L (files (ww_wal ww')) A = byte_at L (files (ww_wal ww)) A)
    \<and> (\<forall>m. map_avail (ww_wal ww') m \<longleftrightarrow> map_avail (ww_wal ww) m)"
  using assms
proof (induction tss arbitrary: ww P)
  case Nil
  then show ?case by (intro exI [of _ ww] exI [of _ "[]"]) (auto intro: log_run.blank)
next
  case (Cons ts tss)
  note l = layout_wfD [OF Cons.prems(1)]
  let ?S = "next_start (FRAG L) P (total_len L ts)" and ?N = "total_len L ts"
  have b: "batch_ok L ts" "list_all (batch_ok L) tss" using Cons.prems(3) by simp_all
  have bnd: "P + 2 * FRAG L \<le> 2 ^ 64" using Cons.prems(5) by simp
  have av: "map_avail (ww_wal ww) m" if "P div FRAG L \<le> unat m" "unat m \<le> P div FRAG L + 1" for m
    using Cons.prems(6) that by simp
  obtain ww1 where w1: "multi_write ww (map (crc_frame_new hash) ts)
        = Some (Inr (ww1, map (\<lambda>e. fst (entry_at e)) (frames_at L ?S ts)))
    \<and> writer_ok L ww1 \<and> unat (alloc_position (ww_allocator ww1)) = ?S + ?N
    \<and> log_run L hash (files (ww_wal ww1)) P (frames_at L ?S ts) (?S + ?N)
    \<and> (\<forall>A. A < P \<or> ?S + ?N \<le> A
          \<longrightarrow> byte_at L (files (ww_wal ww1)) A = byte_at L (files (ww_wal ww)) A)
    \<and> (\<forall>m. map_avail (ww_wal ww1) m \<longleftrightarrow> map_avail (ww_wal ww) m)"
    using multi_write_spec [OF Cons.prems(1) _ b(1) Cons.prems(4) bnd av, of hash] Cons.prems(2)
    unfolding writer_ready_def by blast
  have N: "0 < ?N" "?N \<le> FRAG L"
    using alloc_frames [OF Cons.prems(1) b(1), of "ww_allocator ww"] Cons.prems(2,4) bnd
    by (auto simp: writer_ready_def writer_ok_def)
  note ns = next_start_props [OF N, of P]
  have E1: "P \<le> ?S + ?N" "?S + ?N \<le> P + 2 * FRAG L" using ns(1,2) N by linarith+
  have "zero_from L (files (ww_wal ww1)) (?S + ?N)"
    using w1 Cons.prems(2,4) E1(1) unfolding writer_ready_def zero_from_def by simp
  then have rdy: "writer_ready L ww1" using w1 by (simp add: writer_ready_def)
  have div: "P div FRAG L \<le> (?S + ?N) div FRAG L" "(?S + ?N) div FRAG L \<le> P div FRAG L + 2"
  proof -
    show "P div FRAG L \<le> (?S + ?N) div FRAG L" using E1(1) by (rule div_le_mono)
    show "(?S + ?N) div FRAG L \<le> P div FRAG L + 2" using l(1) E1(2) by (rule div_near)
  qed
  have "\<exists>ww' es. write_all ww1 (map (map (crc_frame_new hash)) tss)
        = Some (Inr (ww', map (\<lambda>e. fst (entry_at e)) es))
    \<and> map snd es = concat tss \<and> writer_ready L ww'
    \<and> log_run L hash (files (ww_wal ww')) (?S + ?N) es (unat (alloc_position (ww_allocator ww')))
    \<and> unat (alloc_position (ww_allocator ww')) \<le> ?S + ?N + 2 * FRAG L * length tss
    \<and> (\<forall>A < ?S + ?N. byte_at L (files (ww_wal ww')) A = byte_at L (files (ww_wal ww1)) A)
    \<and> (\<forall>m. map_avail (ww_wal ww') m \<longleftrightarrow> map_avail (ww_wal ww1) m)"
    using w1 rdy b(2) Cons.prems(1,5,6) E1(2) div by (intro Cons.IH) auto
  then obtain ww2 es where w2: "write_all ww1 (map (map (crc_frame_new hash)) tss)
        = Some (Inr (ww2, map (\<lambda>e. fst (entry_at e)) es))"
    "map snd es = concat tss" "writer_ready L ww2"
    "log_run L hash (files (ww_wal ww2)) (?S + ?N) es (unat (alloc_position (ww_allocator ww2)))"
    "unat (alloc_position (ww_allocator ww2)) \<le> ?S + ?N + 2 * FRAG L * length tss"
    "\<forall>A < ?S + ?N. byte_at L (files (ww_wal ww2)) A = byte_at L (files (ww_wal ww1)) A"
    "\<forall>m. map_avail (ww_wal ww2) m \<longleftrightarrow> map_avail (ww_wal ww1) m"
    by blast
  have "log_run L hash (files (ww_wal ww2)) P (frames_at L ?S ts) (?S + ?N)"
    using log_run_cong [of L hash "files (ww_wal ww1)"] w1 w2(6) by blast
  from log_run_append [OF this w2(4)]
  have log: "log_run L hash (files (ww_wal ww2)) P (frames_at L ?S ts @ es)
      (unat (alloc_position (ww_allocator ww2)))" .
  have run: "write_all ww (map (map (crc_frame_new hash)) (ts # tss))
      = Some (Inr (ww2, map (\<lambda>e. fst (entry_at e)) (frames_at L ?S ts @ es)))"
    using w1 w2(1) by (simp add: bindb_def)
  have "unat (alloc_position (ww_allocator ww2)) \<le> P + 2 * FRAG L * length (ts # tss)"
    using w2(5) E1(2) by simp
  then show ?case
    using run log w1 w2 E1(1)
    by (intro exI [of _ ww2] exI [of _ "frames_at L ?S ts @ es"] conjI) simp_all
qed

lemma iterator_new_ok:
  assumes "layout_wf L" "layout W = L" "covered L (files W) (fst (locate L p))" "sm_wf (files W)"
    and "unat p + FRAG L \<le> 2 ^ 64" "0 < max_maps L"
  shows "\<exists>it. iterator_new W p fw = Inr it \<and> it_ok L it \<and> it_position it = p
    \<and> extends L (files W) (files (it_wal it))"
proof -
  let ?m = "fst (locate L p)"
  obtain f where f: "map_of (files W) (file_for_map L ?m) = Some f"
    using assms(3) by (auto simp: covered_def split: option.splits)
  let ?fs = "sm_insert (file_for_map L ?m) (extend_to_map_id L f ?m) (files W)"
  note ex = extend_file_spec [OF assms(1) locate_frag(3) [OF assms(1,5)] f]
  obtain mps where mps: "maps_map L ?m [] = Inr (create_map ?m, mps)" "sm_wf mps"
      "length mps \<le> max_maps L" "\<forall>e \<in> set mps. fst e \<le> ?m"
    using maps_map_fresh [of "[]" ?m L] assms(6) by auto
  let ?it = "\<lparr>it_wal = W\<lparr>files := ?fs\<rparr>, it_maps = (if fw then mps else []), it_map = create_map ?m,
      it_position = p, skip_crc = False, for_writer = fw\<rparr>"
  have "iterator_new W p fw = Inr ?it"
    using f mps(1) assms(2) by (simp add: iterator_new_def make_map_def get_checked_def Let_def)
  moreover have "it_ok L ?it"
    using assms(2,4,6) ex(2) mps by (simp add: it_ok_def create_map_def create_map_impl_def sm_wf_insert)
  ultimately show ?thesis using ex(1) by (intro exI [of _ ?it]) simp
qed

section \<open>Properties\<close>

text \<open>C1. Durable log: after any sequence of \<open>multi_write\<close> calls on a blank log, an iterator opened
  at the start position (for scanning or to become a writer) returns exactly the payloads written,
  in order, at exactly the positions handed to the callers, across fragment and file boundaries
  and skip markers, then stops with a checksum error or the end of the log at the allocator's
  position. None of the writes blocks or panics when its fragments are mapped.\<close>

theorem wal_replay_roundtrip:
  assumes "layout_wf L" "writer_ready L ww" "list_all (batch_ok L) tss" "0 < max_maps L"
    and "P = unat (alloc_position (ww_allocator ww))"
    and "P + 2 * FRAG L * length tss + FRAG L \<le> 2 ^ 64"
    and "\<And>m. P div FRAG L \<le> unat m \<Longrightarrow> unat m \<le> P div FRAG L + 2 * length tss \<Longrightarrow> map_avail (ww_wal ww) m"
  shows "\<exists>ww' gs it it' e.
      write_all ww (map (map (crc_frame_new hash)) tss) = Some (Inr (ww', gs))
    \<and> iterator_new (ww_wal ww') (alloc_position (ww_allocator ww)) fw = Inr it
    \<and> iterate (Suc (length (concat tss))) hash it = Some (Inr (it', zip gs (concat tss), e))
    \<and> e \<in> {Crc CrcMismatch, EndOfWal}
    \<and> it_position it' = alloc_position (ww_allocator ww')"
proof -
  note l = layout_wfD [OF assms(1)]
  have b: "P + 2 * FRAG L * length tss \<le> 2 ^ 64" using assms(6) by linarith
  obtain ww' es where w: "write_all ww (map (map (crc_frame_new hash)) tss)
        = Some (Inr (ww', map (\<lambda>e. fst (entry_at e)) es))"
    "map snd es = concat tss" "writer_ready L ww'"
    "log_run L hash (files (ww_wal ww')) P es (unat (alloc_position (ww_allocator ww')))"
    "unat (alloc_position (ww_allocator ww')) \<le> P + 2 * FRAG L * length tss"
    "\<forall>m. map_avail (ww_wal ww') m \<longleftrightarrow> map_avail (ww_wal ww) m"
    using write_all_spec [OF assms(1-3,5) b assms(7), of hash] by blast
  let ?p = "alloc_position (ww_allocator ww)" and ?W = "ww_wal ww'"
  have "map_avail ?W (fst (locate L ?p))"
    using w(6) assms(5,7) by (simp add: locate_def unat_div)
  then have c: "covered L (files ?W) (fst (locate L ?p))"
    using w(3) by (simp add: map_avail_def writer_ready_def writer_ok_def)
  obtain it where it: "iterator_new ?W ?p fw = Inr it" "it_ok L it" "it_position it = ?p"
      "extends L (files ?W) (files (it_wal it))"
    using iterator_new_ok [OF assms(1) _ c _ _ assms(4), of fw] w(3) assms(5,6)
    by (auto simp: writer_ready_def writer_ok_def)
  have z: "zero_from L (files ?W) (unat (alloc_position (ww_allocator ww')))"
      "8 dvd unat (alloc_position (ww_allocator ww'))"
    using w(3) by (auto simp: writer_ready_def writer_ok_def)
  have b': "unat (alloc_position (ww_allocator ww')) + FRAG L \<le> 2 ^ 64" using w(5) assms(6) by linarith
  obtain it' e where i: "iterate (Suc (length es)) hash it = Some (Inr (it', map entry_at es, e))"
      "e \<in> {Crc CrcMismatch, EndOfWal}" "it_moved L it it' (unat (alloc_position (ww_allocator ww')))"
    using iterate_log [OF w(4) assms(1) z b' it(2,4)] it(3) assms(5) by auto
  have len: "length es = length (concat tss)" using arg_cong [OF w(2), of length] by simp
  have zip: "map entry_at es = zip (map (\<lambda>e. fst (entry_at e)) es) (concat tss)"
    by (simp add: w(2) [symmetric] zip_map_map zip_same_conv_map entry_at_def)
  have pos: "it_position it' = alloc_position (ww_allocator ww')"
    using i(3) by (simp add: it_moved_def word_unat_eq_iff)
  show ?thesis
    using w(1) it(1) i(1) [unfolded len zip] i(2) pos by (intro exI conjI)
qed

text \<open>A log of three 128-byte files with five mapped 64-byte fragments; the second batch does not
  fit behind the first.\<close>

definition tiny_layout :: wal_layout where
  "tiny_layout = \<lparr>frag_size = 64, max_maps = 3, direct_io = False, wal_file_size = 128, kind = Replay\<rparr>"

definition tiny_writer :: wal_writer where
  "tiny_writer =
     \<lparr>ww_wal = \<lparr>files = [(0, replicate 128 0), (1, replicate 128 0), (2, replicate 128 0)],
                layout = tiny_layout,
                maps = map (\<lambda>m. (m, create_map m)) [0, 1, 2, 3, 4]\<rparr>,
      ww_allocator = allocator_new tiny_layout 0\<rparr>"

definition toy_hash :: "bytes \<Rightarrow> u32" where
  "toy_hash b = of_nat (length b)"

lemma zero_from_zero_files: "list_all (\<lambda>e. \<exists>n. snd e = replicate n 0) fs \<Longrightarrow> zero_from L fs E"
proof -
  assume z: "list_all (\<lambda>e. \<exists>n. snd e = replicate n 0) fs"
  have "f ! k = 0" if "map_of fs i = Some f" "k < length f" for i f k
  proof -
    have "\<exists>n. f = replicate n 0" using z map_of_SomeD [OF that(1)] by (auto simp: list_all_iff)
    then show ?thesis using that(2) by auto
  qed
  then show ?thesis by (auto simp: zero_from_def byte_at_def split: option.splits)
qed

lemma tiny_avail: "unat m \<le> 4 \<Longrightarrow> map_avail (ww_wal tiny_writer) m"
proof -
  assume "unat m \<le> 4"
  then have "unat m = 0 \<or> unat m = 1 \<or> unat m = 2 \<or> unat m = 3 \<or> unat m = 4" by linarith
  then have "m = 0 \<or> m = 1 \<or> m = 2 \<or> m = 3 \<or> m = 4" by (simp add: word_unat_eq_iff)
  moreover have "map_avail (ww_wal tiny_writer) 0" "map_avail (ww_wal tiny_writer) 1"
      "map_avail (ww_wal tiny_writer) 2" "map_avail (ww_wal tiny_writer) 3"
      "map_avail (ww_wal tiny_writer) 4"
    by code_simp+
  ultimately show ?thesis by blast
qed

theorem wal_replay_roundtrip_witness:
  "\<exists>ww' gs it it' e.
      write_all tiny_writer (map (map (crc_frame_new toy_hash)) [[replicate 8 1, []], [replicate 40 2]])
        = Some (Inr (ww', gs))
    \<and> iterator_new (ww_wal ww') 0 True = Inr it
    \<and> iterate 4 toy_hash it = Some (Inr (it', zip gs [replicate 8 1, [], replicate 40 2], e))
    \<and> e \<in> {Crc CrcMismatch, EndOfWal} \<and> it_position it' = alloc_position (ww_allocator ww')"
proof -
  have wf: "layout_wf tiny_layout" by code_simp
  have F: "FRAG tiny_layout = 64" "alloc_position (ww_allocator tiny_writer) = 0"
    by (simp_all add: tiny_layout_def tiny_writer_def allocator_new_def)
  have rdy: "writer_ready tiny_layout tiny_writer"
    using zero_from_zero_files [of "files (ww_wal tiny_writer)"]
    by (auto simp: writer_ready_def writer_ok_def tiny_writer_def allocator_new_def)
  have b: "list_all (batch_ok tiny_layout) [[replicate 8 1, []], [replicate 40 2]]"
    by (simp add: batch_ok_def payload_ok_def frame_size_def al_def alignment_def CRC_HEADER_LENGTH_def
        F) (simp add: tiny_layout_def)
  let ?tss = "[[replicate 8 1, []], [replicate 40 2]] :: bytes list list"
  have av: "map_avail (ww_wal tiny_writer) m"
    if "0 div FRAG tiny_layout \<le> unat m" "unat m \<le> 0 div FRAG tiny_layout + 2 * length ?tss" for m
    using tiny_avail that by simp
  have mx: "0 < max_maps tiny_layout" by (simp add: tiny_layout_def)
  have p: "0 = unat (alloc_position (ww_allocator tiny_writer))" by (simp add: F)
  have bnd: "0 + 2 * FRAG tiny_layout * length ?tss + FRAG tiny_layout \<le> 2 ^ 64" by (simp add: F)
  have n: "Suc (length (concat ?tss)) = 4" by simp
  have c: "concat ?tss = [replicate 8 1, [], replicate 40 2]" by simp
  show ?thesis
    using wal_replay_roundtrip [OF wf rdy b mx p bnd av, of toy_hash True]
    unfolding F(2) n unfolding c .
qed

section \<open>Recovery\<close>

text \<open>Turning the iterator into a writer blanks the rest of the fragment it stopped in, and only
  that.\<close>

lemma clear_fragment_effect:
  assumes "layout_wf L" "it_ok L it" "unat p + FRAG L < 2 ^ 64" "wm_id (it_map it) = fst (locate L p)"
  shows "\<exists>it'. clear_fragment_from_position it p = Inr it'
    \<and> holds L (files (it_wal it')) (unat p) (replicate (FRAG L - unat p mod FRAG L) 0)
    \<and> (\<forall>A. A < unat p \<or> (unat p div FRAG L + 1) * FRAG L \<le> A
         \<longrightarrow> byte_at L (files (it_wal it')) A = byte_at L (files (it_wal it)) A)"
proof -
  let ?m = "fst (locate L p)" and ?o = "unat (snd (locate L p))" and ?z = "FRAG L - unat p mod FRAG L"
  note l = layout_wfD [OF assms(1)]
  have b: "unat p + FRAG L \<le> 2 ^ 64" using assms(3) by linarith
  note lf = locate_frag [OF assms(1) b]
  have lay: "layout (it_wal it) = L" and c: "covered L (files (it_wal it)) ?m"
    using assms(2,4) by (auto simp: it_ok_def)
  have z: "0 < ?z" "unat p mod FRAG L + ?z = FRAG L" using mod_less_divisor [OF l(1), of "unat p"] by linarith+
  obtain fs where w: "write_buf_at L (files (it_wal it)) ?m ?o (replicate ?z 0) = Inr fs
      \<and> holds L fs (unat p) (replicate ?z 0)
      \<and> (\<forall>A. A < unat p \<or> unat p + ?z \<le> A \<longrightarrow> byte_at L fs A = byte_at L (files (it_wal it)) A)"
    using write_at_position [OF assms(1) b c, of "replicate ?z 0"] z by auto
  have "frag_size L * (?m + 1) - frag_size L * ?m = frag_size L" by (simp add: distrib_left)
  then have "clear_fragment_from_position it p = Inr (it\<lparr>it_wal := (it_wal it)\<lparr>files := fs\<rparr>\<rparr>)"
    using w z(1) lf(2) assms(4) lay
    by (simp add: clear_fragment_from_position_def map_range_def split_beta)
  moreover have "unat p + ?z = (unat p div FRAG L + 1) * FRAG L"
  proof -
    have "(unat p div FRAG L + 1) * FRAG L = unat p div FRAG L * FRAG L + FRAG L" by simp
    then show ?thesis using z(2) div_mult_mod_eq [of "unat p" "FRAG L"] by linarith
  qed
  ultimately show ?thesis using w by (intro exI [of _ "it\<lparr>it_wal := (it_wal it)\<lparr>files := fs\<rparr>\<rparr>"]) simp
qed

end
