(* ===== verification/Wal_Recovery.thy ===== *)
theory Wal_Recovery
  imports Wal_Roundtrip
begin

text \<open>
  Recovery of a log that a crash left with a hole: what \<open>clear_fragment_from_position\<close> of
  \<open>tidehunter/src/wal/mod.rs\<close> blanks, and what it leaves behind.
\<close>

section \<open>Properties\<close>


text \<open>A crash left a frame at the start of fragment 1, and nothing in fragment 0.\<close>

definition crashed_files :: wal_files where
  "crashed_files = [(0, replicate 64 0 @ crc_frame_new toy_hash [9] @ replicate 55 0)]"

definition crashed_wal :: wal where
  "crashed_wal = \<lparr>files = crashed_files, layout = tiny_layout, maps = map (\<lambda>m. (m, create_map m)) [0, 1]\<rparr>"

definition crashed_it :: wal_iterator where
  "crashed_it = \<lparr>it_wal = crashed_wal, it_maps = [], it_map = create_map 0, it_position = 0,
                 skip_crc = False, for_writer = False\<rparr>"

definition crashed_writer :: wal_writer where
  "crashed_writer = \<lparr>ww_wal = crashed_wal, ww_allocator = allocator_new tiny_layout 0\<rparr>"


end
