(* ===== verification/Wal_Read.thy ===== *)
theory Wal_Read
  imports Wal_Roundtrip
begin

text \<open>
  Random reads: a frame on the log is read back through the map of its fragment and through its
  file alike (\<open>Wal::read\<close>, \<open>frame_source\<close>, \<open>is_reachable\<close>, \<open>reader_at\<close> of
  \<open>tidehunter/src/wal/mod.rs\<close>).
\<close>

lemma file_of_position:
  assumes "layout_wf L" "unat p + FRAG L \<le> 2 ^ 64"
  shows "locate_file L p = file_for_map L (fst (locate L p))"
    "unat (offset_in_wal_file L p) = map_offset L (fst (locate L p)) + unat (snd (locate L p))"
proof -
  note l = layout_wfD [OF assms(1)] and lf = locate_frag [OF assms]
  have P: "unat p = unat (fst (locate L p)) * FRAG L + unat (snd (locate L p))" by (simp add: lf)
  have o: "unat (snd (locate L p)) < FRAG L" using l(1) lf(2) by simp
  note fa = frag_addr [OF l(4,3) o, of "unat (fst (locate L p))"]
  have "unat (locate_file L p) = unat (file_for_map L (fst (locate L p)))"
    unfolding file_for_map_eq(1) [OF lf(3) assms(1)]
    using fa(1) P by (simp add: locate_file_def unat_div)
  then show "locate_file L p = file_for_map L (fst (locate L p))" by (simp only: word_unat_eq_iff)
  show "unat (offset_in_wal_file L p) = map_offset L (fst (locate L p)) + unat (snd (locate L p))"
    unfolding file_for_map_eq(3) [OF lf(3) assms(1)]
    using fa(2) P by (simp add: offset_in_wal_file_def unat_mod)
qed

lemma holds_file:
  assumes "layout_wf L" "unat p + FRAG L \<le> 2 ^ 64" "holds L fs (unat p) bs" "bs \<noteq> []"
    and "map_of fs (locate_file L p) = Some f"
  shows "\<exists>pre post. f = pre @ bs @ post \<and> length pre = unat (offset_in_wal_file L p)"
proof -
  let ?m = "fst (locate L p)" and ?o = "unat (snd (locate L p))"
  note fp = file_of_position [OF assms(1,2)]
  obtain pre post where d: "map_data L fs ?m = pre @ bs @ post" "length pre = ?o"
    using holds_map_data [OF assms(1-4)] by blast
  have t: "take (FRAG L) (drop (map_offset L ?m) f) = pre @ bs @ post"
    using d(1) assms(5) by (simp add: map_data_def fp(1))
  then have f: "drop (map_offset L ?m) f = pre @ bs @ (post @ drop (FRAG L) (drop (map_offset L ?m) f))"
    by (metis append.assoc append_take_drop_id)
  have "map_offset L ?m \<le> length f" using t assms(4) by (cases "map_offset L ?m \<le> length f") auto
  then have "length (take (map_offset L ?m) f @ pre) = unat (offset_in_wal_file L p)"
    using d(2) fp(2) by simp
  moreover have "f = (take (map_offset L ?m) f @ pre) @ bs @ (post @ drop (FRAG L) (drop (map_offset L ?m) f))"
    using f by (metis append.assoc append_take_drop_id)
  ultimately show ?thesis by blast
qed

text \<open>What a whole-frame read needs of the file: the frame, and with direct I/O its aligned length.\<close>

definition frame_covered :: "wal \<Rightarrow> wal_position \<Rightarrow> bool" where
  "frame_covered W pos =
     (case map_of (files W) (locate_file (layout W) (wp_offset pos)) of
        None \<Rightarrow> False
      | Some f \<Rightarrow> unat (offset_in_wal_file (layout W) (wp_offset pos)) + al (layout W) (frame_len pos) \<le> length f)"

lemma read_take_frame:
  assumes "payload_ok t" "f = pre @ crc_frame_new hash t @ post" "frame_size t \<le> n" "length pre + n \<le> length f"
  shows "file_read_exact_at f (length pre) n = Some (take n (crc_frame_new hash t @ post))"
    "read_from_bytes hash (take n (crc_frame_new hash t @ post)) 0 = Inr t"
    "take (frame_size t) (take n (crc_frame_new hash t @ post)) = crc_frame_new hash t"
proof -
  show "file_read_exact_at f (length pre) n = Some (take n (crc_frame_new hash t @ post))"
    using assms(2,4) by (simp add: file_read_exact_at_def)
  have t: "take n (crc_frame_new hash t @ post) = crc_frame_new hash t @ take (n - frame_size t) post"
    using assms(3) by (simp add: frame_size_def)
  have "length t < 2 ^ 32 - 1" using assms(1) by (simp add: payload_ok_def frame_size_def)
  from read_frame_at [OF this, of 0 "[]" hash]
  show "read_from_bytes hash (take n (crc_frame_new hash t @ post)) 0 = Inr t" unfolding t by simp
  show "take (frame_size t) (take n (crc_frame_new hash t @ post)) = crc_frame_new hash t"
    unfolding t by (simp add: frame_size_def)
qed

lemma wal_read_frame:
  assumes "layout_wf (layout W)" "payload_ok t" "pos = WalPosition off (of_nat (frame_size t))"
    and "unat off + FRAG (layout W) \<le> 2 ^ 64"
    and "holds (layout W) (files W) (unat off) (crc_frame_new hash t)" "frame_covered W pos"
  shows "\<exists>how. wal_read hash W pos = Inr (Inr (how, Some t)) \<and> is_reachable W pos = Inr True"
proof -
  let ?L = "layout W"
  have fl: "frame_len pos = frame_size t"
    using assms(2,3) by (simp add: frame_len_def payload_ok_def unat_of_nat)
  have ne: "crc_frame_new hash t \<noteq> []" by (simp add: crc_frame_new_eq flip: length_0_conv)
  obtain f where f: "map_of (files W) (locate_file ?L off) = Some f"
      "unat (offset_in_wal_file ?L off) + al ?L (frame_size t) \<le> length f"
    using assms(3,6) fl by (auto simp: frame_covered_def split: option.splits)
  have "8 \<le> FRAG ?L" using layout_wfD(1,5) [OF assms(1)] by (auto intro: dvd_imp_le)
  then have "off \<noteq> u64_MAX" using assms(4) by auto
  then have inv: "pos \<noteq> WAL_INVALID" using assms(3) by (simp add: WAL_INVALID_def)
  obtain pre post where pp: "f = pre @ crc_frame_new hash t @ post" "length pre = unat (offset_in_wal_file ?L off)"
    using holds_file [OF assms(1,4,5) ne f(1)] by blast
  let ?n = "if direct_io ?L then al ?L (frame_size t) else frame_size t"
  have n: "frame_size t \<le> ?n" "length pre + ?n \<le> length f"
    using f(2) pp(2) al_props(1) [of "frame_size t" ?L] by auto
  note rt = read_take_frame [OF assms(2) pp(1) n]
  have rf: "read_from_bytes hash (crc_frame_new hash t) 0 = Inr t"
    using read_frame_at [of t 0 "[]" hash "[]"] assms(2) by (simp add: payload_ok_def frame_size_def)
  have bs: "(if direct_io ?L then unat (align ?L (of_nat (frame_len pos))) else frame_len pos) = ?n"
    using unat_align_frame(1) [OF assms(2)] fl by simp
  obtain buf where fr: "file_read_exact_at f (length pre) ?n = Some buf"
      and rb: "read_from_bytes hash buf 0 = Inr t" "take (frame_size t) buf = crc_frame_new hash t"
    using rt by blast
  have buf: "read_from_bytes hash (if direct_io ?L \<and> frame_len pos < length buf then take (frame_len pos) buf else buf) 0 = Inr t"
    using rb rf fl by simp
  have off: "wp_offset pos = off" using assms(3) by simp
  show ?thesis
  proof (cases "map_of (maps W) (fst (locate ?L off))")
    case None
    then show ?thesis
      using inv f(1) fr pp(2) bs buf off
      by (simp add: wal_read_def frame_source_def is_reachable_def get_checked_def split_beta Let_def lift_crc_def)
  next
    case (Some w)
    have "read_from_bytes hash (map_data ?L (files W) (fst (locate ?L off))) (unat (snd (locate ?L off))) = Inr t"
      using read_frag(1) [OF assms(1,4,5,2)] .
    then show ?thesis
      using inv f(1) fr pp(2) bs buf off Some
      by (cases "populated w") (simp_all add: wal_read_def frame_source_def is_reachable_def
          get_checked_def split_beta Let_def lift_crc_def)
  qed
qed

section \<open>Properties\<close>

text \<open>C9. A frame on the log is read back, whatever serves the read: the pre-faulted map of its
  fragment, or the file with or without direct I/O (also when the fragment is mapped but not
  pre-faulted). The position is then also reachable.\<close>

theorem wal_read_written:
  assumes "layout_wf (layout W)" "payload_ok t" "pos = WalPosition off (of_nat (frame_size t))"
    and "unat off + FRAG (layout W) \<le> 2 ^ 64"
    and "holds (layout W) (files W) (unat off) (crc_frame_new hash t)" "frame_covered W pos"
  shows "\<exists>how. wal_read hash W pos = Inr (Inr (how, Some t)) \<and> is_reachable W pos = Inr True"
  by (rule wal_read_frame [OF assms])

text \<open>A log with one small frame at offset 8, its fragment mapped but not pre-faulted.\<close>

definition read_wal :: wal where
  "read_wal = \<lparr>files = [(0, replicate 8 0 @ crc_frame_new toy_hash [7, 8, 9] @ replicate 120 0)],
               layout = tiny_layout, maps = []\<rparr>"

theorem wal_read_written_witness:
  "\<exists>how. wal_read toy_hash read_wal (WalPosition 8 11) = Inr (Inr (how, Some [7, 8, 9]))
      \<and> is_reachable read_wal (WalPosition 8 11) = Inr True"
proof -
  have wf: "layout_wf (layout read_wal)" by code_simp
  have t: "payload_ok [7, 8, 9]" by (simp add: payload_ok_def frame_size_def CRC_HEADER_LENGTH_def)
  have p: "WalPosition 8 11 = WalPosition 8 (of_nat (frame_size [7, 8, 9]))"
    by (simp add: frame_size_def CRC_HEADER_LENGTH_def)
  have b: "unat (8 :: u64) + FRAG (layout read_wal) \<le> 2 ^ 64" by (simp add: read_wal_def tiny_layout_def)
  have l: "length (crc_frame_new toy_hash [7, 8, 9]) = 11" by code_simp
  have c: "frame_covered read_wal (WalPosition 8 11)" by code_simp
  have h: "holds (layout read_wal) (files read_wal) (unat (8 :: u64)) (crc_frame_new toy_hash [7, 8, 9])"
    by (auto simp: holds_def l byte_at_def read_wal_def tiny_layout_def nth_append CRC_HEADER_LENGTH_def)
  show ?thesis using wal_read_written [OF wf t p b h c] .
qed

end
