(* ===== verification/Index_Position.thy ===== *)
theory Index_Position
  imports Wal_Position Sorted_Map
begin

text \<open>
  \<open>IndexWalPosition\<close> of \<open>tidehunter/src/index/index_table/mod.rs\<close>: a log position with the
  state of the index entry that holds it. The derived order compares offset, length and kind
  in this order. \<open>new_clean\<close> and its siblings only debug-assert that the position is valid.
\<close>

datatype index_entry_kind = Clean | Modified | Removed

datatype index_wal_position =
  IWP (iwp_offset: u64) (iwp_len: u32) (iwp_kind: index_entry_kind)

type_synonym entry = "bytes \<times> index_wal_position"

fun to_u8 :: "index_entry_kind \<Rightarrow> u8" where
  "to_u8 Clean = 0"
| "to_u8 Modified = 1"
| "to_u8 Removed = 2"

definition from_u8 :: "u8 \<Rightarrow> index_entry_kind" where
  "from_u8 b = (if b = 1 then Modified else if b = 2 then Removed else Clean)"

definition new_clean :: "wal_position \<Rightarrow> index_wal_position" where
  "new_clean w = IWP (wp_offset w) (wp_len w) Clean"

definition new_modified :: "wal_position \<Rightarrow> index_wal_position" where
  "new_modified w = IWP (wp_offset w) (wp_len w) Modified"

definition new_removed :: "wal_position \<Rightarrow> index_wal_position" where
  "new_removed w = IWP (wp_offset w) (wp_len w) Removed"

definition from_disk :: "wal_position \<Rightarrow> index_wal_position" where
  "from_disk w = (if w = WAL_INVALID then IWP (wp_offset w) 0 Removed else new_clean w)"

definition into_wal_position :: "index_wal_position \<Rightarrow> wal_position" where
  "into_wal_position v =
     (case iwp_kind v of Removed \<Rightarrow> WAL_INVALID | _ \<Rightarrow> WalPosition (iwp_offset v) (iwp_len v))"

definition replace_wal_position :: "wal_position \<Rightarrow> index_wal_position \<Rightarrow> index_wal_position" where
  "replace_wal_position p v = IWP (wp_offset p) (wp_len p) (iwp_kind v)"

definition into_update_position :: "index_wal_position \<Rightarrow> wal_position" where
  "into_update_position v = WalPosition (iwp_offset v) (iwp_len v)"

definition is_removed :: "index_wal_position \<Rightarrow> bool" where
  "is_removed v \<longleftrightarrow> iwp_kind v = Removed"

definition is_clean :: "index_wal_position \<Rightarrow> bool" where
  "is_clean v \<longleftrightarrow> iwp_kind v = Clean"

definition as_clean_modified :: "index_wal_position \<Rightarrow> index_wal_position res" where
  "as_clean_modified v =
     (case iwp_kind v of Removed \<Rightarrow> Inl ExplicitPanic | _ \<Rightarrow> Inr (IWP (iwp_offset v) (iwp_len v) Clean))"

section \<open>The derived order\<close>

fun kind_rank :: "index_entry_kind \<Rightarrow> nat" where
  "kind_rank Clean = 0"
| "kind_rank Modified = 1"
| "kind_rank Removed = 2"

lemma kind_rank_inj [simp]: "kind_rank a = kind_rank b \<longleftrightarrow> a = b"
  by (cases a; cases b) auto

instantiation index_wal_position :: linorder
begin

definition less_eq_index_wal_position :: "index_wal_position \<Rightarrow> index_wal_position \<Rightarrow> bool" where
  "a \<le> b \<longleftrightarrow> iwp_offset a < iwp_offset b
   \<or> iwp_offset a = iwp_offset b \<and> (iwp_len a < iwp_len b
     \<or> iwp_len a = iwp_len b \<and> kind_rank (iwp_kind a) \<le> kind_rank (iwp_kind b))"

definition less_index_wal_position :: "index_wal_position \<Rightarrow> index_wal_position \<Rightarrow> bool" where
  "(a :: index_wal_position) < b \<longleftrightarrow> a \<le> b \<and> \<not> b \<le> a"

instance
proof
  fix a b c :: index_wal_position
  show "a < b \<longleftrightarrow> a \<le> b \<and> \<not> b \<le> a" by (rule less_index_wal_position_def)
  show "a \<le> a" by (simp add: less_eq_index_wal_position_def)
  show "a \<le> b \<Longrightarrow> b \<le> c \<Longrightarrow> a \<le> c" by (auto simp: less_eq_index_wal_position_def)
  show "a \<le> b \<Longrightarrow> b \<le> a \<Longrightarrow> a = b"
    by (auto simp: less_eq_index_wal_position_def intro: index_wal_position.expand)
  show "a \<le> b \<or> b \<le> a" by (auto simp: less_eq_index_wal_position_def)
qed

end

lemma offset_less_imp_less: "iwp_offset a < iwp_offset b \<Longrightarrow> a < b"
  by (auto simp: less_index_wal_position_def less_eq_index_wal_position_def)

section \<open>Conversions\<close>

lemma iwp_sels [simp]:
  "iwp_offset (new_modified w) = wp_offset w" "iwp_offset (new_removed w) = wp_offset w"
  "iwp_len (new_modified w) = wp_len w" "iwp_len (new_removed w) = wp_len w"
  "\<not> is_clean (new_modified w)" "\<not> is_clean (new_removed w)"
  "\<not> is_removed (new_modified w)" "is_removed (new_removed w)"
  "into_wal_position (new_modified w) = w" "into_wal_position (new_removed w) = WAL_INVALID"
  by (simp_all add: new_modified_def new_removed_def is_clean_def is_removed_def into_wal_position_def)

lemma into_wal_position_removed: "is_removed v \<Longrightarrow> into_wal_position v = WAL_INVALID"
  by (simp add: is_removed_def into_wal_position_def)

lemma into_wal_position_live: "\<not> is_removed v \<Longrightarrow> into_wal_position v = into_update_position v"
  by (cases "iwp_kind v") (simp_all add: is_removed_def into_wal_position_def into_update_position_def)

lemma as_clean_modified_eq:
  "\<not> is_removed v \<Longrightarrow> as_clean_modified v = Inr (IWP (iwp_offset v) (iwp_len v) Clean)"
  by (cases "iwp_kind v") (simp_all add: as_clean_modified_def is_removed_def)

lemma kind_u8: "from_u8 (to_u8 k) = k"
  by (cases k) (simp_all add: from_u8_def)

text \<open>What is written for an entry reads back as its observable position.\<close>

lemma from_disk_into: "into_wal_position (from_disk (into_wal_position v)) = into_wal_position v"
  by (cases "iwp_kind v") (auto simp: from_disk_def into_wal_position_def new_clean_def WAL_INVALID_def)

end
