(* ===== verification/Flat_Buffer.thy ===== *)
theory Flat_Buffer
  imports Index_Position
begin

text \<open>
  \<open>tidehunter/src/index/index_table/flat.rs\<close>: the packed index buffer in its fixed-length and
  variable-length formats, binary search in it, its sequential iterator, and the merge of the
  buffer with the write overlay. Iterators handed to a merge loop are the lists of their items,
  so the merge loop itself is \<open>merge_over\<close>; the buffers are written out byte by byte, with the
  offset table of the variable-length format back-filled as in the code.
\<close>

type_synonym data_positions = "index_wal_position list"
type_synonym data_overlay = "(bytes, data_positions) smap"

definition var_flat_entry_count :: "bytes \<Rightarrow> usize res" where
  "var_flat_entry_count flat =
     (if length flat < 4 then Inr 0
      else bindr (from_be_at 4 flat 0) (\<lambda>c :: u32. Inr (unat c)))"

definition var_flat_entries_section_start :: "usize \<Rightarrow> usize" where
  "var_flat_entries_section_start count = 4 + 4 * count"

definition var_flat_read_entry_offset :: "bytes \<Rightarrow> usize \<Rightarrow> usize res" where
  "var_flat_read_entry_offset flat idx =
     (let pos = 4 + 4 * idx in bindr (from_be_at 4 flat pos) (\<lambda>o' :: u32. Inr (unat o')))"

definition encode_kind_in_len :: "u32 \<Rightarrow> index_entry_kind \<Rightarrow> u32 res" where
  "encode_kind_in_len len k =
     assertr (len < 0x40000000) (Inr (len OR push_bit 30 (ucast (to_u8 k))))"

definition decode_kind_from_len :: "u32 \<Rightarrow> u32 \<times> index_entry_kind" where
  "decode_kind_from_len encoded = (encoded AND 0x3FFFFFFF, from_u8 (ucast (drop_bit 30 encoded)))"

definition var_flat_parse_entry :: "bytes \<Rightarrow> usize \<Rightarrow> entry res" where
  "var_flat_parse_entry sec off =
     bindr (from_be_at 2 sec off) (\<lambda>kl :: u16.
       let key_len = unat kl; wal_start = off + 2 + key_len in
       bindr (slice_r sec (off + 2) (off + 2 + key_len)) (\<lambda>key.
       bindr (from_be_at 8 sec wal_start) (\<lambda>wal_offset.
       bindr (from_be_at 4 sec (wal_start + 8)) (\<lambda>encoded.
         let (wal_len, k) = decode_kind_from_len encoded
         in Inr (key, IWP wal_offset wal_len k)))))"

definition flat_count :: "bytes \<Rightarrow> usize option \<Rightarrow> usize res" where
  "flat_count flat key_size =
     (if flat = [] then Inr 0
      else case key_size of
             None \<Rightarrow> var_flat_entry_count flat
           | Some ks \<Rightarrow> Inr (length flat div (ks + WAL_POSITION_LENGTH)))"

definition fixed_entry :: "bytes \<Rightarrow> usize \<Rightarrow> usize \<Rightarrow> entry res" where
  "fixed_entry flat ks idx =
     (let elem_size = ks + WAL_POSITION_LENGTH; start = idx * elem_size in
      bindr (slice_r flat start (start + ks)) (\<lambda>key.
      bindr (from_be_at 8 flat (start + ks)) (\<lambda>wal_offset.
      bindr (from_be_at 4 flat (start + ks + 8)) (\<lambda>encoded.
        let (len, k) = decode_kind_from_len encoded in Inr (key, IWP wal_offset len k)))))"

definition flat_entry_at :: "bytes \<Rightarrow> usize option \<Rightarrow> usize \<Rightarrow> entry res" where
  "flat_entry_at flat key_size idx =
     (case key_size of
        None \<Rightarrow>
          bindr (var_flat_entry_count flat) (\<lambda>count.
          bindr (slice_r flat (var_flat_entries_section_start count) (length flat)) (\<lambda>entries.
          bindr (var_flat_read_entry_offset flat idx) (\<lambda>off.
            var_flat_parse_entry entries off)))
      | Some ks \<Rightarrow> fixed_entry flat ks idx)"

text \<open>The two binary searches; the loop body keeps \<open>lo \<le> hi\<close> and halves the distance.\<close>

function lower_bound_loop :: "bytes \<Rightarrow> usize option \<Rightarrow> bytes \<Rightarrow> usize \<Rightarrow> usize \<Rightarrow> usize res" where
  "lower_bound_loop flat key_size target lo hi =
     (if lo < hi then
        (let mid = (lo + hi) div 2 in
         bindr (flat_entry_at flat key_size mid) (\<lambda>e.
           if fst e < target then lower_bound_loop flat key_size target (mid + 1) hi
           else lower_bound_loop flat key_size target lo mid))
      else Inr lo)"
  by auto

termination by (relation "measure (\<lambda>(_, _, _, lo, hi). hi - lo)") auto

definition flat_lower_bound :: "bytes \<Rightarrow> usize option \<Rightarrow> bytes \<Rightarrow> usize res" where
  "flat_lower_bound flat key_size target =
     bindr (flat_count flat key_size) (\<lambda>count. lower_bound_loop flat key_size target 0 count)"

function upper_bound_loop :: "bytes \<Rightarrow> usize option \<Rightarrow> bytes \<Rightarrow> usize \<Rightarrow> usize \<Rightarrow> usize res" where
  "upper_bound_loop flat key_size target lo hi =
     (if lo < hi then
        (let mid = (lo + hi) div 2 in
         bindr (flat_entry_at flat key_size mid) (\<lambda>e.
           if fst e \<le> target then upper_bound_loop flat key_size target (mid + 1) hi
           else upper_bound_loop flat key_size target lo mid))
      else Inr lo)"
  by auto

termination by (relation "measure (\<lambda>(_, _, _, lo, hi). hi - lo)") auto

definition flat_upper_bound :: "bytes \<Rightarrow> usize option \<Rightarrow> bytes \<Rightarrow> usize res" where
  "flat_upper_bound flat key_size target =
     bindr (flat_count flat key_size) (\<lambda>count. upper_bound_loop flat key_size target 0 count)"

declare lower_bound_loop.simps [simp del] upper_bound_loop.simps [simp del]

section \<open>Building\<close>

text \<open>One entry in each format, and the loop that appends entries behind an offset table.\<close>

fun append_fixed :: "entry list \<Rightarrow> bytes \<Rightarrow> bytes res" where
  "append_fixed [] out = Inr out"
| "append_fixed ((key, v) # es) out =
     bindr (encode_kind_in_len (iwp_len v) (iwp_kind v)) (\<lambda>el.
       append_fixed es (out @ key @ put_u64 (iwp_offset v) @ put_u32 el))"

fun append_varlen :: "usize \<Rightarrow> usize \<Rightarrow> usize \<Rightarrow> entry list \<Rightarrow> bytes \<Rightarrow> bytes res" where
  "append_varlen offsets_start data_start i [] out = Inr out"
| "append_varlen offsets_start data_start i ((key, v) # es) out =
     (if 2 ^ 32 \<le> length out - data_start then Inl UnwrapFailed
      else
        bindr (copy_at_r (offsets_start + 4 * i) (put_u32 (of_nat (length out - data_start))) out) (\<lambda>out'.
        bindr (encode_kind_in_len (iwp_len v) (iwp_kind v)) (\<lambda>el.
          append_varlen offsets_start data_start (i + 1) es
            (out' @ put_u16 (of_nat (length key)) @ key @ put_u64 (iwp_offset v) @ put_u32 el))))"

definition append_flat_varlen :: "entry list \<Rightarrow> bytes \<Rightarrow> bytes res" where
  "append_flat_varlen entries out =
     (let n = length entries in
      if n = 0 then Inr out
      else
        let header_start = length out; offsets_start = header_start + 4;
            data_start = offsets_start + 4 * n;
            out0 = out @ put_u32 (of_nat n) @ concat (replicate n (put_u32 0))
        in bindr (append_varlen offsets_start data_start 0 entries out0)
             (copy_at_r header_start (put_u32 (of_nat n))))"

definition build_flat_bytes :: "entry list \<Rightarrow> usize option \<Rightarrow> bytes res" where
  "build_flat_bytes entries key_size =
     (if length entries = 0 then Inr []
      else case key_size of
             Some ks \<Rightarrow> append_fixed entries []
           | None \<Rightarrow> append_flat_varlen entries [])"

section \<open>The sequential iterator\<close>

datatype flat_iter =
    FlatEmpty
  | FlatVarLen bytes bytes usize usize
  | FlatFixed bytes usize usize usize

definition flat_iter_new :: "bytes \<Rightarrow> usize option \<Rightarrow> flat_iter res" where
  "flat_iter_new flat key_size =
     (if flat = [] then Inr FlatEmpty
      else case key_size of
             None \<Rightarrow>
               bindr (var_flat_entry_count flat) (\<lambda>count.
               bindr (if 0 < count then slice_r flat (var_flat_entries_section_start count) (length flat)
                      else Inr []) (\<lambda>sec.
                 Inr (FlatVarLen flat sec count 0)))
           | Some ks \<Rightarrow>
               let elem_size = ks + WAL_POSITION_LENGTH
               in Inr (FlatFixed flat ks (if 0 < elem_size then length flat div elem_size else 0) 0))"

fun flat_next :: "flat_iter \<Rightarrow> (entry option \<times> flat_iter) res" where
  "flat_next FlatEmpty = Inr (None, FlatEmpty)"
| "flat_next (FlatVarLen flat sec count i) =
     (if count \<le> i then Inr (None, FlatVarLen flat sec count i)
      else bindr (var_flat_read_entry_offset flat i) (\<lambda>off.
           bindr (var_flat_parse_entry sec off) (\<lambda>e.
             Inr (Some e, FlatVarLen flat sec count (i + 1)))))"
| "flat_next (FlatFixed flat ks count i) =
     (if count \<le> i then Inr (None, FlatFixed flat ks count i)
      else bindr (fixed_entry flat ks i) (\<lambda>e. Inr (Some e, FlatFixed flat ks count (i + 1))))"

fun flat_remaining :: "flat_iter \<Rightarrow> nat" where
  "flat_remaining FlatEmpty = 0"
| "flat_remaining (FlatVarLen flat sec count i) = count - i"
| "flat_remaining (FlatFixed flat ks count i) = count - i"

lemma flat_next_remaining: "flat_next it = Inr (Some e, it') \<Longrightarrow> flat_remaining it' < flat_remaining it"
  by (cases it) (auto simp: bindr_Inr_iff split: if_splits)

function flat_collect :: "flat_iter \<Rightarrow> entry list res" where
  "flat_collect it =
     (case flat_next it of
        Inl p \<Rightarrow> Inl p
      | Inr (x, it') \<Rightarrow> (case x of None \<Rightarrow> Inr [] | Some e \<Rightarrow> bindr (flat_collect it') (\<lambda>es. Inr (e # es))))"
  by auto

termination by (relation "measure flat_remaining") (auto simp: flat_next_remaining)

declare flat_collect.simps [simp del]

text \<open>All items of \<open>FlatIter::new(flat, key_size)\<close>.\<close>

definition flat_items :: "bytes \<Rightarrow> usize option \<Rightarrow> entry list res" where
  "flat_items flat key_size = bindr (flat_iter_new flat key_size) flat_collect"

section \<open>Merging the overlay into the buffer\<close>

definition data_latest_per_key :: "data_overlay \<Rightarrow> entry list res" where
  "data_latest_per_key data =
     traverse (\<lambda>(k, ps). bindr (expectr (last_of ps)) (\<lambda>v. Inr (k, v))) data"

text \<open>The entries on which \<open>merge_walk\<close> calls its closure, in order.\<close>

definition merge_walk :: "bytes \<Rightarrow> usize option \<Rightarrow> data_overlay \<Rightarrow> last_processed \<Rightarrow> entry list res" where
  "merge_walk flat key_size data lp =
     bindr (flat_items flat key_size) (\<lambda>fs.
     bindr (data_latest_per_key data) (\<lambda>ds.
       Inr (merge_over fs (filter (\<lambda>e. is_processed lp (iwp_offset (snd e))) ds))))"

definition merge_into_flat :: "bytes \<Rightarrow> usize option \<Rightarrow> data_overlay \<Rightarrow> last_processed \<Rightarrow> (bytes \<times> usize) res" where
  "merge_into_flat flat key_size data lp =
     bindr (merge_walk flat key_size data lp) (\<lambda>es.
       let entry_count = length es;
           dirty_count = length (filter (\<lambda>e. \<not> is_clean (snd e)) es)
       in if entry_count = 0 then Inr ([], 0)
          else bindr
            (case key_size of
               Some ks \<Rightarrow> append_fixed es []
             | None \<Rightarrow>
                 let out0 = put_u32 (of_nat entry_count);
                     offsets_start = length out0;
                     out1 = out0 @ replicate (4 * entry_count) 0;
                     data_start = length out1
                 in append_varlen offsets_start data_start 0 es out1)
            (\<lambda>new_flat. Inr (new_flat, dirty_count)))"

section \<open>Kinds packed into lengths\<close>

definition encoded_len :: "index_wal_position \<Rightarrow> u32" where
  "encoded_len v = iwp_len v OR push_bit 30 (ucast (to_u8 (iwp_kind v)))"

definition len_ok :: "index_wal_position \<Rightarrow> bool" where
  "len_ok v \<longleftrightarrow> iwp_len v < 0x40000000"

lemma encode_kind_ok: "len_ok v \<Longrightarrow> encode_kind_in_len (iwp_len v) (iwp_kind v) = Inr (encoded_len v)"
  by (simp add: encode_kind_in_len_def encoded_len_def len_ok_def)

lemma decode_encoded_len: "len_ok v \<Longrightarrow> decode_kind_from_len (encoded_len v) = (iwp_len v, iwp_kind v)"
proof -
  assume "len_ok v"
  then have lt: "unat (iwp_len v) < 2 ^ 30" by (simp add: len_ok_def word_less_nat_alt)
  have m: "(0x3FFFFFFF :: u32) = mask 30" by (simp add: mask_eq_exp_minus_1)
  have a: "encoded_len v AND mask 30 = iwp_len v"
    by (rule bit_word_eqI)
      (auto simp: encoded_len_def bit_simps dest: bit_unat_lt [OF lt])
  have b: "drop_bit 30 (encoded_len v) = drop_bit 30 (push_bit 30 (ucast (to_u8 (iwp_kind v)) :: u32))"
    by (rule bit_word_eqI) (auto simp: encoded_len_def bit_simps dest: bit_unat_lt [OF lt])
  have "ucast (drop_bit 30 (push_bit 30 (ucast (to_u8 k) :: u32))) = to_u8 k" for k
    by (cases k) simp_all
  then show ?thesis by (simp add: decode_kind_from_len_def m a b kind_u8)
qed

section \<open>Well-formed buffers\<close>

text \<open>What a buffer says: its entry count, and its entry at each index.\<close>

definition flat_view :: "usize option \<Rightarrow> bytes \<Rightarrow> entry list \<Rightarrow> bool" where
  "flat_view key_size flat es \<longleftrightarrow>
     flat_count flat key_size = Inr (length es)
   \<and> (\<forall>i < length es. flat_entry_at flat key_size i = Inr (es ! i))
   \<and> (flat = [] \<longleftrightarrow> es = [])"

fun var_bytes :: "entry \<Rightarrow> bytes" where
  "var_bytes (key, v) = put_u16 (of_nat (length key)) @ key @ put_u64 (iwp_offset v) @ put_u32 (encoded_len v)"

fun fixed_bytes :: "entry \<Rightarrow> bytes" where
  "fixed_bytes (key, v) = key @ put_u64 (iwp_offset v) @ put_u32 (encoded_len v)"

text \<open>The entries a buffer of the given format can hold: packable lengths, keys of the fixed size
  or of at most 16 bits of length, and a section that 32-bit offsets can address.\<close>

definition flat_ok :: "usize option \<Rightarrow> entry list \<Rightarrow> bool" where
  "flat_ok key_size es \<longleftrightarrow> list_all (len_ok \<circ> snd) es
   \<and> (case key_size of
        Some ks \<Rightarrow> list_all (\<lambda>e. length (fst e) = ks) es
      | None \<Rightarrow> list_all (\<lambda>e. length (fst e) < 2 ^ 16) es
                \<and> length (concat (map var_bytes es)) < 2 ^ 32)"

lemma length_entry_bytes [simp]:
  "length (var_bytes e) = length (fst e) + 14" "length (fixed_bytes e) = length (fst e) + 12"
  by (cases e; simp)+

subsection \<open>The fixed-length format\<close>

lemma append_fixed_eq:
  "list_all (len_ok \<circ> snd) es \<Longrightarrow> append_fixed es out = Inr (out @ concat (map fixed_bytes es))"
  by (induction es arbitrary: out) (auto simp: encode_kind_ok)

lemma length_concat_fixed:
  "\<forall>x \<in> set xs. length x = n \<Longrightarrow> length (concat xs) = length xs * n"
  by (induction xs) auto

lemma concat_split:
  assumes "i < length xs"
  shows "concat xs = concat (take i xs) @ xs ! i @ concat (drop (Suc i) xs)"
proof -
  have "xs = take i xs @ xs ! i # drop (Suc i) xs" using assms by (rule id_take_nth_drop)
  then show ?thesis by (metis concat.simps(2) concat_append)
qed

lemma fixed_entry_at_bytes:
  assumes "len_ok (snd e)" "length (fst e) = ks" "length pre = i * (ks + 12)"
  shows "fixed_entry (pre @ fixed_bytes e @ post) ks i = Inr e"
proof -
  obtain key v where e: "e = (key, v)" by (cases e)
  let ?o = "put_u64 (iwp_offset v)" and ?l = "put_u32 (encoded_len v)"
  let ?b = "pre @ (key @ ?o @ ?l) @ post"
  have "slice_r ?b (i * (ks + 12)) (i * (ks + 12) + ks) = Inr key"
    using slice_r_middle [of "i * (ks + 12)" pre "i * (ks + 12) + ks" key "?o @ ?l @ post"] assms e by simp
  moreover have "from_be_at 8 ?b (i * (ks + 12) + ks) = Inr (iwp_offset v)"
    using from_be_at_put(3) [of "i * (ks + 12) + ks" "pre @ key" "iwp_offset v" "?l @ post"] assms e by simp
  moreover have "from_be_at 4 ?b (i * (ks + 12) + ks + 8) = Inr (encoded_len v)"
    using from_be_at_put(2) [of "i * (ks + 12) + ks + 8" "pre @ key @ ?o" "encoded_len v" post] assms e by simp
  ultimately show ?thesis
    using assms e by (simp add: fixed_entry_def WAL_POSITION_LENGTH_def Let_def decode_encoded_len)
qed

lemma fixed_view:
  assumes "flat_ok (Some ks) es"
  shows "flat_view (Some ks) (concat (map fixed_bytes es)) es"
proof -
  let ?b = "concat (map fixed_bytes es)"
  have ok: "len_ok (snd e)" "length (fst e) = ks" if "e \<in> set es" for e
    using assms that by (auto simp: flat_ok_def list_all_iff)
  have len: "length (concat (take i (map fixed_bytes es))) = i * (ks + 12)" if "i \<le> length es" for i
  proof -
    have "length x = ks + 12" if "x \<in> set (take i (map fixed_bytes es))" for x
      using in_set_takeD [OF that] ok by auto
    then show ?thesis
      using length_concat_fixed [of "take i (map fixed_bytes es)" "ks + 12"] that by simp
  qed
  have total: "length ?b = length es * (ks + 12)" using len [of "length es"] by simp
  have "flat_entry_at ?b (Some ks) i = Inr (es ! i)" if i: "i < length es" for i
  proof -
    have "?b = concat (take i (map fixed_bytes es)) @ fixed_bytes (es ! i)
        @ concat (drop (Suc i) (map fixed_bytes es))"
      using concat_split [of i "map fixed_bytes es"] i by simp
    then show ?thesis
      using fixed_entry_at_bytes [OF ok, of "es ! i"] len [of i] i by (simp add: flat_entry_at_def)
  qed
  moreover have "?b = [] \<longleftrightarrow> es = []" using total by (simp flip: length_0_conv)
  ultimately show ?thesis
    using total by (simp add: flat_view_def flat_count_def WAL_POSITION_LENGTH_def)
qed

subsection \<open>The variable-length format\<close>

fun offs_from :: "nat \<Rightarrow> entry list \<Rightarrow> u32 list" where
  "offs_from b [] = []"
| "offs_from b (e # es) = of_nat b # offs_from (b + length (var_bytes e)) es"

definition varlen_bytes :: "entry list \<Rightarrow> bytes" where
  "varlen_bytes es =
     put_u32 (of_nat (length es)) @ concat (map put_u32 (offs_from 0 es)) @ concat (map var_bytes es)"

lemma length_offs_from [simp]: "length (offs_from b es) = length es"
  by (induction es arbitrary: b) auto

lemma nth_offs_from:
  "i < length es \<Longrightarrow> offs_from b es ! i = of_nat (b + length (concat (map var_bytes (take i es))))"
proof (induction es arbitrary: b i)
  case (Cons e es)
  then show ?case by (cases i) (auto simp: add.assoc)
qed simp

lemma length_concat_put_u32 [simp]: "length (concat (map put_u32 xs)) = 4 * length xs"
  by (induction xs) auto

lemma copy_at_middle:
  "length xs = a \<Longrightarrow> length ys = length ys' \<Longrightarrow> copy_at_r a ys' (xs @ ys @ zs) = Inr (xs @ ys' @ zs)"
  by (simp add: copy_at_r_def overwrite_append)

text \<open>The back-filling loop: the remaining slots of the table receive the offsets of the entries
  appended behind the body written so far.\<close>

lemma append_varlen_eq:
  assumes "list_all (len_ok \<circ> snd) es" "length body + length (concat (map var_bytes es)) < 2 ^ 32"
    and "length pre = os" "length slots = 4 * i" "length rest = 4 * length es"
    and "ds = os + 4 * i + 4 * length es"
  shows "append_varlen os ds i es (pre @ slots @ rest @ body)
    = Inr (pre @ slots @ concat (map put_u32 (offs_from (length body) es)) @ body @ concat (map var_bytes es))"
  using assms
proof (induction es arbitrary: i slots rest body)
  case (Cons e es)
  obtain key v where e: "e = (key, v)" by (cases e)
  obtain r0 r1 where r: "rest = r0 @ r1" "length r0 = 4" "length r1 = 4 * length es"
    using Cons.prems(5) by (intro that [of "take 4 rest" "drop 4 rest"]) auto
  let ?out = "pre @ slots @ rest @ body" and ?o = "put_u32 (of_nat (length body))"
  have d: "length ?out - ds = length body" using Cons.prems(3-6) by simp
  have c: "copy_at_r (os + 4 * i) ?o ?out = Inr ((pre @ slots) @ ?o @ r1 @ body)"
    using copy_at_middle [of "pre @ slots" "os + 4 * i" r0 ?o "r1 @ body"] Cons.prems(3,4) r by simp
  have IH: "append_varlen os ds (i + 1) es (pre @ (slots @ ?o) @ r1 @ (body @ var_bytes e))
      = Inr (pre @ (slots @ ?o) @ concat (map put_u32 (offs_from (length (body @ var_bytes e)) es))
              @ (body @ var_bytes e) @ concat (map var_bytes es))"
    using Cons.prems r by (intro Cons.IH) simp_all
  have small: "\<not> 2 ^ 32 \<le> length body" using Cons.prems(2) by simp
  have k: "encode_kind_in_len (iwp_len v) (iwp_kind v) = Inr (encoded_len v)"
    using Cons.prems(1) e by (simp add: encode_kind_ok)
  have b: "var_bytes e = put_u16 (of_nat (length key)) @ key @ put_u64 (iwp_offset v) @ put_u32 (encoded_len v)"
    by (simp add: e)
  have "append_varlen os ds i (e # es) ?out
      = append_varlen os ds (i + 1) es (pre @ (slots @ ?o) @ r1 @ (body @ var_bytes e))"
    using small unfolding e append_varlen.simps d c k bindr_simps b [unfolded e] by simp
  then show ?case unfolding IH by (simp add: e)
qed simp

lemma concat_replicate_zeroes: "concat (replicate n (put_u32 0)) = replicate (4 * n) 0"
  by (induction n) (simp_all add: put_0 replicate_add)

lemma append_flat_varlen_eq:
  assumes "flat_ok None es"
  shows "append_flat_varlen es out = Inr (out @ (if es = [] then [] else varlen_bytes es))"
proof (cases "es = []")
  case False
  let ?n = "put_u32 (of_nat (length es))"
  have "append_varlen (length out + 4) (length out + 4 + 4 * length es) 0 es
        ((out @ ?n) @ [] @ concat (replicate (length es) (put_u32 0)) @ [])
      = Inr ((out @ ?n) @ [] @ concat (map put_u32 (offs_from (length ([] :: bytes)) es)) @ [] @ concat (map var_bytes es))"
    using assms by (intro append_varlen_eq) (simp_all add: flat_ok_def concat_replicate_zeroes)
  then show ?thesis
    using False copy_at_middle [of out "length out" ?n ?n]
    by (simp add: append_flat_varlen_def Let_def varlen_bytes_def)
qed (simp add: append_flat_varlen_def)

lemma parse_entry_at:
  assumes "len_ok (snd e)" "length (fst e) < 2 ^ 16" "length pre = off"
  shows "var_flat_parse_entry (pre @ var_bytes e @ post) off = Inr e"
proof -
  obtain key v where e: "e = (key, v)" by (cases e)
  let ?k = "put_u16 (of_nat (length key))" and ?o = "put_u64 (iwp_offset v)" and ?l = "put_u32 (encoded_len v)"
  let ?b = "pre @ (?k @ key @ ?o @ ?l) @ post"
  have u: "unat (of_nat (length key) :: u16) = length key" using assms(2) e by (simp add: unat_of_nat)
  have "from_be_at 2 ?b off = Inr (of_nat (length key) :: u16)"
    using from_be_at_put(1) [of off pre "of_nat (length key)" "key @ ?o @ ?l @ post"] assms(3) by simp
  moreover have "slice_r ?b (off + 2) (off + 2 + length key) = Inr key"
    using slice_r_middle [of "off + 2" "pre @ ?k" "off + 2 + length key" key "?o @ ?l @ post"] assms(3) by simp
  moreover have "from_be_at 8 ?b (off + 2 + length key) = Inr (iwp_offset v)"
    using from_be_at_put(3) [of "off + 2 + length key" "pre @ ?k @ key" "iwp_offset v" "?l @ post"] assms(3) by simp
  moreover have "from_be_at 4 ?b (off + 2 + length key + 8) = Inr (encoded_len v)"
    using from_be_at_put(2) [of "off + 2 + length key + 8" "pre @ ?k @ key @ ?o" "encoded_len v" post] assms(3) by simp
  ultimately show ?thesis
    using assms(1) e u by (simp add: var_flat_parse_entry_def Let_def decode_encoded_len)
qed

lemma length_le_concat_var: "length es \<le> length (concat (map var_bytes es))"
  by (induction es) auto

lemma varlen_count:
  assumes "flat_ok None es"
  shows "var_flat_entry_count (varlen_bytes es) = Inr (length es)"
proof -
  have "length es < 2 ^ 32" using assms length_le_concat_var [of es] by (simp add: flat_ok_def)
  then have u: "unat (of_nat (length es) :: u32) = length es" by (simp add: unat_of_nat)
  have "from_be_at 4 (varlen_bytes es) 0 = Inr (of_nat (length es) :: u32)"
    using from_be_at_put(2) [of 0 "[]"] by (simp add: varlen_bytes_def)
  then show ?thesis using u by (simp add: var_flat_entry_count_def varlen_bytes_def)
qed

lemma varlen_section:
  "slice_r (varlen_bytes es) (var_flat_entries_section_start (length es)) (length (varlen_bytes es))
     = Inr (concat (map var_bytes es))"
  by (simp add: slice_r_def varlen_bytes_def var_flat_entries_section_start_def)

lemma varlen_entry:
  assumes "flat_ok None es" "i < length es"
  shows "var_flat_read_entry_offset (varlen_bytes es) i = Inr (length (concat (map var_bytes (take i es))))"
    and "var_flat_parse_entry (concat (map var_bytes es)) (length (concat (map var_bytes (take i es)))) = Inr (es ! i)"
proof -
  let ?p = "length (concat (map var_bytes (take i es)))"
  have split: "concat (map var_bytes es) = concat (map var_bytes (take i es)) @ var_bytes (es ! i)
      @ concat (map var_bytes (drop (Suc i) es))"
    using concat_split [of i "map var_bytes es"] assms(2) by (simp add: take_map drop_map)
  have "?p < 2 ^ 32"
    using assms(1) arg_cong [OF split, of length] by (simp add: flat_ok_def)
  then have u: "unat (of_nat ?p :: u32) = ?p" by (simp add: unat_of_nat)
  let ?os = "map put_u32 (offs_from 0 es)"
  have o: "?os ! i = put_u32 (of_nat ?p)" using nth_offs_from [OF assms(2), of 0] assms(2) by simp
  have "varlen_bytes es = (put_u32 (of_nat (length es)) @ concat (take i ?os)) @ put_u32 (of_nat ?p)
      @ (concat (drop (Suc i) ?os) @ concat (map var_bytes es))"
    using concat_split [of i ?os] assms(2) o by (simp add: varlen_bytes_def)
  moreover have "length (put_u32 (of_nat (length es)) @ concat (take i ?os)) = 4 + 4 * i"
    using assms(2) by (simp add: take_map)
  ultimately have "from_be_at 4 (varlen_bytes es) (4 + 4 * i) = Inr (of_nat ?p :: u32)"
    using from_be_at_put(2) by metis
  then show "var_flat_read_entry_offset (varlen_bytes es) i = Inr ?p"
    using u by (simp add: var_flat_read_entry_offset_def)
  have "es ! i \<in> set es" using assms(2) by simp
  then show "var_flat_parse_entry (concat (map var_bytes es)) ?p = Inr (es ! i)"
    unfolding split using assms(1) by (intro parse_entry_at) (auto simp: flat_ok_def list_all_iff)
qed

lemma varlen_view:
  assumes "flat_ok None es" "es \<noteq> []"
  shows "flat_view None (varlen_bytes es) es"
proof -
  have ne: "varlen_bytes es \<noteq> []" by (simp add: varlen_bytes_def flip: length_0_conv)
  have "flat_entry_at (varlen_bytes es) None i = Inr (es ! i)" if "i < length es" for i
    using varlen_count [OF assms(1)] varlen_section [of es] varlen_entry [OF assms(1) that]
    by (simp add: flat_entry_at_def)
  then show ?thesis
    using ne assms varlen_count [OF assms(1)] by (simp add: flat_view_def flat_count_def)
qed

text \<open>What is built is read back, in both formats.\<close>

lemma build_flat_view:
  assumes "flat_ok ks es"
  shows "\<exists>flat. build_flat_bytes es ks = Inr flat \<and> flat_view ks flat es"
proof (cases "es = []")
  case True
  then show ?thesis by (simp add: build_flat_bytes_def flat_view_def flat_count_def)
next
  case ne: False
  show ?thesis
  proof (cases ks)
    case None
    then show ?thesis
      using ne assms append_flat_varlen_eq [of es "[]"] varlen_view [of es] by (simp add: build_flat_bytes_def)
  next
    case (Some n)
    then show ?thesis
      using ne assms append_fixed_eq [of es "[]"] fixed_view [of n es]
      by (simp add: build_flat_bytes_def flat_ok_def)
  qed
qed

section \<open>Iteration\<close>

lemma collect_step:
  "flat_next it = Inr (Some e, it') \<Longrightarrow> flat_collect it = bindr (flat_collect it') (\<lambda>es. Inr (e # es))"
  "flat_next it = Inr (None, it') \<Longrightarrow> flat_collect it = Inr []"
  by (simp_all add: flat_collect.simps)

lemma flat_collect_from:
  assumes "\<And>i. i < length es \<Longrightarrow> flat_next (it i) = Inr (Some (es ! i), it (Suc i))"
    and "flat_next (it (length es)) = Inr (None, last_it)"
  shows "i \<le> length es \<Longrightarrow> flat_collect (it i) = Inr (drop i es)"
proof (induction "length es - i" arbitrary: i)
  case 0
  then show ?case using collect_step(2) [OF assms(2)] by simp
next
  case (Suc n)
  then have i: "i < length es" by simp
  then have "flat_collect (it (Suc i)) = Inr (drop (Suc i) es)" using Suc by simp
  then show ?case
    using collect_step(1) [OF assms(1) [OF i]] Cons_nth_drop_Suc [OF i] by simp
qed

lemma flat_items_view:
  assumes "flat_view ks flat es"
  shows "flat_items flat ks = Inr es"
proof (cases "es = []")
  case True
  then have "flat = []" using assms by (simp add: flat_view_def)
  then show ?thesis
    using True by (simp add: flat_items_def flat_iter_new_def flat_collect.simps)
next
  case ne: False
  then have ne': "flat \<noteq> []" using assms by (simp add: flat_view_def)
  have at: "flat_entry_at flat ks i = Inr (es ! i)" if "i < length es" for i
    using assms that by (simp add: flat_view_def)
  have cnt: "flat_count flat ks = Inr (length es)" using assms by (simp add: flat_view_def)
  show ?thesis
  proof (cases ks)
    case None
    from at [of 0] ne None cnt ne' obtain sec
      where sec: "slice_r flat (var_flat_entries_section_start (length es)) (length flat) = Inr sec"
      by (auto simp: flat_entry_at_def flat_count_def bindr_Inr_iff)
    have "flat_collect (FlatVarLen flat sec (length es) 0) = Inr (drop 0 es)"
    proof (rule flat_collect_from)
      fix i assume i: "i < length es"
      obtain off where "var_flat_read_entry_offset flat i = Inr off" "var_flat_parse_entry sec off = Inr (es ! i)"
        using at [OF i] None cnt ne' sec by (auto simp: flat_entry_at_def flat_count_def bindr_Inr_iff)
      then show "flat_next (FlatVarLen flat sec (length es) i) = Inr (Some (es ! i), FlatVarLen flat sec (length es) (Suc i))"
        using i by simp
    qed simp_all
    then show ?thesis
      using None cnt ne ne' sec by (simp add: flat_items_def flat_iter_new_def flat_count_def)
  next
    case (Some n)
    have "flat_collect (FlatFixed flat n (length es) 0) = Inr (drop 0 es)"
      by (rule flat_collect_from) (use at Some in \<open>simp_all add: flat_entry_at_def\<close>)
    then show ?thesis
      using Some cnt ne' by (simp add: flat_items_def flat_iter_new_def flat_count_def WAL_POSITION_LENGTH_def)
  qed
qed

section \<open>Binary search\<close>

lemma takeWhile_index:
  assumes "\<And>i j. i \<le> j \<Longrightarrow> j < length xs \<Longrightarrow> P (xs ! j) \<Longrightarrow> P (xs ! i)" "i < length xs"
  shows "P (xs ! i) \<longleftrightarrow> i < length (takeWhile P xs)"
proof
  assume "i < length (takeWhile P xs)"
  then have "takeWhile P xs ! i \<in> set (takeWhile P xs)" by (rule nth_mem)
  then show "P (xs ! i)"
    using set_takeWhileD takeWhile_nth [OF \<open>i < length (takeWhile P xs)\<close>] by fastforce
next
  assume p: "P (xs ! i)"
  show "i < length (takeWhile P xs)"
  proof (rule ccontr)
    assume "\<not> i < length (takeWhile P xs)"
    then have "length (takeWhile P xs) \<le> i" by simp
    then have "P (xs ! length (takeWhile P xs))" using assms p by blast
    moreover have "\<not> P (xs ! length (takeWhile P xs))"
      using \<open>length (takeWhile P xs) \<le> i\<close> assms(2) by (intro nth_length_takeWhile) simp
    ultimately show False by simp
  qed
qed

lemma sm_wf_nth_le:
  assumes "sm_wf es" "i \<le> j" "j < length es"
  shows "fst (es ! i) \<le> fst (es ! j)"
proof -
  have "sorted (map fst es)" using assms(1) by (simp add: sm_wf_def strict_sorted_imp_sorted)
  from sorted_nth_mono [OF this assms(2)] show ?thesis using assms by simp
qed

lemma key_index:
  assumes "sm_wf es" "i < length es"
  shows "fst (es ! i) < t \<longleftrightarrow> i < length (takeWhile (\<lambda>e. fst e < t) es)"
    and "fst (es ! i) \<le> t \<longleftrightarrow> i < length (takeWhile (\<lambda>e. fst e \<le> t) es)"
proof -
  have "fst (es ! i) < t" if "i \<le> j" "j < length es" "fst (es ! j) < t" for i j
    using sm_wf_nth_le [OF assms(1) that(1,2)] that(3) by (rule le_less_trans)
  from takeWhile_index [of es "\<lambda>e. fst e < t", OF this assms(2)]
  show "fst (es ! i) < t \<longleftrightarrow> i < length (takeWhile (\<lambda>e. fst e < t) es)" by simp
  have "fst (es ! i) \<le> t" if "i \<le> j" "j < length es" "fst (es ! j) \<le> t" for i j
    using sm_wf_nth_le [OF assms(1) that(1,2)] that(3) by (rule order.trans)
  from takeWhile_index [of es "\<lambda>e. fst e \<le> t", OF this assms(2)]
  show "fst (es ! i) \<le> t \<longleftrightarrow> i < length (takeWhile (\<lambda>e. fst e \<le> t) es)" by simp
qed

lemma lower_bound_loop_eq:
  assumes "flat_view ks flat es" "sm_wf es" "r = length (takeWhile (\<lambda>e. fst e < t) es)"
  shows "lo \<le> r \<Longrightarrow> r \<le> hi \<Longrightarrow> hi \<le> length es \<Longrightarrow> lower_bound_loop flat ks t lo hi = Inr r"
proof (induction "hi - lo" arbitrary: lo hi rule: less_induct)
  case less
  show ?case
  proof (cases "lo < hi")
    case True
    let ?m = "(lo + hi) div 2"
    have m: "lo \<le> ?m" "?m < hi" using True by auto
    then have at: "flat_entry_at flat ks ?m = Inr (es ! ?m)" "?m < length es"
      using assms(1) less.prems by (auto simp: flat_view_def)
    note key = key_index(1) [OF assms(2) at(2), of t, folded assms(3)]
    show ?thesis
    proof (cases "fst (es ! ?m) < t")
      case True
      then have "lower_bound_loop flat ks t (?m + 1) hi = Inr r"
        using less key m by (intro less.hyps) auto
      with True at m show ?thesis by (subst lower_bound_loop.simps) simp
    next
      case False
      then have "lower_bound_loop flat ks t lo ?m = Inr r"
        using less key m by (intro less.hyps) auto
      with False at m show ?thesis by (subst lower_bound_loop.simps) simp
    qed
  next
    case False
    with less.prems show ?thesis by (subst lower_bound_loop.simps) simp
  qed
qed

lemma upper_bound_loop_eq:
  assumes "flat_view ks flat es" "sm_wf es" "r = length (takeWhile (\<lambda>e. fst e \<le> t) es)"
  shows "lo \<le> r \<Longrightarrow> r \<le> hi \<Longrightarrow> hi \<le> length es \<Longrightarrow> upper_bound_loop flat ks t lo hi = Inr r"
proof (induction "hi - lo" arbitrary: lo hi rule: less_induct)
  case less
  show ?case
  proof (cases "lo < hi")
    case True
    let ?m = "(lo + hi) div 2"
    have m: "lo \<le> ?m" "?m < hi" using True by auto
    then have at: "flat_entry_at flat ks ?m = Inr (es ! ?m)" "?m < length es"
      using assms(1) less.prems by (auto simp: flat_view_def)
    note key = key_index(2) [OF assms(2) at(2), of t, folded assms(3)]
    show ?thesis
    proof (cases "fst (es ! ?m) \<le> t")
      case True
      then have "upper_bound_loop flat ks t (?m + 1) hi = Inr r"
        using less key m by (intro less.hyps) auto
      with True at m show ?thesis by (subst upper_bound_loop.simps) simp
    next
      case False
      then have "upper_bound_loop flat ks t lo ?m = Inr r"
        using less key m by (intro less.hyps) auto
      with False at m show ?thesis by (subst upper_bound_loop.simps) simp
    qed
  next
    case False
    with less.prems show ?thesis by (subst upper_bound_loop.simps) simp
  qed
qed

lemma flat_bounds_eq:
  assumes "flat_view ks flat es" "sm_wf es"
  shows "flat_lower_bound flat ks t = Inr (length (takeWhile (\<lambda>e. fst e < t) es))"
    and "flat_upper_bound flat ks t = Inr (length (takeWhile (\<lambda>e. fst e \<le> t) es))"
  using lower_bound_loop_eq [OF assms refl, of 0 t "length es"] upper_bound_loop_eq [OF assms refl, of 0 t "length es"]
    assms(1) by (simp_all add: flat_lower_bound_def flat_upper_bound_def flat_view_def length_takeWhile_le)

text \<open>Reading at the lower bound is looking the key up; the entries from the upper bound on are
  those after the key, the ones up to the lower bound those before it.\<close>

lemma lookup_at_lower_bound:
  assumes "sm_wf es" "r = length (takeWhile (\<lambda>e. fst e < k) es)"
  shows "map_of es k = (if r < length es \<and> fst (es ! r) = k then Some (snd (es ! r)) else None)"
proof (cases "\<exists>v. map_of es k = Some v")
  case True
  then obtain v where v: "map_of es k = Some v" by blast
  obtain i where i: "i < length es" "es ! i = (k, v)"
    using map_of_SomeD [OF v] by (auto simp: in_set_conv_nth)
  then have "\<not> i < r" using key_index(1) [OF assms(1) i(1), of k] assms(2) by simp
  moreover have "\<not> r < i"
  proof
    assume ri: "r < i"
    then have "\<not> fst (es ! r) < k" using key_index(1) [OF assms(1), of r k] assms(2) i(1) by simp
    moreover have "fst (es ! r) < fst (es ! i)"
      using assms(1) ri i(1) by (auto simp: sm_wf_def sorted_wrt_iff_nth_less)
    ultimately show False using i(2) by simp
  qed
  ultimately have "r = i" by simp
  then show ?thesis using i v by simp
next
  case False
  then have n: "map_of es k = None" by auto
  then have "k \<notin> fst ` set es" by (simp add: map_of_eq_None_iff)
  then have "\<not> (r < length es \<and> fst (es ! r) = k)" using nth_mem [of r es] by blast
  then show ?thesis using n by simp
qed

lemma sm_after_drop:
  assumes "sm_wf es"
  shows "sm_after (Some k) es = drop (length (takeWhile (\<lambda>e. fst e \<le> k) es)) es"
    and "sm_before (Some k) es = take (length (takeWhile (\<lambda>e. fst e < k) es)) es"
proof -
  show "sm_after (Some k) es = drop (length (takeWhile (\<lambda>e. fst e \<le> k) es)) es"
    using assms
  proof (induction es)
    case (Cons e es)
    obtain k' v' where e: "e = (k', v')" by (cases e)
    show ?case
    proof (cases "k' \<le> k")
      case True
      then show ?thesis using Cons e by (simp add: sm_after_def)
    next
      case False
      then have "\<forall>x \<in> set es. k < fst x" using Cons.prems e by force
      then show ?thesis using False e by (simp add: sm_after_def filter_id_conv)
    qed
  qed (simp add: sm_after_def)
  show "sm_before (Some k) es = take (length (takeWhile (\<lambda>e. fst e < k) es)) es"
    using assms
  proof (induction es)
    case (Cons e es)
    obtain k' v' where e: "e = (k', v')" by (cases e)
    show ?case
    proof (cases "k' < k")
      case True
      then show ?thesis using Cons e by (simp add: sm_before_def)
    next
      case False
      then have "\<forall>x \<in> set es. \<not> fst x < k" using Cons.prems e by force
      then show ?thesis using False e by (simp add: sm_before_def filter_empty_conv)
    qed
  qed (simp add: sm_before_def)
qed

section \<open>Merging\<close>

text \<open>The overlay never holds a key without positions.\<close>

definition positions_nonempty :: "data_overlay \<Rightarrow> bool" where
  "positions_nonempty data \<longleftrightarrow> list_all (\<lambda>e. snd e \<noteq> []) data"

definition latest :: "data_overlay \<Rightarrow> entry list" where
  "latest data = map (\<lambda>e. (fst e, last (snd e))) data"

lemma data_latest_per_key_eq: "positions_nonempty data \<Longrightarrow> data_latest_per_key data = Inr (latest data)"
  unfolding data_latest_per_key_def latest_def
  by (rule traverse_Inr) (auto simp: positions_nonempty_def list_all_iff last_of_def)

lemma latest_keys [simp]: "map fst (latest data) = map fst data"
  by (simp add: latest_def)

lemma sm_wf_latest [simp]: "sm_wf (latest data) \<longleftrightarrow> sm_wf data"
  by (rule sm_wf_map_keys) simp

lemma map_of_latest: "map_of (latest data) k = map_option last (map_of data k)"
  using map_of_map_snd [of "\<lambda>_. last" data k] by (simp add: latest_def)

definition merged_entries :: "entry list \<Rightarrow> data_overlay \<Rightarrow> last_processed \<Rightarrow> entry list" where
  "merged_entries es data lp = merge_over es (filter (\<lambda>e. is_processed lp (iwp_offset (snd e))) (latest data))"

lemma merge_walk_eq:
  assumes "flat_view ks flat es" "positions_nonempty data"
  shows "merge_walk flat ks data lp = Inr (merged_entries es data lp)"
  using flat_items_view [OF assms(1)] data_latest_per_key_eq [OF assms(2)]
  by (simp add: merge_walk_def merged_entries_def)

lemma merge_into_flat_spec:
  assumes "flat_view ks flat es" "positions_nonempty data" "flat_ok ks (merged_entries es data lp)"
  shows "\<exists>flat'. merge_into_flat flat ks data lp
      = Inr (flat', length (filter (\<lambda>e. \<not> is_clean (snd e)) (merged_entries es data lp)))
    \<and> flat_view ks flat' (merged_entries es data lp)"
proof -
  let ?ms = "merged_entries es data lp"
  note w = merge_walk_eq [OF assms(1,2), of lp]
  show ?thesis
  proof (cases "?ms = []")
    case True
    then show ?thesis using w by (simp add: merge_into_flat_def flat_view_def flat_count_def)
  next
    case ne: False
    show ?thesis
    proof (cases ks)
      case None
      let ?n = "put_u32 (of_nat (length ?ms))"
      have "append_varlen 4 (4 + 4 * length ?ms) 0 ?ms (?n @ [] @ replicate (4 * length ?ms) 0 @ [])
          = Inr (?n @ [] @ concat (map put_u32 (offs_from (length ([] :: bytes)) ?ms)) @ [] @ concat (map var_bytes ?ms))"
        using assms(3) None by (intro append_varlen_eq) (simp_all add: flat_ok_def)
      then show ?thesis
        using w ne None assms(3) varlen_view [of ?ms]
        by (simp add: merge_into_flat_def Let_def varlen_bytes_def)
    next
      case (Some n)
      then show ?thesis
        using w ne assms(3) append_fixed_eq [of ?ms "[]"] fixed_view [of n ?ms]
        by (simp add: merge_into_flat_def Let_def flat_ok_def)
    qed
  qed
qed

section \<open>Properties\<close>

text \<open>C15. The packed buffer is a faithful ordered map: for entries the format can hold, building
  it succeeds, iterating it and indexing it give the entries back, and both binary searches
  return exactly the boundary among the ascending keys.\<close>

theorem flat_buffer_roundtrip:
  assumes "flat_ok ks es" "sm_wf es"
  shows "\<exists>flat. build_flat_bytes es ks = Inr flat \<and> flat_items flat ks = Inr es
    \<and> flat_count flat ks = Inr (length es)
    \<and> (\<forall>i < length es. flat_entry_at flat ks i = Inr (es ! i))
    \<and> (\<forall>t. flat_lower_bound flat ks t = Inr (length (takeWhile (\<lambda>e. fst e < t) es))
         \<and> flat_upper_bound flat ks t = Inr (length (takeWhile (\<lambda>e. fst e \<le> t) es)))"
proof -
  obtain flat where b: "build_flat_bytes es ks = Inr flat" "flat_view ks flat es"
    using build_flat_view [OF assms(1)] by blast
  then show ?thesis
    using flat_items_view [OF b(2)] flat_bounds_eq [OF b(2) assms(2)] by (auto simp: flat_view_def)
qed

theorem flat_buffer_roundtrip_witness:
  "\<exists>flat. build_flat_bytes [([1], IWP 8 9 Modified), ([1, 2], IWP 16 20 Removed)] None = Inr flat
    \<and> flat_items flat None = Inr [([1], IWP 8 9 Modified), ([1, 2], IWP 16 20 Removed)]
    \<and> flat_lower_bound flat None [1, 0] = Inr 1"
proof -
  let ?es = "[([1], IWP 8 9 Modified), ([1, 2], IWP 16 20 Removed)] :: entry list"
  have ok: "flat_ok None ?es" by (simp add: flat_ok_def len_ok_def)
  have wf: "sm_wf ?es" by simp
  have t: "length (takeWhile (\<lambda>e. fst e < [1, 0]) ?es) = 1" by simp
  show ?thesis using flat_buffer_roundtrip [OF ok wf] t by metis
qed

text \<open>C16. Merging the overlay into a buffer yields the buffer of the merged entries: exactly the
  overlay keys whose latest position is processed replace or join the old entries, everything
  else stays, and the returned dirty count is theirs.\<close>

theorem merge_into_flat_correct:
  assumes "build_flat_bytes es ks = Inr flat" "flat_ok ks es" "sm_wf es" "sm_wf data"
    and "positions_nonempty data" "flat_ok ks (merged_entries es data lp)"
  shows "\<exists>flat' ms. merge_into_flat flat ks data lp = Inr (flat', length (filter (\<lambda>e. \<not> is_clean (snd e)) ms))
    \<and> flat_items flat' ks = Inr ms \<and> sm_wf ms
    \<and> (\<forall>k. map_of ms k = (case map_of data k of
          None \<Rightarrow> map_of es k
        | Some ps \<Rightarrow> if is_processed lp (iwp_offset (last ps)) then Some (last ps) else map_of es k))"
proof -
  have v: "flat_view ks flat es" using build_flat_view [OF assms(2)] assms(1) by auto
  let ?ms = "merged_entries es data lp"
  obtain flat' where m: "merge_into_flat flat ks data lp = Inr (flat', length (filter (\<lambda>e. \<not> is_clean (snd e)) ?ms))"
      "flat_view ks flat' ?ms"
    using merge_into_flat_spec [OF v assms(5,6)] by blast
  let ?f = "filter (\<lambda>e. is_processed lp (iwp_offset (snd e))) (latest data)"
  have wf: "sm_wf ?f" using assms(4) by (simp add: sm_wf_filter)
  have "map_of ?f k = (case map_of data k of None \<Rightarrow> None
      | Some ps \<Rightarrow> if is_processed lp (iwp_offset (last ps)) then Some (last ps) else None)" for k
    using map_of_sm_retain [of "latest data" "\<lambda>_ v. is_processed lp (iwp_offset v)" k] assms(4)
    by (simp add: sm_retain_def map_of_latest split: option.splits)
  then have "map_of ?ms k = (case map_of data k of None \<Rightarrow> map_of es k
      | Some ps \<Rightarrow> if is_processed lp (iwp_offset (last ps)) then Some (last ps) else map_of es k)" for k
    using map_of_merge_over [OF assms(3) wf]
    by (simp add: merged_entries_def map_add_def split: option.splits)
  then show ?thesis
    using m flat_items_view [OF m(2)] sm_wf_merge_over [OF assms(3) wf]
    unfolding merged_entries_def by blast
qed

theorem merge_into_flat_correct_witness:
  "\<exists>flat' ms. merge_into_flat [] (Some 1) [([1], [IWP 8 9 Modified]), ([2], [IWP 16 9 Modified])] 16
      = Inr (flat', length (filter (\<lambda>e. \<not> is_clean (snd e)) ms))
    \<and> flat_items flat' (Some 1) = Inr ms \<and> map_of ms [1] = Some (IWP 8 9 Modified) \<and> map_of ms [2] = None"
proof -
  let ?d = "[([1], [IWP 8 9 Modified]), ([2], [IWP 16 9 Modified])] :: data_overlay"
  have b: "build_flat_bytes [] (Some 1) = Inr []" by (simp add: build_flat_bytes_def)
  have ok: "flat_ok (Some 1) []" by (simp add: flat_ok_def)
  have wf: "sm_wf ([] :: entry list)" "sm_wf ?d" "positions_nonempty ?d" by (simp_all add: positions_nonempty_def)
  have m: "flat_ok (Some 1) (merged_entries [] ?d 16)" by code_simp
  from merge_into_flat_correct [OF b ok wf m] obtain flat' ms where
    r: "merge_into_flat [] (Some 1) ?d 16 = Inr (flat', length (filter (\<lambda>e. \<not> is_clean (snd e)) ms))"
      "flat_items flat' (Some 1) = Inr ms"
      "\<And>k. map_of ms k = (case map_of ?d k of None \<Rightarrow> map_of [] k
          | Some ps \<Rightarrow> if is_processed 16 (iwp_offset (last ps)) then Some (last ps) else map_of [] k)"
    by blast
  show ?thesis using r(1,2) r(3) [of "[1]"] r(3) [of "[2]"]
    by (intro exI conjI) (assumption | simp add: is_processed_def)+
qed

end
