(* ===== verification/Index_Table.thy ===== *)
theory Index_Table
  imports Flat_Buffer
begin

text \<open>
  \<open>IndexTable\<close> of \<open>tidehunter/src/index/index_table/mod.rs\<close>: the index of one cell, a write
  overlay (\<open>data\<close>, per key the positions written, ascending) over a packed buffer (\<open>flat\<close>). This
  theory has the state, the write path and every read path; \<open>Index_Merge\<close> has the bulk
  operations and \<open>Index_Codec\<close> the serialised form. Checks under \<open>debug_assert\<close> or
  \<open>cfg(debug_assertions)\<close> are not part of the release build and are left out.
\<close>

record index_table =
  data :: data_overlay
  key_bytes :: usize
  dirty_count :: usize
  flat :: bytes
  key_size :: "usize option"

definition index_table_default :: index_table where
  "index_table_default = \<lparr>data = [], key_bytes = 0, dirty_count = 0, flat = [], key_size = None\<rparr>"

datatype write_order = Latest | Stale

text \<open>\<open>slice::binary_search_by_key\<close> on a list ascending by the key: the matching index (\<open>Inr\<close>), or
  the slot where the key belongs (\<open>Inl\<close>); \<open>Vec::insert\<close>.\<close>

definition binary_search_by_key :: "('a \<Rightarrow> 'k::linorder) \<Rightarrow> 'k \<Rightarrow> 'a list \<Rightarrow> nat + nat" where
  "binary_search_by_key f k xs =
     (let i = length (takeWhile (\<lambda>x. f x < k) xs)
      in if i < length xs \<and> f (xs ! i) = k then Inr i else Inl i)"

definition insert_at :: "nat \<Rightarrow> 'a \<Rightarrow> 'a list \<Rightarrow> 'a list" where
  "insert_at i x xs = take i xs @ x # drop i xs"

text \<open>\<open>dirty_count -= 1\<close> wraps at zero in the release build.\<close>

definition adjust_dirty_count :: "usize \<Rightarrow> bool \<Rightarrow> bool \<Rightarrow> usize" where
  "adjust_dirty_count n was_dirty is_dirty =
     (if was_dirty \<and> \<not> is_dirty then (if n = 0 then 2 ^ 64 - 1 else n - 1)
      else if \<not> was_dirty \<and> is_dirty then n + 1
      else n)"

section \<open>The overlay\<close>

definition data_get_latest :: "index_table \<Rightarrow> bytes \<Rightarrow> index_wal_position option res" where
  "data_get_latest t key =
     (case map_of (data t) key of
        None \<Rightarrow> Inr None
      | Some ps \<Rightarrow> bindr (expectr (last_of ps)) (\<lambda>v. Inr (Some v)))"

definition data_insert_sorted :: "bytes \<Rightarrow> index_wal_position \<Rightarrow> data_overlay \<Rightarrow> data_overlay" where
  "data_insert_sorted key v d =
     (let ps = (case map_of d key of None \<Rightarrow> [] | Some ps \<Rightarrow> ps)
      in case binary_search_by_key id v ps of
           Inl pos \<Rightarrow> sm_insert key (insert_at pos v ps) d
         | Inr _ \<Rightarrow> sm_insert key ps d)"

definition processed_prefix :: "data_positions \<Rightarrow> last_processed \<Rightarrow> data_positions" where
  "processed_prefix ps lp = takeWhile (\<lambda>v. is_processed lp (iwp_offset v)) ps"

definition data_get_latest_processed :: "index_table \<Rightarrow> bytes \<Rightarrow> last_processed \<Rightarrow> index_wal_position option" where
  "data_get_latest_processed t key lp =
     (case map_of (data t) key of None \<Rightarrow> None | Some ps \<Rightarrow> last_of (processed_prefix ps lp))"

definition data_contains_key :: "index_table \<Rightarrow> bytes \<Rightarrow> bool" where
  "data_contains_key t key \<longleftrightarrow> map_of (data t) key \<noteq> None"

definition data_iter_latest :: "index_table \<Rightarrow> entry list res" where
  "data_iter_latest t = data_latest_per_key (data t)"

definition data_unique_key_count :: "index_table \<Rightarrow> usize" where
  "data_unique_key_count t = length (data t)"

definition with_last :: "(bytes \<times> data_positions) option \<Rightarrow> entry option res" where
  "with_last x =
     (case x of
        None \<Rightarrow> Inr None
      | Some (k, ps) \<Rightarrow> bindr (expectr (last_of ps)) (\<lambda>v. Inr (Some (k, v))))"

definition data_next_forward :: "index_table \<Rightarrow> bytes option \<Rightarrow> entry option res" where
  "data_next_forward t prev = with_last (first_of (sm_after prev (data t)))"

definition data_next_reverse :: "index_table \<Rightarrow> bytes option \<Rightarrow> entry option res" where
  "data_next_reverse t prev = with_last (last_of (sm_before prev (data t)))"

text \<open>\<open>find_map\<close> over the keys, and within a key the latest processed position, found from the back.\<close>

fun find_processed :: "last_processed \<Rightarrow> data_overlay \<Rightarrow> entry option" where
  "find_processed lp [] = None"
| "find_processed lp ((k, ps) # d) =
     (case find (\<lambda>v. is_processed lp (iwp_offset v)) (rev ps) of
        Some v \<Rightarrow> Some (k, v)
      | None \<Rightarrow> find_processed lp d)"

definition data_next_forward_at :: "index_table \<Rightarrow> bytes option \<Rightarrow> last_processed \<Rightarrow> entry option" where
  "data_next_forward_at t prev lp = find_processed lp (sm_after prev (data t))"

definition data_next_reverse_at :: "index_table \<Rightarrow> bytes option \<Rightarrow> last_processed \<Rightarrow> entry option" where
  "data_next_reverse_at t prev lp = find_processed lp (rev (sm_before prev (data t)))"

text \<open>Key bytes and dirty keys of a list of entries, accumulated as the recounting loops do.\<close>

definition count_dirty :: "entry list \<Rightarrow> usize" where
  "count_dirty es = length (filter (\<lambda>e. \<not> is_clean (snd e)) es)"

definition sum_key_bytes :: "entry list \<Rightarrow> usize" where
  "sum_key_bytes es = sum_list (map (\<lambda>e. length (fst e)) es)"

definition recount_data_stats :: "index_table \<Rightarrow> (usize \<times> usize) res" where
  "recount_data_stats t =
     bindr (data_iter_latest t) (\<lambda>ls. Inr (sum_key_bytes ls, count_dirty ls))"

definition recount_stats :: "index_table \<Rightarrow> (usize \<times> usize) res" where
  "recount_stats t =
     bindr (flat_items (flat t) (key_size t)) (\<lambda>fs.
     bindr (recount_data_stats t) (\<lambda>(kb, dd). Inr (kb, count_dirty fs + dd)))"

definition with_stats :: "index_table \<Rightarrow> index_table res" where
  "with_stats t = bindr (recount_stats t) (\<lambda>(kb, dc). Inr (t\<lparr>key_bytes := kb, dirty_count := dc\<rparr>))"

section \<open>The packed buffer\<close>

definition flat_len :: "index_table \<Rightarrow> usize res" where
  "flat_len t = flat_count (flat t) (key_size t)"

definition flat_binary_search :: "index_table \<Rightarrow> bytes \<Rightarrow> index_wal_position option res" where
  "flat_binary_search t key =
     (if flat t = [] then Inr None
      else
        bindr (flat_lower_bound (flat t) (key_size t) key) (\<lambda>idx.
        bindr (flat_count (flat t) (key_size t)) (\<lambda>count.
          if count \<le> idx then Inr None
          else bindr (flat_entry_at (flat t) (key_size t) idx) (\<lambda>(found_key, v).
                 Inr (if found_key = key then Some v else None)))))"

definition flat_next_forward :: "index_table \<Rightarrow> bytes option \<Rightarrow> (bytes \<times> wal_position) option res" where
  "flat_next_forward t prev =
     (if flat t = [] then Inr None
      else
        bindr (case prev of Some p \<Rightarrow> flat_upper_bound (flat t) (key_size t) p | None \<Rightarrow> Inr 0) (\<lambda>idx.
        bindr (flat_count (flat t) (key_size t)) (\<lambda>count.
          if count \<le> idx then Inr None
          else bindr (flat_entry_at (flat t) (key_size t) idx) (\<lambda>(key, v).
                 Inr (Some (key, into_wal_position v))))))"

definition flat_next_reverse :: "index_table \<Rightarrow> bytes option \<Rightarrow> (bytes \<times> wal_position) option res" where
  "flat_next_reverse t prev =
     (if flat t = [] then Inr None
      else
        bindr (flat_count (flat t) (key_size t)) (\<lambda>count.
        bindr (case prev of
                 Some p \<Rightarrow> bindr (flat_lower_bound (flat t) (key_size t) p) (\<lambda>lb.
                             Inr (if lb = 0 then None else Some (lb - 1)))
               | None \<Rightarrow> Inr (if count = 0 then None else Some (count - 1))) (\<lambda>idx.
          case idx of
            None \<Rightarrow> Inr None
          | Some i \<Rightarrow> bindr (flat_entry_at (flat t) (key_size t) i) (\<lambda>(key, v).
                        Inr (Some (key, into_wal_position v))))))"

section \<open>Writes\<close>

definition checked_insert :: "bytes \<Rightarrow> index_wal_position \<Rightarrow> index_table \<Rightarrow> (index_table \<times> write_order) res" where
  "checked_insert k v t =
     (case map_of (data t) k of
        Some ps \<Rightarrow>
          bindr (expectr (last_of ps)) (\<lambda>prev.
            if iwp_offset v < iwp_offset prev then
              (case binary_search_by_key iwp_offset (iwp_offset v) ps of
                 Inl slot \<Rightarrow> Inr (t\<lparr>data := sm_insert k (insert_at slot v ps) (data t)\<rparr>, Stale)
               | Inr _ \<Rightarrow> Inl ExplicitPanic)
            else
              assertr (iwp_offset prev < iwp_offset v)
                (Inr (t\<lparr>data := sm_insert k (ps @ [v]) (data t),
                        dirty_count := adjust_dirty_count (dirty_count t) (\<not> is_clean prev) (\<not> is_clean v)\<rparr>,
                      Latest)))
      | None \<Rightarrow>
          Inr (t\<lparr>data := sm_insert k [v] (data t), key_bytes := key_bytes t + length k,
                 dirty_count := adjust_dirty_count (dirty_count t) False (\<not> is_clean v)\<rparr>,
               Latest))"

definition index_insert :: "bytes \<Rightarrow> wal_position \<Rightarrow> index_table \<Rightarrow> (index_table \<times> write_order) res" where
  "index_insert k v t = checked_insert k (new_modified v) t"

definition index_remove :: "bytes \<Rightarrow> wal_position \<Rightarrow> index_table \<Rightarrow> (index_table \<times> write_order) res" where
  "index_remove k v t = checked_insert k (new_removed v) t"

section \<open>Reads\<close>

definition contains_key :: "index_table \<Rightarrow> bytes \<Rightarrow> bool res" where
  "contains_key t k =
     (if data_contains_key t k then Inr True
      else bindr (flat_binary_search t k) (\<lambda>v. Inr (v \<noteq> None)))"

definition index_get :: "index_table \<Rightarrow> bytes \<Rightarrow> wal_position option res" where
  "index_get t k =
     bindr (data_get_latest t k) (\<lambda>x.
       case x of
         Some p \<Rightarrow> Inr (Some (into_wal_position p))
       | None \<Rightarrow> bindr (flat_binary_search t k) (\<lambda>v. Inr (map_option into_wal_position v)))"

definition index_get_at :: "index_table \<Rightarrow> bytes \<Rightarrow> last_processed \<Rightarrow> wal_position option res" where
  "index_get_at t k lp =
     (case data_get_latest_processed t k lp of
        Some p \<Rightarrow> Inr (Some (into_wal_position p))
      | None \<Rightarrow> bindr (flat_binary_search t k) (\<lambda>v. Inr (map_option into_wal_position v)))"

text \<open>The choice between the overlay's and the buffer's candidate, shared by both walks.\<close>

definition pick_candidate :: "bool \<Rightarrow> entry option \<Rightarrow> (bytes \<times> wal_position) option \<Rightarrow> (bytes \<times> wal_position) option" where
  "pick_candidate reverse d f =
     (case (d, f) of
        (None, None) \<Rightarrow> None
      | (Some (bk, bv), None) \<Rightarrow> Some (bk, into_wal_position bv)
      | (None, Some (fk, fv)) \<Rightarrow> Some (fk, fv)
      | (Some (bk, bv), Some (fk, fv)) \<Rightarrow>
          if (if reverse then \<not> bk < fk else \<not> fk < bk) then Some (bk, into_wal_position bv)
          else Some (fk, fv))"

definition next_entry :: "index_table \<Rightarrow> bytes option \<Rightarrow> bool \<Rightarrow> (bytes \<times> wal_position) option res" where
  "next_entry t prev reverse =
     bindr (if reverse then data_next_reverse t prev else data_next_forward t prev) (\<lambda>d.
     bindr (if reverse then flat_next_reverse t prev else flat_next_forward t prev) (\<lambda>f.
       Inr (pick_candidate reverse d f)))"

definition next_entry_at :: "index_table \<Rightarrow> bytes option \<Rightarrow> bool \<Rightarrow> last_processed \<Rightarrow> (bytes \<times> wal_position) option res" where
  "next_entry_at t prev reverse lp =
     (let d = (if reverse then data_next_reverse_at t prev lp else data_next_forward_at t prev lp)
      in bindr (if reverse then flat_next_reverse t prev else flat_next_forward t prev) (\<lambda>f.
           Inr (pick_candidate reverse d f)))"

definition index_len :: "index_table \<Rightarrow> usize res" where
  "index_len t = bindr (flat_len t) (\<lambda>n. Inr (n + data_unique_key_count t))"

definition index_is_empty :: "index_table \<Rightarrow> bool" where
  "index_is_empty t \<longleftrightarrow> data t = [] \<and> flat t = []"

definition iter_combined :: "index_table \<Rightarrow> entry list res" where
  "iter_combined t =
     bindr (flat_items (flat t) (key_size t)) (\<lambda>fs.
     bindr (data_iter_latest t) (\<lambda>ds. Inr (merge_over fs ds)))"

definition iter_inner :: "index_table \<Rightarrow> bool \<Rightarrow> (bytes \<times> wal_position) list res" where
  "iter_inner t include_tombstones =
     bindr (iter_combined t) (\<lambda>es.
       Inr (filter (\<lambda>e. include_tombstones \<or> is_valid (snd e))
              (map (\<lambda>e. (fst e, into_wal_position (snd e))) es)))"

definition iter_with_tombstones :: "index_table \<Rightarrow> (bytes \<times> wal_position) list res" where
  "iter_with_tombstones t = iter_inner t True"

definition index_iter :: "index_table \<Rightarrow> (bytes \<times> wal_position) list res" where
  "index_iter t = iter_inner t False"

definition index_keys :: "index_table \<Rightarrow> bytes list res" where
  "index_keys t = bindr (iter_combined t) (\<lambda>es. Inr (map fst (filter (\<lambda>e. \<not> is_removed (snd e)) es)))"

definition into_entries :: "index_table \<Rightarrow> (bytes \<times> wal_position) list res" where
  "into_entries t =
     assertr (data t = [])
     (bindr (flat_count (flat t) (key_size t)) (\<lambda>count.
      bindr (traverse (flat_entry_at (flat t) (key_size t)) [0..<count]) (\<lambda>es.
        Inr (filter (\<lambda>e. is_valid (snd e)) (map (\<lambda>e. (fst e, into_wal_position (snd e))) es)))))"

definition total_key_bytes :: "index_table \<Rightarrow> usize" where
  "total_key_bytes t = key_bytes t + length (flat t)"

definition flat_key_bytes :: "index_table \<Rightarrow> usize" where
  "flat_key_bytes t = length (flat t)"

section \<open>Invariant and views\<close>

text \<open>Per key the offsets ascend strictly; the buffer decodes to ascending entries it can hold; the
  cached statistics are what a recount gives.\<close>

definition positions_ok :: "data_positions \<Rightarrow> bool" where
  "positions_ok ps \<longleftrightarrow> ps \<noteq> [] \<and> sorted_wrt (\<lambda>a b. iwp_offset a < iwp_offset b) ps"

definition overlay_ok :: "data_overlay \<Rightarrow> bool" where
  "overlay_ok d \<longleftrightarrow> sm_wf d \<and> list_all (\<lambda>e. positions_ok (snd e)) d"

definition flat_entries :: "index_table \<Rightarrow> entry list" where
  "flat_entries t = (case flat_items (flat t) (key_size t) of Inr es \<Rightarrow> es | Inl _ \<Rightarrow> [])"

definition flat_wf :: "index_table \<Rightarrow> bool" where
  "flat_wf t \<longleftrightarrow> flat_view (key_size t) (flat t) (flat_entries t)
   \<and> sm_wf (flat_entries t) \<and> flat_ok (key_size t) (flat_entries t)"

definition stats_ok :: "index_table \<Rightarrow> bool" where
  "stats_ok t \<longleftrightarrow> key_bytes t = sum_key_bytes (latest (data t))
   \<and> dirty_count t = count_dirty (flat_entries t) + count_dirty (latest (data t))"

definition index_inv :: "index_table \<Rightarrow> bool" where
  "index_inv t \<longleftrightarrow> overlay_ok (data t) \<and> flat_wf t \<and> stats_ok t"

text \<open>A table loaded from a blob has these two only: its \<open>dirty_count\<close> is zero whatever tombstones the
  blob holds.\<close>

definition table_wf :: "index_table \<Rightarrow> bool" where
  "table_wf t \<longleftrightarrow> overlay_ok (data t) \<and> flat_wf t"

lemma index_inv_wf [intro]: "index_inv t \<Longrightarrow> table_wf t"
  by (simp add: index_inv_def table_wf_def)

text \<open>The live entry of a key and its entry as of a frontier.\<close>

definition processed :: "last_processed \<Rightarrow> data_positions \<Rightarrow> data_positions" where
  "processed lp ps = filter (\<lambda>v. is_processed lp (iwp_offset v)) ps"

definition live :: "index_table \<Rightarrow> bytes \<Rightarrow> index_wal_position option" where
  "live t k = (case map_of (data t) k of Some ps \<Rightarrow> Some (last ps) | None \<Rightarrow> map_of (flat_entries t) k)"

definition overlay_at :: "last_processed \<Rightarrow> data_overlay \<Rightarrow> bytes \<Rightarrow> index_wal_position option" where
  "overlay_at lp d k = (case map_of d k of None \<Rightarrow> None | Some ps \<Rightarrow> last_of (processed lp ps))"

definition live_at :: "index_table \<Rightarrow> last_processed \<Rightarrow> bytes \<Rightarrow> index_wal_position option" where
  "live_at t lp k =
     (case overlay_at lp (data t) k of Some v \<Rightarrow> Some v | None \<Rightarrow> map_of (flat_entries t) k)"

definition combined :: "index_table \<Rightarrow> entry list" where
  "combined t = merge_over (flat_entries t) (latest (data t))"

lemma overlay_okD:
  assumes "overlay_ok d"
  shows "sm_wf d" "positions_nonempty d" "map_of d k = Some ps \<Longrightarrow> positions_ok ps"
  using assms map_of_SomeD [of d k ps]
  by (auto simp: overlay_ok_def positions_nonempty_def list_all_iff positions_ok_def)

lemma overlay_ok_insert:
  assumes "overlay_ok d" "positions_ok ps"
  shows "overlay_ok (sm_insert k ps d)"
proof -
  have "positions_ok (snd e)" if "e \<in> set (sm_insert k ps d)" for e
  proof -
    have wf: "sm_wf (sm_insert k ps d)" using assms(1) by (simp add: overlay_ok_def sm_wf_insert)
    have "map_of (sm_insert k ps d) (fst e) = Some (snd e)"
      using that map_of_is_SomeI [OF sm_wf_distinct [OF wf], of "fst e" "snd e"] by simp
    then show ?thesis
      using assms overlay_okD(3) [OF assms(1)] by (auto simp: map_of_sm_insert split: if_splits)
  qed
  then show ?thesis using assms by (simp add: overlay_ok_def sm_wf_insert list_all_iff)
qed

lemma flat_entries_eq: "flat_view (key_size t) (flat t) es \<Longrightarrow> flat_entries t = es"
  by (simp add: flat_entries_def flat_items_view)

lemma flat_entries_cong: "flat t = flat u \<Longrightarrow> key_size t = key_size u \<Longrightarrow> flat_entries t = flat_entries u"
  by (simp add: flat_entries_def)

lemma flat_wf_cong: "flat t = flat u \<Longrightarrow> key_size t = key_size u \<Longrightarrow> flat_wf t = flat_wf u"
  using flat_entries_cong [of t u] by (simp add: flat_wf_def)

lemma flat_entries_update [simp]:
  "flat_entries (t\<lparr>data := d\<rparr>) = flat_entries t" "flat_entries (t\<lparr>key_bytes := n\<rparr>) = flat_entries t"
  "flat_entries (t\<lparr>dirty_count := n\<rparr>) = flat_entries t"
  by (simp_all add: flat_entries_def)

lemma flat_wf_update [simp]:
  "flat_wf (t\<lparr>data := d\<rparr>) = flat_wf t" "flat_wf (t\<lparr>key_bytes := n\<rparr>) = flat_wf t"
  "flat_wf (t\<lparr>dirty_count := n\<rparr>) = flat_wf t"
  by (simp_all add: flat_wf_def)

lemma flat_wfI: "flat_view (key_size t) (flat t) es \<Longrightarrow> sm_wf es \<Longrightarrow> flat_ok (key_size t) es \<Longrightarrow> flat_wf t"
  using flat_entries_eq [of t es] by (simp add: flat_wf_def)

lemma flat_items_eq: "flat_wf t \<Longrightarrow> flat_items (flat t) (key_size t) = Inr (flat_entries t)"
  by (simp add: flat_wf_def flat_items_view)

lemma recount_eq:
  assumes "overlay_ok (data t)" "flat_wf t"
  shows "recount_data_stats t = Inr (sum_key_bytes (latest (data t)), count_dirty (latest (data t)))"
    and "recount_stats t = Inr (sum_key_bytes (latest (data t)),
           count_dirty (flat_entries t) + count_dirty (latest (data t)))"
proof -
  show 1: "recount_data_stats t = Inr (sum_key_bytes (latest (data t)), count_dirty (latest (data t)))"
    using data_latest_per_key_eq [OF overlay_okD(2) [OF assms(1)]]
    by (simp add: recount_data_stats_def data_iter_latest_def)
  show "recount_stats t = Inr (sum_key_bytes (latest (data t)),
           count_dirty (flat_entries t) + count_dirty (latest (data t)))"
    using 1 flat_items_eq [OF assms(2)] by (simp add: recount_stats_def)
qed

text \<open>A bulk operation that ends in a recount ends in the invariant.\<close>

lemma with_stats_inv:
  assumes "overlay_ok (data t)" "flat_wf t"
  shows "\<exists>t'. with_stats t = Inr t' \<and> index_inv t' \<and> data t' = data t \<and> flat t' = flat t
    \<and> key_size t' = key_size t \<and> flat_entries t' = flat_entries t"
  using recount_eq(2) [OF assms] assms by (simp add: with_stats_def index_inv_def stats_ok_def)

lemma inv_default: "index_inv index_table_default"
  by (simp add: index_inv_def overlay_ok_def flat_wf_def stats_ok_def index_table_default_def
      flat_entries_def flat_items_def flat_iter_new_def flat_collect.simps flat_view_def flat_count_def
      flat_ok_def latest_def sum_key_bytes_def count_dirty_def)

section \<open>Point reads\<close>

lemma flat_binary_search_eq:
  assumes "flat_wf t"
  shows "flat_binary_search t k = Inr (map_of (flat_entries t) k)"
proof (cases "flat t = []")
  case True
  then have "flat_entries t = []" using assms by (simp add: flat_wf_def flat_view_def)
  then show ?thesis using True by (simp add: flat_binary_search_def)
next
  case False
  let ?es = "flat_entries t" and ?r = "length (takeWhile (\<lambda>e. fst e < k) (flat_entries t))"
  have v: "flat_view (key_size t) (flat t) ?es" and wf: "sm_wf ?es" using assms by (simp_all add: flat_wf_def)
  note b = flat_bounds_eq(1) [OF v wf, of k] and l = lookup_at_lower_bound [OF wf refl, of k]
  show ?thesis
  proof (cases "?r < length ?es")
    case True
    then have at: "flat_entry_at (flat t) (key_size t) ?r = Inr (?es ! ?r)"
      using v by (simp add: flat_view_def)
    obtain fk fv where e: "?es ! ?r = (fk, fv)" by (cases "?es ! ?r")
    show ?thesis using False True b l v at e by (simp add: flat_binary_search_def flat_view_def)
  next
    case nr: False
    then show ?thesis using False b l v by (simp add: flat_binary_search_def flat_view_def)
  qed
qed

lemma data_get_latest_eq:
  assumes "overlay_ok (data t)"
  shows "data_get_latest t k = Inr (map_option last (map_of (data t) k))"
proof (cases "map_of (data t) k")
  case (Some ps)
  then have "ps \<noteq> []" using overlay_okD(3) [OF assms Some] by (simp add: positions_ok_def)
  then show ?thesis using Some by (simp add: data_get_latest_def last_of_def)
qed (simp add: data_get_latest_def)

lemma index_get_wf:
  assumes "table_wf t"
  shows "index_get t k = Inr (map_option into_wal_position (live t k))"
  using assms data_get_latest_eq [of t k] flat_binary_search_eq [of t k]
  by (cases "map_of (data t) k") (simp_all add: index_get_def table_wf_def live_def)

lemmas index_get_eq = index_get_wf [OF index_inv_wf]

lemma contains_key_eq: "index_inv t \<Longrightarrow> contains_key t k = Inr (live t k \<noteq> None)"
  using flat_binary_search_eq [of t k]
  by (cases "map_of (data t) k") (simp_all add: contains_key_def data_contains_key_def index_inv_def live_def)

lemma processed_prefix_eq:
  assumes "sorted_wrt (\<lambda>a b. iwp_offset a < iwp_offset b) ps"
  shows "processed_prefix ps lp = processed lp ps"
  using assms
proof (induction ps)
  case (Cons p ps)
  show ?case
  proof (cases "is_processed lp (iwp_offset p)")
    case True
    then show ?thesis using Cons by (simp add: processed_prefix_def processed_def)
  next
    case False
    then have "\<not> is_processed lp (iwp_offset q)" if "q \<in> set ps" for q
      using Cons.prems that by (auto simp: is_processed_def)
    then show ?thesis using False by (simp add: processed_prefix_def processed_def filter_empty_conv)
  qed
qed (simp add: processed_prefix_def processed_def)

lemma data_get_latest_processed_eq:
  assumes "overlay_ok (data t)"
  shows "data_get_latest_processed t k lp = overlay_at lp (data t) k"
  using overlay_okD(3) [OF assms, of k] processed_prefix_eq [of _ lp]
  by (cases "map_of (data t) k") (simp_all add: data_get_latest_processed_def overlay_at_def positions_ok_def)

lemma index_get_at_wf:
  assumes "table_wf t"
  shows "index_get_at t k lp = Inr (map_option into_wal_position (live_at t lp k))"
  using assms data_get_latest_processed_eq [of t k lp] flat_binary_search_eq [of t k]
  by (simp add: index_get_at_def table_wf_def live_at_def split: option.splits)

lemmas index_get_at_eq = index_get_at_wf [OF index_inv_wf]

section \<open>Writes\<close>

definition ins_pos :: "index_wal_position \<Rightarrow> data_positions \<Rightarrow> data_positions" where
  "ins_pos v ps = insert_at (length (takeWhile (\<lambda>p. iwp_offset p < iwp_offset v) ps)) v ps"

lemma ins_pos_append:
  "ins_pos v ps = takeWhile (\<lambda>p. iwp_offset p < iwp_offset v) ps @ v # dropWhile (\<lambda>p. iwp_offset p < iwp_offset v) ps"
  by (simp add: ins_pos_def insert_at_def takeWhile_eq_take [symmetric] dropWhile_eq_drop [symmetric])

lemma ins_pos_props:
  assumes "sorted_wrt (\<lambda>a b. iwp_offset a < iwp_offset b) ps" "iwp_offset v \<notin> iwp_offset ` set ps"
  shows "set (ins_pos v ps) = insert v (set ps)" "positions_ok (ins_pos v ps)"
proof -
  let ?P = "\<lambda>p. iwp_offset p < iwp_offset v"
  have ps: "ps = takeWhile ?P ps @ dropWhile ?P ps" by simp
  then have "set ps = set (takeWhile ?P ps) \<union> set (dropWhile ?P ps)" by (metis set_append)
  then show "set (ins_pos v ps) = insert v (set ps)" by (simp add: ins_pos_append)
  have srt: "sorted_wrt (\<lambda>a b. iwp_offset a < iwp_offset b) (takeWhile ?P ps @ dropWhile ?P ps)"
    using assms(1) by simp
  have after: "iwp_offset v < iwp_offset q" if q: "q \<in> set (dropWhile ?P ps)" for q
  proof -
    obtain b B where B: "dropWhile ?P ps = b # B" using q by (cases "dropWhile ?P ps") auto
    then have "\<not> ?P b" using hd_dropWhile [of ?P ps] by simp
    moreover have "b \<in> set ps" using B by (metis list.set_intros(1) set_dropWhileD)
    ultimately have "iwp_offset v < iwp_offset b" using assms(2) by (metis image_eqI linorder_neqE)
    moreover have "q = b \<or> iwp_offset b < iwp_offset q"
      using srt q unfolding B by (auto simp: sorted_wrt_append)
    ultimately show ?thesis by auto
  qed
  have "iwp_offset x < iwp_offset y" if "x \<in> set (takeWhile ?P ps)" "y \<in> set (dropWhile ?P ps)" for x y
    using srt that unfolding sorted_wrt_append by blast
  then show "positions_ok (ins_pos v ps)"
    using assms(1) after
    by (auto simp: positions_ok_def ins_pos_append sorted_wrt_append sorted_wrt_takeWhile sorted_wrt_dropWhile dest: set_takeWhileD)
qed

lemma last_is_max:
  assumes "positions_ok ps" "p \<in> set ps"
  shows "iwp_offset p \<le> iwp_offset (last ps)"
proof -
  obtain qs q where ps: "ps = qs @ [q]" using assms(1) by (cases ps rule: rev_cases) (auto simp: positions_ok_def)
  then show ?thesis using assms by (auto simp: positions_ok_def sorted_wrt_append)
qed

lemma ins_pos_last:
  assumes "positions_ok ps" "iwp_offset (last ps) < iwp_offset v"
  shows "ins_pos v ps = ps @ [v]"
proof -
  have "\<forall>p \<in> set ps. iwp_offset p < iwp_offset v"
    using last_is_max [OF assms(1)] assms(2) by force
  then show ?thesis by (simp add: ins_pos_append takeWhile_eq_all_conv [THEN iffD2] dropWhile_eq_Nil_conv [THEN iffD2])
qed

lemma last_ins_pos:
  assumes "positions_ok ps" "iwp_offset v < iwp_offset (last ps)"
  shows "last (ins_pos v ps) = last ps"
proof -
  let ?P = "\<lambda>p. iwp_offset p < iwp_offset v"
  have "last ps \<in> set ps" using assms(1) by (simp add: positions_ok_def)
  moreover have "\<not> ?P (last ps)" using assms(2) by simp
  ultimately have "dropWhile ?P ps \<noteq> []" unfolding dropWhile_eq_Nil_conv by blast
  then have "last (dropWhile ?P ps) = last (takeWhile ?P ps @ dropWhile ?P ps)" by (rule last_appendR [symmetric])
  then show ?thesis using \<open>dropWhile ?P ps \<noteq> []\<close> by (auto simp: ins_pos_append)
qed

lemma sum_sm_insert:
  "sm_wf m \<Longrightarrow> sum_list (map f (sm_insert k v m)) + (case map_of m k of None \<Rightarrow> 0 | Some w \<Rightarrow> f (k, w))
     = sum_list (map f m) + (f (k, v) :: nat)"
proof (induction m)
  case (Cons e m)
  obtain k' v' where e: "e = (k', v')" by (cases e)
  have "map_of m k = None" if "k < k'"
    using that Cons.prems e by (intro map_of_lt_None) auto
  moreover have "map_of m k' = None" using Cons.prems e by (intro map_of_lt_None) auto
  ultimately show ?case using Cons e by (cases k k' rule: linorder_cases) auto
qed simp

lemma count_dirty_sum: "count_dirty es = sum_list (map (\<lambda>e. if is_clean (snd e) then 0 else 1) es)"
  by (induction es) (simp_all add: count_dirty_def)

lemma latest_insert: "latest (sm_insert k ps d) = sm_insert k (last ps) (latest d)"
  by (induction d) (auto simp: latest_def)

text \<open>Everything \<open>checked_insert\<close> does on a well-formed table: it panics exactly on a repeated
  offset, else orders the position into the key's list and reports whether it is the latest.\<close>

lemma checked_insert_spec:
  assumes "index_inv t"
    and fresh: "\<And>ps. map_of (data t) k = Some ps \<Longrightarrow> iwp_offset v \<notin> iwp_offset ` set ps"
  defines "ps' \<equiv> (case map_of (data t) k of None \<Rightarrow> [v] | Some ps \<Rightarrow> ins_pos v ps)"
  shows "\<exists>t' ord. checked_insert k v t = Inr (t', ord) \<and> index_inv t'
    \<and> data t' = sm_insert k ps' (data t) \<and> flat t' = flat t \<and> key_size t' = key_size t
    \<and> (ord = Latest \<longleftrightarrow> last ps' = v)"
proof (cases "map_of (data t) k")
  case None
  have ov: "overlay_ok (data t)" and wf: "sm_wf (latest (data t))"
    using assms(1) by (auto simp: index_inv_def dest: overlay_okD)
  have none: "map_of (latest (data t)) k = None" using None by (simp add: map_of_latest)
  let ?d = "sm_insert k [v] (data t)"
  have l: "latest ?d = sm_insert k v (latest (data t))" by (simp add: latest_insert)
  have "sum_key_bytes (latest ?d) = sum_key_bytes (latest (data t)) + length k"
    using sum_sm_insert [OF wf, of "\<lambda>e. length (fst e)" k v] none by (simp add: l sum_key_bytes_def)
  moreover have "count_dirty (latest ?d) = count_dirty (latest (data t)) + (if is_clean v then 0 else 1)"
    using sum_sm_insert [OF wf, of "\<lambda>e. if is_clean (snd e) then 0 else 1" k v] none
    by (simp add: l count_dirty_sum)
  moreover have "overlay_ok ?d" using overlay_ok_insert [OF ov, of "[v]" k] by (simp add: positions_ok_def)
  ultimately show ?thesis
    using assms(1) None
    by (simp add: checked_insert_def ps'_def index_inv_def stats_ok_def adjust_dirty_count_def)
next
  case (Some ps)
  have ov: "overlay_ok (data t)" and wf: "sm_wf (latest (data t))"
    using assms(1) by (auto simp: index_inv_def dest: overlay_okD)
  have ok: "positions_ok ps" using overlay_okD(3) [OF ov Some] .
  then have ne: "ps \<noteq> []" and srt: "sorted_wrt (\<lambda>a b. iwp_offset a < iwp_offset b) ps" by (simp_all add: positions_ok_def)
  have fr: "iwp_offset v \<notin> iwp_offset ` set ps" by (rule fresh [OF Some])
  note ip = ins_pos_props [OF srt fr]
  have some: "map_of (latest (data t)) k = Some (last ps)" using Some by (simp add: map_of_latest)
  let ?d = "sm_insert k (ins_pos v ps) (data t)"
  have l: "latest ?d = sm_insert k (last (ins_pos v ps)) (latest (data t))" by (simp add: latest_insert)
  have kb: "sum_key_bytes (latest ?d) = sum_key_bytes (latest (data t))"
    using sum_sm_insert [OF wf, of "\<lambda>e. length (fst e)" k "last (ins_pos v ps)"] some
    by (simp add: l sum_key_bytes_def)
  have cd: "count_dirty (latest ?d) + (if is_clean (last ps) then 0 else 1)
      = count_dirty (latest (data t)) + (if is_clean (last (ins_pos v ps)) then 0 else 1)"
    using sum_sm_insert [OF wf, of "\<lambda>e. if is_clean (snd e) then 0 else 1" k "last (ins_pos v ps)"] some
    by (simp add: l count_dirty_sum)
  have ov': "overlay_ok ?d" using overlay_ok_insert [OF ov ip(2)] .
  have last: "last_of ps = Some (last ps)" using ne by (simp add: last_of_def)
  show ?thesis
  proof (cases "iwp_offset v < iwp_offset (last ps)")
    case True
    have slot: "binary_search_by_key iwp_offset (iwp_offset v) ps
        = Inl (length (takeWhile (\<lambda>p. iwp_offset p < iwp_offset v) ps))"
    proof -
      have "iwp_offset (ps ! n) \<noteq> iwp_offset v" if "n < length ps" for n
        using fr nth_mem [OF that] by (metis image_eqI)
      then show ?thesis by (simp add: binary_search_by_key_def Let_def)
    qed
    have "last (ins_pos v ps) = last ps" "last ps \<noteq> v"
      using last_ins_pos [OF ok True] True by auto
    then show ?thesis
      using assms(1) Some True last slot kb cd ov'
      by (simp add: checked_insert_def ps'_def index_inv_def stats_ok_def ins_pos_def)
  next
    case False
    then have lt: "iwp_offset (last ps) < iwp_offset v"
      using fr ne by (metis image_eqI last_in_set linorder_neqE)
    have "ins_pos v ps = ps @ [v]" using ins_pos_last [OF ok lt] .
    then show ?thesis
      using assms(1) Some False lt last kb cd ov'
      by (auto simp: checked_insert_def ps'_def index_inv_def stats_ok_def adjust_dirty_count_def split: if_splits)
  qed
qed

lemma checked_insert_duplicate:
  assumes "index_inv t" "map_of (data t) k = Some ps" "iwp_offset v \<in> iwp_offset ` set ps"
  shows "\<exists>p. checked_insert k v t = Inl p"
proof -
  have ok: "positions_ok ps" using assms(1) overlay_okD(3) [OF _ assms(2)] by (simp add: index_inv_def)
  then have ne: "last_of ps = Some (last ps)" by (simp add: last_of_def positions_ok_def)
  obtain i where i: "i < length ps" "iwp_offset (ps ! i) = iwp_offset v"
    using assms(3) by (auto simp: in_set_conv_nth)
  have le: "iwp_offset v \<le> iwp_offset (last ps)"
    using last_is_max [OF ok] nth_mem [OF i(1)] i(2) by metis
  have mono: "iwp_offset (ps ! a) < iwp_offset (ps ! b)" if "a < b" "b < length ps" for a b
    using ok that by (simp add: positions_ok_def sorted_wrt_iff_nth_less)
  let ?n = "length (takeWhile (\<lambda>p. iwp_offset p < iwp_offset v) ps)"
  have down: "iwp_offset (ps ! a) < iwp_offset v" if "a \<le> b" "b < length ps" "iwp_offset (ps ! b) < iwp_offset v" for a b
    using mono [of a b] that by (cases "a = b") auto
  have idx: "iwp_offset (ps ! a) < iwp_offset v \<longleftrightarrow> a < ?n" if "a < length ps" for a
    using takeWhile_index [of ps "\<lambda>p. iwp_offset p < iwp_offset v" a] down that by blast
  have "\<not> i < ?n" using idx [OF i(1)] i(2) by simp
  moreover have "\<not> ?n < i" using mono [of ?n i] idx [of ?n] i by auto
  ultimately have "?n = i" by simp
  then have "binary_search_by_key iwp_offset (iwp_offset v) ps = Inr i"
    using i by (simp add: binary_search_by_key_def)
  then show ?thesis using assms(2) ne le by (simp add: checked_insert_def assertr_def)
qed

section \<open>Versioned reads\<close>

text \<open>
  What the clients of the index rely on: a write adds its position to the key's history, whatever
  order writes arrive in, and a read as of a frontier returns the newest position below it, or
  what lies underneath.
\<close>

definition newest_below :: "last_processed \<Rightarrow> index_wal_position set \<Rightarrow> index_wal_position \<Rightarrow> bool" where
  "newest_below lp H v \<longleftrightarrow> v \<in> H \<and> is_processed lp (iwp_offset v)
   \<and> (\<forall>w \<in> H. is_processed lp (iwp_offset w) \<longrightarrow> iwp_offset w \<le> iwp_offset v)"

fun write_all_to :: "('k \<Rightarrow> index_wal_position \<Rightarrow> 't \<Rightarrow> 't res) \<Rightarrow> ('k \<times> index_wal_position) list \<Rightarrow> 't \<Rightarrow> 't res" where
  "write_all_to wr [] t = Inr t"
| "write_all_to wr ((k, v) # ws) t = bindr (wr k v t) (write_all_to wr ws)"

locale versioned_store =
  fixes inv :: "'t \<Rightarrow> bool"
    and hist :: "'t \<Rightarrow> 'k \<Rightarrow> index_wal_position set"
    and base :: "'t \<Rightarrow> 'k \<Rightarrow> wal_position option"
    and wr :: "'k \<Rightarrow> index_wal_position \<Rightarrow> 't \<Rightarrow> 't res"
    and read_at :: "'t \<Rightarrow> 'k \<Rightarrow> last_processed \<Rightarrow> wal_position option res"
  assumes write_ok: "inv t \<Longrightarrow> iwp_offset v \<notin> iwp_offset ` hist t k \<Longrightarrow>
      \<exists>t'. wr k v t = Inr t' \<and> inv t' \<and> hist t' = (hist t)(k := insert v (hist t k)) \<and> base t' = base t"
    and read_newest: "inv t \<Longrightarrow> newest_below lp (hist t k) v \<Longrightarrow>
      read_at t k lp = Inr (Some (into_wal_position v))"
    and read_base: "inv t \<Longrightarrow> \<forall>v \<in> hist t k. \<not> is_processed lp (iwp_offset v) \<Longrightarrow>
      read_at t k lp = Inr (base t k)"
begin

lemma write_all_ok:
  "inv t \<Longrightarrow> distinct (map (\<lambda>w. (fst w, iwp_offset (snd w))) ws) \<Longrightarrow>
   (\<And>k v. (k, v) \<in> set ws \<Longrightarrow> iwp_offset v \<notin> iwp_offset ` hist t k) \<Longrightarrow>
   \<exists>t'. write_all_to wr ws t = Inr t' \<and> inv t' \<and> base t' = base t
     \<and> (\<forall>k. hist t' k = hist t k \<union> {v. (k, v) \<in> set ws})"
proof (induction ws arbitrary: t)
  case (Cons w ws)
  obtain k v where w: "w = (k, v)" by (cases w)
  obtain t1 where t1: "wr k v t = Inr t1" "inv t1" "hist t1 = (hist t)(k := insert v (hist t k))" "base t1 = base t"
    using write_ok [OF Cons.prems(1), of v k] Cons.prems(3) w by auto
  have "iwp_offset v' \<notin> iwp_offset ` hist t1 k'" if "(k', v') \<in> set ws" for k' v'
    using that Cons.prems(2,3) w t1(3) by (auto simp: rev_image_eqI)
  then obtain t' where t': "write_all_to wr ws t1 = Inr t'" "inv t'" "base t' = base t1"
      "\<forall>k'. hist t' k' = hist t1 k' \<union> {v'. (k', v') \<in> set ws}"
    using Cons.IH [OF t1(2)] Cons.prems(2) w by auto
  have "hist t' k' = hist t k' \<union> {v'. (k', v') \<in> set (w # ws)}" for k'
    using t'(4) t1(3) w by auto
  then show ?case using t1(1,4) t'(1-3) w by auto
qed simp

text \<open>Reads as of a frontier do not depend on the order in which the writes arrived.\<close>

lemma reads_after_writes:
  assumes "inv t" "distinct (map (\<lambda>w. (fst w, iwp_offset (snd w))) ws)" "\<And>k. hist t k = {}"
  shows "\<exists>t'. write_all_to wr ws t = Inr t' \<and> inv t' \<and> (\<forall>k lp.
      (\<forall>v. newest_below lp {v. (k, v) \<in> set ws} v \<longrightarrow> read_at t' k lp = Inr (Some (into_wal_position v)))
    \<and> ((\<forall>v. (k, v) \<in> set ws \<longrightarrow> \<not> is_processed lp (iwp_offset v)) \<longrightarrow> read_at t' k lp = Inr (base t k)))"
proof -
  obtain t' where t': "write_all_to wr ws t = Inr t'" "inv t'" "base t' = base t"
      "\<forall>k. hist t' k = {v. (k, v) \<in> set ws}"
    using write_all_ok [OF assms(1,2)] assms(3) by auto
  then show ?thesis using read_newest [OF t'(2)] read_base [OF t'(2)] by (intro exI [of _ t']) auto
qed

end

text \<open>The index table is such a store: its overlay is the history, its buffer lies underneath.\<close>

definition index_hist :: "index_table \<Rightarrow> bytes \<Rightarrow> index_wal_position set" where
  "index_hist t k = (case map_of (data t) k of None \<Rightarrow> {} | Some ps \<Rightarrow> set ps)"

definition index_base :: "index_table \<Rightarrow> bytes \<Rightarrow> wal_position option" where
  "index_base t k = map_option into_wal_position (map_of (flat_entries t) k)"

definition index_write :: "bytes \<Rightarrow> index_wal_position \<Rightarrow> index_table \<Rightarrow> index_table res" where
  "index_write k v t = bindr (checked_insert k v t) (\<lambda>(t', ord). Inr t')"

lemma positions_inj: "sorted_wrt (\<lambda>a b. iwp_offset a < iwp_offset b) ps \<Longrightarrow> inj_on iwp_offset (set ps)"
  by (induction ps) force+

lemma overlay_at_newest:
  assumes "overlay_ok d" "newest_below lp (case map_of d k of None \<Rightarrow> {} | Some ps \<Rightarrow> set ps) v"
  shows "overlay_at lp d k = Some v"
proof (cases "map_of d k")
  case (Some ps)
  let ?q = "processed lp ps"
  have ok: "positions_ok ps" using overlay_okD(3) [OF assms(1) Some] .
  have v: "v \<in> set ?q" using assms(2) Some by (simp add: newest_below_def processed_def)
  then have q: "positions_ok ?q"
    using ok by (auto simp: positions_ok_def processed_def sorted_wrt_filter filter_empty_conv)
  have l: "last ?q \<in> set ?q" using q by (simp add: positions_ok_def)
  then have "iwp_offset (last ?q) \<le> iwp_offset v"
    using assms(2) Some by (auto simp: newest_below_def processed_def)
  moreover have "iwp_offset v \<le> iwp_offset (last ?q)" by (rule last_is_max [OF q v])
  ultimately have eq: "iwp_offset (last ?q) = iwp_offset v" by simp
  have "inj_on iwp_offset (set ?q)" using q positions_inj by (simp add: positions_ok_def)
  then have "last ?q = v" using eq l v by (simp add: inj_on_eq_iff)
  then show ?thesis using Some q by (simp add: overlay_at_def last_of_def positions_ok_def)
next
  case None
  then show ?thesis using assms(2) by (simp add: newest_below_def)
qed

lemma index_write_ok:
  assumes "index_inv t" "iwp_offset v \<notin> iwp_offset ` index_hist t k"
  shows "\<exists>t'. index_write k v t = Inr t' \<and> index_inv t'
    \<and> index_hist t' = (index_hist t)(k := insert v (index_hist t k)) \<and> index_base t' = index_base t"
proof -
  have fresh: "iwp_offset v \<notin> iwp_offset ` set ps" if "map_of (data t) k = Some ps" for ps
    using assms(2) that by (simp add: index_hist_def)
  let ?ps = "case map_of (data t) k of None \<Rightarrow> [v] | Some ps \<Rightarrow> ins_pos v ps"
  obtain t' ord where t': "checked_insert k v t = Inr (t', ord)" "index_inv t'"
      "data t' = sm_insert k ?ps (data t)" "flat t' = flat t" "key_size t' = key_size t"
    using checked_insert_spec [OF assms(1) fresh] by blast
  have "set ?ps = insert v (index_hist t k)"
  proof (cases "map_of (data t) k")
    case (Some ps)
    have "positions_ok ps" using overlay_okD(3) [OF _ Some] assms(1) by (simp add: index_inv_def)
    then show ?thesis
      using ins_pos_props(1) [OF _ fresh [OF Some]] Some by (simp add: index_hist_def positions_ok_def)
  qed (simp add: index_hist_def)
  then have "index_hist t' = (index_hist t)(k := insert v (index_hist t k))"
    using t'(3) by (auto simp: index_hist_def map_of_sm_insert fun_eq_iff)
  moreover have "index_base t' = index_base t"
    using flat_entries_cong [OF t'(4,5)] by (simp add: index_base_def fun_eq_iff)
  ultimately show ?thesis using t' by (simp add: index_write_def)
qed

interpretation index_store: versioned_store index_inv index_hist index_base index_write index_get_at
proof
  fix t k v assume "index_inv t" "iwp_offset v \<notin> iwp_offset ` index_hist t k"
  then show "\<exists>t'. index_write k v t = Inr t' \<and> index_inv t'
      \<and> index_hist t' = (index_hist t)(k := insert v (index_hist t k)) \<and> index_base t' = index_base t"
    by (rule index_write_ok)
next
  fix t lp k v assume i: "index_inv t" "newest_below lp (index_hist t k) v"
  then have "overlay_at lp (data t) k = Some v"
    by (intro overlay_at_newest) (simp_all add: index_inv_def index_hist_def)
  then show "index_get_at t k lp = Inr (Some (into_wal_position v))"
    using index_get_at_eq [OF i(1)] by (simp add: live_at_def)
next
  fix t k lp assume i: "index_inv t" "\<forall>v \<in> index_hist t k. \<not> is_processed lp (iwp_offset v)"
  then have "overlay_at lp (data t) k = None"
    by (auto simp: overlay_at_def index_hist_def processed_def filter_empty_conv last_of_def split: option.splits)
  then show "index_get_at t k lp = Inr (index_base t k)"
    using index_get_at_eq [OF i(1)] by (simp add: live_at_def index_base_def)
qed

section \<open>Ordered walks\<close>

definition observed :: "entry \<Rightarrow> bytes \<times> wal_position" where
  "observed e = (fst e, into_wal_position (snd e))"

definition latest_at :: "last_processed \<Rightarrow> data_overlay \<Rightarrow> entry list" where
  "latest_at lp d = List.map_filter (\<lambda>e. map_option (Pair (fst e)) (last_of (processed lp (snd e)))) d"

definition combined_at :: "index_table \<Rightarrow> last_processed \<Rightarrow> entry list" where
  "combined_at t lp = merge_over (flat_entries t) (latest_at lp (data t))"

lemma set_latest_at: "e \<in> set (latest_at lp d) \<Longrightarrow> \<exists>ps. (fst e, ps) \<in> set d"
  by (force simp: latest_at_def map_filter_def)

lemma sm_wf_latest_at: "sm_wf d \<Longrightarrow> sm_wf (latest_at lp d)"
proof (induction d)
  case (Cons e d)
  obtain k ps where e: "e = (k, ps)" by (cases e)
  have "k < fst x" if "x \<in> set (latest_at lp d)" for x
    using set_latest_at [OF that] Cons.prems e by auto
  then show ?case
    using Cons e by (auto simp: latest_at_def map_filter_simps split: option.splits)
qed (simp add: latest_at_def map_filter_simps)

lemma map_of_latest_at:
  assumes "sm_wf d"
  shows "map_of (latest_at lp d) k = overlay_at lp d k"
  using assms
proof (induction d)
  case (Cons e d)
  obtain k' ps where e: "e = (k', ps)" by (cases e)
  have "map_of (latest_at lp d) k' = None"
    using set_latest_at [of _ lp d] Cons.prems e by (intro map_of_lt_None) force
  then show ?case
    using Cons e by (auto simp: latest_at_def overlay_at_def map_filter_simps split: option.splits)
qed (simp add: latest_at_def overlay_at_def map_filter_simps)

lemma live_combined:
  assumes "index_inv t"
  shows "live t k = map_of (combined t) k" "live_at t lp k = map_of (combined_at t lp) k"
    "sm_wf (combined t)" "sm_wf (combined_at t lp)"
proof -
  have wf: "sm_wf (flat_entries t)" "sm_wf (data t)"
    using assms by (auto simp: index_inv_def flat_wf_def dest: overlay_okD)
  then show "sm_wf (combined t)" "sm_wf (combined_at t lp)"
    by (simp_all add: combined_def combined_at_def sm_wf_merge_over sm_wf_latest_at)
  show "live t k = map_of (combined t) k"
    using map_of_merge_over [of "flat_entries t" "latest (data t)"] wf
    by (simp add: combined_def live_def map_of_latest map_add_def split: option.splits)
  show "live_at t lp k = map_of (combined_at t lp) k"
    using map_of_merge_over [of "flat_entries t" "latest_at lp (data t)"] wf
    by (simp add: combined_at_def live_at_def map_of_latest_at sm_wf_latest_at map_add_def split: option.splits)
qed

lemma filter_merge_over:
  assumes "sm_wf xs" "sm_wf ys"
  shows "filter (\<lambda>e. P (fst e)) (merge_over xs ys) = merge_over (filter (\<lambda>e. P (fst e)) xs) (filter (\<lambda>e. P (fst e)) ys)"
  using assms
  by (intro sm_eqI) (auto simp: sm_wf_filter sm_wf_merge_over map_of_merge_over map_of_filter_key map_add_def fun_eq_iff split: option.splits)

lemma sm_after_merge:
  assumes "sm_wf xs" "sm_wf ys"
  shows "sm_after p (merge_over xs ys) = merge_over (sm_after p xs) (sm_after p ys)"
    "sm_before p (merge_over xs ys) = merge_over (sm_before p xs) (sm_before p ys)"
  using filter_merge_over [OF assms, of "\<lambda>k. the p < k"] filter_merge_over [OF assms, of "\<lambda>k. k < the p"]
  by (cases p; simp add: sm_after_def sm_before_def)+

definition pick_first :: "('k::linorder \<times> 'v) option \<Rightarrow> ('k \<times> 'v) option \<Rightarrow> ('k \<times> 'v) option" where
  "pick_first x y =
     (case (x, y) of (None, _) \<Rightarrow> y | (Some a, None) \<Rightarrow> Some a
      | (Some a, Some b) \<Rightarrow> if fst a < fst b then Some a else Some b)"

definition pick_last :: "('k::linorder \<times> 'v) option \<Rightarrow> ('k \<times> 'v) option \<Rightarrow> ('k \<times> 'v) option" where
  "pick_last x y =
     (case (x, y) of (None, _) \<Rightarrow> y | (Some a, None) \<Rightarrow> Some a
      | (Some a, Some b) \<Rightarrow> if fst b < fst a then Some a else Some b)"

lemma first_of_merge: "first_of (merge_over xs ys) = pick_first (first_of xs) (first_of ys)"
  by (cases xs; cases ys) (auto simp: pick_first_def)

lemma last_of_merge:
  assumes "sm_wf xs" "sm_wf ys"
  shows "last_of (merge_over xs ys) = pick_last (last_of xs) (last_of ys)"
proof (cases "last_of xs = None \<or> last_of ys = None")
  case True
  then have "xs = [] \<or> ys = []" by (auto simp: last_of_def split: if_splits)
  then show ?thesis by (auto simp: pick_last_def split: option.splits)
next
  case False
  then obtain k v l w where kl: "last_of xs = Some (k, v)" "last_of ys = Some (l, w)" by auto
  let ?m = "merge_over xs ys"
  have x: "(k, v) \<in> set xs" "\<forall>e \<in> set xs. fst e \<le> k" using kl(1) last_of_sm_iff [OF assms(1)] by blast+
  have y: "(l, w) \<in> set ys" "\<forall>e \<in> set ys. fst e \<le> l" using kl(2) last_of_sm_iff [OF assms(2)] by blast+
  have wf: "sm_wf ?m" using assms by (rule sm_wf_merge_over)
  have mem: "(j, u) \<in> set ?m \<longleftrightarrow> (map_of xs ++ map_of ys) j = Some u" for j u
    using map_of_eq_Some_iff [OF sm_wf_distinct [OF wf]] map_of_merge_over [OF assms] by metis
  have of: "map_of xs k = Some v" "map_of ys l = Some w"
    using x(1) y(1) map_of_is_SomeI sm_wf_distinct assms by metis+
  show ?thesis
  proof (cases "l < k")
    case True
    then have "map_of ys k = None" using y(2) by (intro map_of_not_key) auto
    then have "(k, v) \<in> set ?m" using of by (simp add: mem map_add_def)
    moreover have "\<forall>e \<in> set ?m. fst e \<le> k" using True x(2) y(2) set_merge_over_key [of _ xs ys] by force
    ultimately show ?thesis using True kl last_of_sm_iff [OF wf] by (simp add: pick_last_def)
  next
    case False
    have "(l, w) \<in> set ?m" using of by (simp add: mem map_add_def)
    moreover have "\<forall>e \<in> set ?m. fst e \<le> l" using False x(2) y(2) set_merge_over_key [of _ xs ys] by force
    ultimately show ?thesis using False kl last_of_sm_iff [OF wf] by (simp add: pick_last_def)
  qed
qed

lemma first_of_drop: "first_of (drop n xs) = (if n < length xs then Some (xs ! n) else None)"
  by (simp add: first_of_def drop_eq_Nil Cons_nth_drop_Suc [symmetric] split: list.splits)

lemma last_of_take: "n \<le> length xs \<Longrightarrow> last_of (take n xs) = (if n = 0 then None else Some (xs ! (n - 1)))"
  by (cases n) (auto simp: last_of_def take_Suc_conv_app_nth)

lemma flat_next_eq:
  assumes "flat_wf t"
  shows "flat_next_forward t prev = Inr (map_option observed (first_of (sm_after prev (flat_entries t))))"
    and "flat_next_reverse t prev = Inr (map_option observed (last_of (sm_before prev (flat_entries t))))"
proof -
  let ?es = "flat_entries t"
  have v: "flat_view (key_size t) (flat t) ?es" and wf: "sm_wf ?es" using assms by (simp_all add: flat_wf_def)
  have at: "flat_entry_at (flat t) (key_size t) i = Inr (?es ! i)" if "i < length ?es" for i
    using v that by (simp add: flat_view_def)
  have cnt: "flat_count (flat t) (key_size t) = Inr (length ?es)" using v by (simp add: flat_view_def)
  have nil: "flat t = [] \<longleftrightarrow> ?es = []" using v by (simp add: flat_view_def)
  show "flat_next_forward t prev = Inr (map_option observed (first_of (sm_after prev ?es)))"
  proof (cases prev)
    case None
    then show ?thesis using at [of 0] cnt nil
      by (cases ?es) (auto simp: flat_next_forward_def sm_after_def observed_def case_prod_beta)
  next
    case (Some p)
    then show ?thesis using at cnt nil flat_bounds_eq(2) [OF v wf, of p] sm_after_drop(1) [OF wf, of p]
      by (auto simp: flat_next_forward_def first_of_drop observed_def case_prod_beta sm_after_def)
  qed
  show "flat_next_reverse t prev = Inr (map_option observed (last_of (sm_before prev ?es)))"
  proof (cases prev)
    case None
    then show ?thesis using at [of "length ?es - 1"] cnt nil
      by (cases "?es = []") (auto simp: flat_next_reverse_def sm_before_def observed_def case_prod_beta last_of_def last_conv_nth)
  next
    case (Some p)
    define r where "r = length (takeWhile (\<lambda>e. fst e < p) ?es)"
    have lb: "flat_lower_bound (flat t) (key_size t) p = Inr r" "sm_before prev ?es = take r ?es"
      using Some flat_bounds_eq(1) [OF v wf, of p] sm_after_drop(2) [OF wf, of p] by (simp_all add: r_def)
    have r: "r \<le> length ?es" by (simp add: r_def length_takeWhile_le)
    show ?thesis
    proof (cases r)
      case 0
      then show ?thesis using Some lb cnt by (simp add: flat_next_reverse_def)
    next
      case (Suc i)
      then have "i < length ?es" "flat t \<noteq> []" using r nil by auto
      then show ?thesis
        using Some lb cnt Suc at [of i] last_of_take [OF r]
        by (simp add: flat_next_reverse_def observed_def case_prod_beta)
    qed
  qed
qed

lemma sm_after_latest:
  "sm_after p (latest d) = latest (sm_after p d)" "sm_before p (latest d) = latest (sm_before p d)"
  by (cases p; simp add: sm_after_def sm_before_def latest_def filter_map comp_def)+

lemma sm_after_latest_at:
  "sm_after p (latest_at lp d) = latest_at lp (sm_after p d)"
  "sm_before p (latest_at lp d) = latest_at lp (sm_before p d)"
proof -
  have "filter (\<lambda>e. P (fst e)) (latest_at lp d) = latest_at lp (filter (\<lambda>e. P (fst e)) d)" for P
    by (induction d) (auto simp: latest_at_def map_filter_simps split: option.splits)
  from this [of "\<lambda>k. the p < k"] this [of "\<lambda>k. k < the p"]
  show "sm_after p (latest_at lp d) = latest_at lp (sm_after p d)"
    "sm_before p (latest_at lp d) = latest_at lp (sm_before p d)"
    by (cases p; simp add: sm_after_def sm_before_def)+
qed

lemma with_last_eq:
  assumes "positions_nonempty d"
  shows "with_last (first_of (sm_after p d)) = Inr (first_of (sm_after p (latest d)))"
    "with_last (last_of (sm_before p d)) = Inr (last_of (sm_before p (latest d)))"
proof -
  have a: "positions_nonempty (sm_after p d)" "positions_nonempty (sm_before p d)"
    using assms by (cases p; auto simp: sm_after_def sm_before_def positions_nonempty_def list_all_iff)+
  show "with_last (first_of (sm_after p d)) = Inr (first_of (sm_after p (latest d)))"
    unfolding sm_after_latest using a(1)
    by (cases "sm_after p d") (auto simp: with_last_def latest_def positions_nonempty_def last_of_def)
  show "with_last (last_of (sm_before p d)) = Inr (last_of (sm_before p (latest d)))"
    unfolding sm_after_latest using a(2)
    by (cases "sm_before p d" rule: rev_cases) (auto simp: with_last_def latest_def positions_nonempty_def last_of_def)
qed

lemma find_rev: "find P (rev ps) = last_of (filter P ps)"
  by (induction ps rule: rev_induct) (auto simp: last_of_def)

lemma find_processed_eq: "find_processed lp d = first_of (latest_at lp d)"
  by (induction lp d rule: find_processed.induct)
    (auto simp: latest_at_def map_filter_simps find_rev processed_def [symmetric] split: option.splits)

lemma latest_at_rev: "first_of (latest_at lp (rev d)) = last_of (latest_at lp d)"
proof -
  have "latest_at lp (rev d) = rev (latest_at lp d)"
    by (simp add: latest_at_def map_filter_def rev_map rev_filter)
  moreover have "first_of (rev xs) = last_of xs" for xs :: "entry list"
    by (cases xs rule: rev_cases) auto
  ultimately show ?thesis by simp
qed

lemma pick_candidate_eq:
  "pick_candidate False d (map_option observed f) = map_option observed (pick_first f d)"
  "pick_candidate True d (map_option observed f) = map_option observed (pick_last f d)"
  by (auto simp: pick_candidate_def pick_first_def pick_last_def observed_def split: option.splits)

text \<open>Both walks return the nearest entry of the combined view.\<close>

lemma next_entry_wf:
  assumes "table_wf t"
  shows "next_entry t prev reverse = Inr (map_option observed
      (if reverse then last_of (sm_before prev (combined t)) else first_of (sm_after prev (combined t))))"
proof -
  have ov: "overlay_ok (data t)" and fw: "flat_wf t" using assms by (simp_all add: table_wf_def)
  have wf: "sm_wf (flat_entries t)" "sm_wf (latest (data t))"
    using fw overlay_okD(1) [OF ov] by (simp_all add: flat_wf_def)
  note w = with_last_eq [OF overlay_okD(2) [OF ov], of prev]
  show ?thesis
    using w flat_next_eq [OF fw, of prev] sm_after_merge [OF wf, of prev] wf
    by (simp add: next_entry_def data_next_forward_def data_next_reverse_def pick_candidate_eq combined_def
        first_of_merge last_of_merge sm_wf_before)
qed

lemmas next_entry_eq = next_entry_wf [OF index_inv_wf]

lemma next_entry_at_wf:
  assumes "table_wf t"
  shows "next_entry_at t prev reverse lp = Inr (map_option observed
      (if reverse then last_of (sm_before prev (combined_at t lp)) else first_of (sm_after prev (combined_at t lp))))"
proof -
  have ov: "overlay_ok (data t)" and fw: "flat_wf t" using assms by (simp_all add: table_wf_def)
  have wf: "sm_wf (flat_entries t)" "sm_wf (latest_at lp (data t))"
    using fw overlay_okD(1) [OF ov] by (simp_all add: flat_wf_def sm_wf_latest_at)
  show ?thesis
    using flat_next_eq [OF fw, of prev] sm_after_merge [OF wf, of prev] wf
    by (simp add: next_entry_at_def data_next_forward_at_def data_next_reverse_at_def pick_candidate_eq combined_at_def
        find_processed_eq latest_at_rev sm_after_latest_at [symmetric] first_of_merge last_of_merge sm_wf_before)
qed

lemmas next_entry_at_eq = next_entry_at_wf [OF index_inv_wf]

lemma iter_eq:
  assumes "table_wf t"
  shows "iter_combined t = Inr (combined t)"
    "iter_with_tombstones t = Inr (map observed (combined t))"
    "index_iter t = Inr (filter (\<lambda>e. is_valid (snd e)) (map observed (combined t)))"
    "index_keys t = Inr (map fst (filter (\<lambda>e. \<not> is_removed (snd e)) (combined t)))"
proof -
  show i: "iter_combined t = Inr (combined t)"
    using assms data_latest_per_key_eq [of "data t"] flat_items_eq [of t] overlay_okD(2) [of "data t"]
    by (simp add: table_wf_def iter_combined_def data_iter_latest_def combined_def)
  have "observed = (\<lambda>e. (fst e, into_wal_position (snd e)))" by (simp add: observed_def fun_eq_iff)
  with i show "iter_with_tombstones t = Inr (map observed (combined t))"
    "index_iter t = Inr (filter (\<lambda>e. is_valid (snd e)) (map observed (combined t)))"
    "index_keys t = Inr (map fst (filter (\<lambda>e. \<not> is_removed (snd e)) (combined t)))"
    by (simp_all add: iter_with_tombstones_def index_iter_def iter_inner_def index_keys_def)
qed

section \<open>Properties\<close>

text \<open>C11. Writes to one index may arrive out of log order (concurrent writers take the row lock in
  any order). Whatever the order, as long as no key sees an offset twice, every write is accepted,
  and a read as of a frontier returns the newest write below it, or the packed entry underneath
  when there is none.\<close>

theorem index_arrival_order:
  assumes "index_inv t" "data t = []" "distinct (map (\<lambda>w. (fst w, iwp_offset (snd w))) ws)"
  shows "\<exists>t'. write_all_to index_write ws t = Inr t' \<and> index_inv t' \<and> (\<forall>k lp.
      (\<forall>v. newest_below lp {v. (k, v) \<in> set ws} v \<longrightarrow> index_get_at t' k lp = Inr (Some (into_wal_position v)))
    \<and> ((\<forall>v. (k, v) \<in> set ws \<longrightarrow> \<not> is_processed lp (iwp_offset v)) \<longrightarrow>
         index_get_at t' k lp = Inr (map_option into_wal_position (map_of (flat_entries t) k))))"
proof -
  have "index_hist t k = {}" for k using assms(2) by (simp add: index_hist_def)
  from index_store.reads_after_writes [OF assms(1,3) this] show ?thesis by (simp add: index_base_def)
qed

theorem index_arrival_order_witness:
  "\<exists>t'. write_all_to index_write [([7], IWP 32 9 Removed), ([7], IWP 16 9 Modified)] index_table_default = Inr t'
    \<and> index_get_at t' [7] 24 = Inr (Some (WalPosition 16 9))
    \<and> index_get_at t' [7] 64 = Inr (Some WAL_INVALID) \<and> index_get_at t' [7] 8 = Inr None"
proof -
  let ?ws = "[([7], IWP 32 9 Removed), ([7], IWP 16 9 Modified)] :: entry list"
  have d: "data index_table_default = []" "flat_entries index_table_default = []"
    by (simp_all add: index_table_default_def flat_entries_def flat_items_def flat_iter_new_def flat_collect.simps)
  have "distinct (map (\<lambda>w. (fst w, iwp_offset (snd w))) ?ws)" by simp
  from index_arrival_order [OF inv_default d(1) this] obtain t' where
    t': "write_all_to index_write ?ws index_table_default = Inr t'"
      "\<And>k lp v. newest_below lp {v. (k, v) \<in> set ?ws} v \<Longrightarrow> index_get_at t' k lp = Inr (Some (into_wal_position v))"
      "\<And>k lp. \<forall>v. (k, v) \<in> set ?ws \<longrightarrow> \<not> is_processed lp (iwp_offset v) \<Longrightarrow>
         index_get_at t' k lp = Inr (map_option into_wal_position (map_of (flat_entries index_table_default) k))"
    by blast
  have "index_get_at t' [7] 24 = Inr (Some (into_wal_position (IWP 16 9 Modified)))"
    by (rule t'(2)) (auto simp: newest_below_def is_processed_def)
  moreover have "index_get_at t' [7] 64 = Inr (Some (into_wal_position (IWP 32 9 Removed)))"
    by (rule t'(2)) (auto simp: newest_below_def is_processed_def)
  moreover have "index_get_at t' [7] 8 = Inr None"
    using t'(3) [of "[7]" 8] d(2) by (auto simp: is_processed_def)
  ultimately show ?thesis using t'(1) by (auto simp: into_wal_position_def)
qed



definition beyond :: "bool \<Rightarrow> bytes option \<Rightarrow> bytes \<Rightarrow> bool" where
  "beyond reverse prev k \<longleftrightarrow> (case prev of None \<Rightarrow> True | Some p \<Rightarrow> if reverse then k < p else p < k)"

lemma nearest_entry:
  assumes "sm_wf m"
  shows "case (if reverse then last_of (sm_before prev m) else first_of (sm_after prev m)) of
      None \<Rightarrow> \<forall>k. beyond reverse prev k \<longrightarrow> map_of m k = None
    | Some (k, v) \<Rightarrow> beyond reverse prev k \<and> map_of m k = Some v
        \<and> (\<forall>k'. beyond reverse prev k' \<and> map_of m k' \<noteq> None \<longrightarrow> (if reverse then k' \<le> k else k \<le> k'))"
proof -
  let ?s = "if reverse then sm_before prev m else sm_after prev m"
  have wf: "sm_wf (sm_before prev m)" "sm_wf (sm_after prev m)" using assms by (simp_all add: sm_wf_before sm_wf_after)
  have mem: "e \<in> set ?s \<longleftrightarrow> e \<in> set m \<and> beyond reverse prev (fst e)" for e
    by (auto simp: sm_before_def sm_after_def beyond_def split: option.splits)
  have of: "map_of m k = Some v \<longleftrightarrow> (k, v) \<in> set m" for k v
    using map_of_eq_Some_iff [OF sm_wf_distinct [OF assms]] .
  have none: "(if reverse then last_of (sm_before prev m) else first_of (sm_after prev m)) = None \<longleftrightarrow> ?s = []"
    by (auto simp: last_of_def first_of_def split: list.splits)
  have some: "(if reverse then last_of (sm_before prev m) else first_of (sm_after prev m)) = Some (k, v)
      \<Longrightarrow> (k, v) \<in> set ?s \<and> (\<forall>e \<in> set ?s. if reverse then fst e \<le> k else k \<le> fst e)" for k v
    using last_of_sm_iff [OF wf(1), of k v] first_of_sm_iff [OF wf(2), of k v] by (cases reverse) simp_all
  show ?thesis
  proof (cases "if reverse then last_of (sm_before prev m) else first_of (sm_after prev m)")
    case None
    then have "map_of m k = None" if "beyond reverse prev k" for k
      using none mem that by (intro map_of_not_key) (auto split: if_splits)
    then show ?thesis unfolding None by simp
  next
    case (Some e)
    obtain k v where e: "e = (k, v)" by (cases e)
    note s = some [OF Some [unfolded e]]
    have "if reverse then k' \<le> k else k \<le> k'" if "beyond reverse prev k'" "map_of m k' = Some v'" for k' v'
      using s mem [of "(k', v')"] that of by fastforce
    then show ?thesis unfolding Some e using s mem [of "(k, v)"] of by auto
  qed
qed

text \<open>C13. Scans are complete and in order: the next entry after (or before) a key is the nearest key
  in that direction that has an entry, tombstones included, with exactly the value a point read
  returns; and there is none only when no such key exists.\<close>

theorem next_entry_nearest:
  assumes "index_inv t"
  shows "case next_entry t prev reverse of
      Inl _ \<Rightarrow> False
    | Inr None \<Rightarrow> \<forall>k. beyond reverse prev k \<longrightarrow> index_get t k = Inr None
    | Inr (Some (k, p)) \<Rightarrow> beyond reverse prev k \<and> index_get t k = Inr (Some p)
        \<and> (\<forall>k'. beyond reverse prev k' \<and> index_get t k' \<noteq> Inr None \<longrightarrow> (if reverse then k' \<le> k else k \<le> k'))"
proof -
  let ?x = "if reverse then last_of (sm_before prev (combined t)) else first_of (sm_after prev (combined t))"
  note n = nearest_entry [OF live_combined(3) [OF assms], of reverse prev]
  show ?thesis
    unfolding next_entry_eq [OF assms] index_get_eq [OF assms] live_combined(1) [OF assms]
    using n by (cases ?x) (auto simp: observed_def)
qed

text \<open>A table with two keys, one of them overwritten by a removal.\<close>

definition demo_table :: index_table where
  "demo_table = \<lparr>data = [([3], [IWP 8 9 Modified]), ([7], [IWP 16 9 Modified, IWP 32 9 Removed])],
     key_bytes = 2, dirty_count = 2, flat = [], key_size = None\<rparr>"

lemma demo_table_inv: "index_inv demo_table"
  by (simp add: index_inv_def overlay_ok_def flat_wf_def stats_ok_def demo_table_def positions_ok_def
      flat_entries_def flat_items_def flat_iter_new_def flat_collect.simps flat_view_def flat_count_def
      flat_ok_def latest_def sum_key_bytes_def count_dirty_def is_clean_def)

theorem next_entry_nearest_witness:
  "next_entry demo_table (Some [3]) False = Inr (Some ([7], WAL_INVALID))
   \<and> \<not> (\<exists>k. beyond False (Some [3]) k \<and> index_get demo_table k \<noteq> Inr None \<and> k < [7])"
proof -
  have n: "next_entry demo_table (Some [3]) False = Inr (Some ([7], WAL_INVALID))" by code_simp
  show ?thesis using next_entry_nearest [OF demo_table_inv, where prev = "Some [3]" and reverse = False] n
    by (simp add: not_less [symmetric] del: not_less) blast
qed

text \<open>C14. The same as of a frontier: keys written only after it are invisible and everything else
  shows its value at the frontier.\<close>

theorem next_entry_at_nearest:
  assumes "index_inv t"
  shows "case next_entry_at t prev reverse lp of
      Inl _ \<Rightarrow> False
    | Inr None \<Rightarrow> \<forall>k. beyond reverse prev k \<longrightarrow> index_get_at t k lp = Inr None
    | Inr (Some (k, p)) \<Rightarrow> beyond reverse prev k \<and> index_get_at t k lp = Inr (Some p)
        \<and> (\<forall>k'. beyond reverse prev k' \<and> index_get_at t k' lp \<noteq> Inr None \<longrightarrow> (if reverse then k' \<le> k else k \<le> k'))"
proof -
  let ?x = "if reverse then last_of (sm_before prev (combined_at t lp)) else first_of (sm_after prev (combined_at t lp))"
  note n = nearest_entry [OF live_combined(4) [OF assms, of lp], of reverse prev]
  show ?thesis
    unfolding next_entry_at_eq [OF assms] index_get_at_eq [OF assms] live_combined(2) [OF assms]
    using n by (cases ?x) (auto simp: observed_def)
qed

theorem next_entry_at_nearest_witness:
  "next_entry_at demo_table (Some [3]) False 20 = Inr (Some ([7], WalPosition 16 9))
   \<and> \<not> (\<exists>k. beyond False (Some [3]) k \<and> index_get_at demo_table k 20 \<noteq> Inr None \<and> k < [7])"
proof -
  have n: "next_entry_at demo_table (Some [3]) False 20 = Inr (Some ([7], WalPosition 16 9))" by code_simp
  show ?thesis using next_entry_at_nearest [OF demo_table_inv, where prev = "Some [3]" and reverse = False and lp = 20] n
    by (simp add: not_less [symmetric] del: not_less) blast
qed

end
