(* ===== verification/Index_Merge.thy ===== *)
theory Index_Merge
  imports Index_Table
begin

text \<open>
  The bulk operations of \<open>IndexTable\<close> (\<open>tidehunter/src/index/index_table/mod.rs\<close>): promotion of
  the overlay into the packed buffer, the merge of a dirty table into a loaded one, the filters by
  the processed frontier, cleaning, compaction, rebasing, and the unmerge that ends a flush. Each
  is shown to act on the live view and on the view as of a frontier in the way its callers rely on.
\<close>

section \<open>Filters\<close>

definition drop_data_keys :: "(bytes \<Rightarrow> index_wal_position \<Rightarrow> bool) \<Rightarrow> index_table \<Rightarrow> index_table res" where
  "drop_data_keys f t =
     bindr (data_latest_per_key (data t)) (\<lambda>_. Inr (t\<lparr>data := sm_retain (\<lambda>k ps. f k (last ps)) (data t)\<rparr>))"

definition retain :: "(bytes \<Rightarrow> index_wal_position \<Rightarrow> bool) \<Rightarrow> index_table \<Rightarrow> index_table res" where
  "retain f t = bindr (drop_data_keys f t) with_stats"

definition retain_flat :: "(bytes \<Rightarrow> index_wal_position \<Rightarrow> index_wal_position option) \<Rightarrow> index_table \<Rightarrow> index_table res" where
  "retain_flat keep t =
     (if flat t = [] then Inr t
      else
        bindr (flat_items (flat t) (key_size t)) (\<lambda>es.
        bindr (build_flat_bytes (List.map_filter (\<lambda>e. map_option (Pair (fst e)) (keep (fst e) (snd e))) es) (key_size t))
          (\<lambda>b. Inr (t\<lparr>flat := b\<rparr>))))"

text \<open>\<open>self.data.retain(|_, ps| { ps.retain(p); !ps.is_empty() })\<close>\<close>

definition retain_positions :: "(index_wal_position \<Rightarrow> bool) \<Rightarrow> data_overlay \<Rightarrow> data_overlay" where
  "retain_positions p d = filter (\<lambda>e. snd e \<noteq> []) (map (\<lambda>e. (fst e, filter p (snd e))) d)"

definition retain_unprocessed :: "last_processed \<Rightarrow> index_table \<Rightarrow> index_table res" where
  "retain_unprocessed lp t =
     (let t1 = t\<lparr>flat := [], data := retain_positions (\<lambda>v. \<not> is_processed lp (iwp_offset v)) (data t)\<rparr>
      in bindr (recount_data_stats t1) (\<lambda>(kb, dc). Inr (t1\<lparr>key_bytes := kb, dirty_count := dc\<rparr>)))"

definition has_unprocessed :: "last_processed \<Rightarrow> index_table \<Rightarrow> bool" where
  "has_unprocessed lp t \<longleftrightarrow> list_ex (\<lambda>v. \<not> is_processed lp (iwp_offset v)) (concat (map snd (data t)))"

definition retain_above_position :: "u64 \<Rightarrow> index_table \<Rightarrow> index_table res" where
  "retain_above_position off t =
     bindr (retain_flat (\<lambda>_ v. if off \<le> iwp_offset v then Some v else None) t)
       (retain (\<lambda>_ v. off \<le> iwp_offset v))"

definition retain_processed :: "last_processed \<Rightarrow> index_table \<Rightarrow> index_table res" where
  "retain_processed lp t =
     with_stats (t\<lparr>data := retain_positions (\<lambda>v. is_processed lp (iwp_offset v)) (data t)\<rparr>)"

text \<open>The compactor is the keyspace's function from the live keys to the keys to retain.\<close>

definition compact_with :: "(bytes list \<Rightarrow> bytes list) \<Rightarrow> index_table \<Rightarrow> index_table res" where
  "compact_with compactor t =
     bindr (iter_combined t) (\<lambda>es.
       let all_keys = map fst (filter (\<lambda>e. \<not> is_removed (snd e)) es);
           to_retain = compactor all_keys
       in bindr (retain_flat (\<lambda>k v. if is_removed v \<or> k \<in> set to_retain then Some v else None) t)
            (retain (\<lambda>k v. is_removed v \<or> k \<in> set to_retain)))"

definition clean_entry :: "entry \<Rightarrow> (bytes \<times> data_positions) option" where
  "clean_entry e =
     (case iwp_kind (snd e) of
        Clean \<Rightarrow> Some (fst e, [snd e])
      | Modified \<Rightarrow> Some (fst e, [IWP (iwp_offset (snd e)) (iwp_len (snd e)) Clean])
      | Removed \<Rightarrow> None)"

definition clean_self :: "index_table \<Rightarrow> index_table res" where
  "clean_self t =
     bindr (data_latest_per_key (data t)) (\<lambda>ls.
       let tombstoned = map fst (filter (\<lambda>e. is_removed (snd e)) ls)
       in bindr (retain_flat (\<lambda>k v. if is_removed v \<or> k \<in> set tombstoned then None
                                    else Some (IWP (iwp_offset v) (iwp_len v) Clean))
                   (t\<lparr>data := List.map_filter clean_entry ls\<rparr>)) with_stats)"

section \<open>Merging a dirty table\<close>

definition demote :: "bool \<Rightarrow> index_wal_position \<Rightarrow> index_wal_position res" where
  "demote promote_to_clean v =
     (if promote_to_clean \<and> \<not> is_removed v then as_clean_modified v else Inr v)"

fun fold_positions :: "bool \<Rightarrow> bytes \<Rightarrow> data_positions \<Rightarrow> data_overlay \<Rightarrow> data_overlay res" where
  "fold_positions pc k [] d = Inr d"
| "fold_positions pc k (v # vs) d = bindr (demote pc v) (\<lambda>w. fold_positions pc k vs (data_insert_sorted k w d))"

fun fold_data :: "bool \<Rightarrow> data_overlay \<Rightarrow> data_overlay \<Rightarrow> data_overlay res" where
  "fold_data pc [] d = Inr d"
| "fold_data pc ((k, ps) # xs) d = bindr (fold_positions pc k ps d) (fold_data pc xs)"

text \<open>The merge loop yields \<open>merge_over\<close> of both buffers, the dirty side demoted; the keys taken
  from the dirty buffer that the dirty overlay does not hold leave \<open>self.data\<close>.\<close>

definition fold_dirty_flat :: "index_table \<Rightarrow> index_table \<Rightarrow> bool \<Rightarrow> (index_table \<times> usize) res" where
  "fold_dirty_flat self dirty pc =
     (let self1 = (if flat self = [] then self\<lparr>key_size := key_size dirty\<rparr> else self) in
      bindr (flat_items (flat self1) (key_size self1)) (\<lambda>ss.
      bindr (flat_items (flat dirty) (key_size dirty)) (\<lambda>ds.
      bindr (traverse (\<lambda>(k, v). bindr (demote pc v) (\<lambda>w. Inr (k, w))) ds) (\<lambda>ds'.
        let merged = merge_over ss ds';
            keys_from_dirty = map fst (filter (\<lambda>e. \<not> data_contains_key dirty (fst e)) ds);
            data' = fold sm_remove keys_from_dirty (data self1);
            flat_dirty = count_dirty merged
        in bindr (build_flat_bytes merged (key_size self1)) (\<lambda>b.
             Inr (self1\<lparr>data := data', flat := b\<rparr>, flat_dirty))))))"

definition merge_dirty :: "index_table \<Rightarrow> index_table \<Rightarrow> bool \<Rightarrow> index_table res" where
  "merge_dirty self dirty pc =
     bindr (fold_data pc (data dirty) (data self)) (\<lambda>d.
       let self1 = self\<lparr>data := d\<rparr> in
       bindr (if flat dirty \<noteq> [] then fold_dirty_flat self1 dirty pc
              else bindr (flat_items (flat self1) (key_size self1)) (\<lambda>fs. Inr (self1, count_dirty fs)))
         (\<lambda>(self2, flat_dirty).
           bindr (data_iter_latest self2) (\<lambda>ls.
             Inr (self2\<lparr>key_bytes := sum_key_bytes ls, dirty_count := flat_dirty + count_dirty ls\<rparr>))))"

definition merge_dirty_and_clean :: "index_table \<Rightarrow> index_table \<Rightarrow> index_table res" where
  "merge_dirty_and_clean self dirty = merge_dirty self dirty True"

definition merge_dirty_no_clean :: "index_table \<Rightarrow> index_table \<Rightarrow> index_table res" where
  "merge_dirty_no_clean self dirty = merge_dirty self dirty False"

section \<open>Promotion\<close>

definition PROMOTE_THRESHOLD :: usize where "PROMOTE_THRESHOLD = 128"
definition PROMOTE_POSITIONS_THRESHOLD :: usize where "PROMOTE_POSITIONS_THRESHOLD = 1024"

definition drainable_position_count :: "index_table \<Rightarrow> last_processed \<Rightarrow> usize res" where
  "drainable_position_count t lp =
     bindr (data_latest_per_key (data t)) (\<lambda>_.
       Inr (sum_list (map (\<lambda>e. length (snd e))
              (filter (\<lambda>e. is_processed lp (iwp_offset (last (snd e)))) (data t)))))"

definition should_promote :: "index_table \<Rightarrow> usize \<Rightarrow> last_processed \<Rightarrow> bool res" where
  "should_promote t key_threshold lp =
     (if key_threshold < data_unique_key_count t then Inr True
      else bindr (drainable_position_count t lp) (\<lambda>n. Inr (PROMOTE_POSITIONS_THRESHOLD < n)))"

definition should_promote_to_flat :: "index_table \<Rightarrow> last_processed \<Rightarrow> bool res" where
  "should_promote_to_flat t lp = should_promote t PROMOTE_THRESHOLD lp"

definition promote_to_flat_unconditionally :: "last_processed \<Rightarrow> index_table \<Rightarrow> index_table res" where
  "promote_to_flat_unconditionally lp t =
     bindr (merge_into_flat (flat t) (key_size t) (data t) lp) (\<lambda>(new_flat, flat_dirty).
     bindr (drop_data_keys (\<lambda>_ v. \<not> is_processed lp (iwp_offset v)) (t\<lparr>flat := new_flat\<rparr>)) (\<lambda>t1.
     bindr (recount_data_stats t1) (\<lambda>(kb, dd).
       Inr (t1\<lparr>key_bytes := kb, dirty_count := flat_dirty + dd\<rparr>))))"

definition promote_to_flat_inner :: "usize \<Rightarrow> last_processed \<Rightarrow> index_table \<Rightarrow> (index_table \<times> bool) res" where
  "promote_to_flat_inner threshold lp t =
     bindr (should_promote t threshold lp) (\<lambda>b.
       if \<not> b then Inr (t, False)
       else bindr (promote_to_flat_unconditionally lp t) (\<lambda>t'. Inr (t', True)))"

definition promote_to_flat :: "last_processed \<Rightarrow> index_table \<Rightarrow> (index_table \<times> bool) res" where
  "promote_to_flat lp t = promote_to_flat_inner PROMOTE_THRESHOLD lp t"

section \<open>Rebasing and updating\<close>

definition rebase_on_as_of :: "index_table \<Rightarrow> index_table \<Rightarrow> last_processed \<Rightarrow> index_table res" where
  "rebase_on_as_of self as_of lp =
     (let post_frontier = concat (map (\<lambda>(k, ps). map (Pair k) (filter (\<lambda>v. \<not> is_processed lp (iwp_offset v)) ps)) (data self))
      in with_stats (as_of\<lparr>data := fold (\<lambda>(k, v). data_insert_sorted k v) post_frontier (data as_of)\<rparr>))"

definition apply_update :: "bytes \<Rightarrow> (index_wal_position \<Rightarrow> index_wal_position) \<Rightarrow> index_table \<Rightarrow> index_table res" where
  "apply_update key update t =
     bindr (data_get_latest t key) (\<lambda>x.
       case x of
         Some latest_v \<Rightarrow>
           let new_iwp = update latest_v;
               positions = butlast (the (map_of (data t) key))
           in Inr (t\<lparr>dirty_count := adjust_dirty_count (dirty_count t) (\<not> is_clean latest_v) (\<not> is_clean new_iwp),
                     data := sm_insert key
                       (case binary_search_by_key id new_iwp positions of
                          Inl pos \<Rightarrow> insert_at pos new_iwp positions
                        | Inr _ \<Rightarrow> positions) (data t)\<rparr>)
       | None \<Rightarrow>
           bindr (flat_binary_search t key) (\<lambda>y.
             case y of
               None \<Rightarrow> Inr t
             | Some original \<Rightarrow>
                 let v = update original in
                 if v = original then Inr t
                 else Inr (t\<lparr>dirty_count := adjust_dirty_count (dirty_count t) (\<not> is_clean original) (\<not> is_clean v),
                             key_bytes := key_bytes t + length key,
                             data := sm_insert key [v] (data t)\<rparr>)))"

section \<open>Unmerging a flushed snapshot\<close>

text \<open>The single-pass diff of one key: \<open>rest\<close> is \<open>processed[oi..]\<close>, the result is the retained live
  positions, the final rest, and \<open>last_unmatched\<close>.\<close>

fun diff_live :: "data_positions \<Rightarrow> index_wal_position option \<Rightarrow> data_positions
    \<Rightarrow> data_positions \<times> data_positions \<times> index_wal_position option" where
  "diff_live rest lu [] = ([], rest, lu)"
| "diff_live rest lu (sv # live_ps) =
     (let skipped = takeWhile (\<lambda>p. iwp_offset p < iwp_offset sv) rest;
          rest1 = dropWhile (\<lambda>p. iwp_offset p < iwp_offset sv) rest;
          lu1 = (if skipped = [] then lu else Some (last skipped))
      in case rest1 of
           [] \<Rightarrow> (let (kept, r, u) = diff_live rest1 lu1 live_ps in (sv # kept, r, u))
         | p # rest2 \<Rightarrow>
             if into_update_position p = into_update_position sv
             then diff_live rest2 lu1 live_ps
             else (let (kept, r, u) = diff_live rest1 lu1 live_ps in (sv # kept, r, u)))"

text \<open>One key of the snapshot: the overlay and the positions to look for in the buffer.\<close>

definition unmerge_key :: "last_processed \<Rightarrow> bytes \<times> data_positions \<Rightarrow> data_overlay \<times> (bytes \<times> index_wal_position) list
    \<Rightarrow> data_overlay \<times> (bytes \<times> index_wal_position) list" where
  "unmerge_key lp e acc =
     (let (k, orig_positions) = e; (d, pending) = acc;
          done_ps = processed_prefix orig_positions lp
      in if done_ps = [] then (d, pending)
         else case map_of d k of
                None \<Rightarrow> (d, (k, last done_ps) # pending)
              | Some live_ps \<Rightarrow>
                  let (kept, rest, lu) = diff_live done_ps None live_ps;
                      lu' = (if rest \<noteq> [] then Some (last done_ps) else lu);
                      pending' = (case lu' of None \<Rightarrow> pending | Some v \<Rightarrow> (k, v) # pending)
                  in (if kept = [] then sm_remove k d else sm_insert k kept d, pending'))"

fun unmerge_flat :: "entry list \<Rightarrow> entry list \<Rightarrow> (bytes \<times> index_wal_position) list \<Rightarrow> entry list" where
  "unmerge_flat [] orig pending = []"
| "unmerge_flat ((sk, s) # xs) orig pending =
     (let orig1 = dropWhile (\<lambda>e. fst e < sk) orig;
          (by_flat, orig2) =
            (case orig1 of
               (ok, o') # r \<Rightarrow> if ok = sk then (into_update_position s = into_update_position o', r) else (False, orig1)
             | [] \<Rightarrow> (False, orig1));
          by_data = (\<not> by_flat \<and>
            (case map_of pending sk of Some o' \<Rightarrow> into_update_position s = into_update_position o' | None \<Rightarrow> False));
          kept = unmerge_flat xs orig2 pending
      in if \<not> by_flat \<and> \<not> by_data then (sk, s) # kept else kept)"

definition unmerge_flushed :: "index_table \<Rightarrow> index_table \<Rightarrow> last_processed \<Rightarrow> index_table res" where
  "unmerge_flushed self original lp =
     (let (d, pending) = fold (unmerge_key lp) (data original) (data self, []);
          self1 = self\<lparr>data := d\<rparr>
      in bindr
           (if flat original \<noteq> [] \<or> pending \<noteq> [] then
              bindr (flat_items (flat original) (key_size original)) (\<lambda>os.
              bindr (flat_items (flat self1) (key_size self1)) (\<lambda>ss.
              bindr (build_flat_bytes (unmerge_flat ss os pending) (key_size self1)) (\<lambda>b.
                Inr (self1\<lparr>flat := b\<rparr>))))
            else Inr self1)
           with_stats)"

section \<open>Construction\<close>

definition from_varlen_flat_bytes :: "bytes \<Rightarrow> index_table" where
  "from_varlen_flat_bytes b = \<lparr>data = [], key_bytes = 0, dirty_count = 0, flat = b, key_size = None\<rparr>"

definition from_sorted_entries :: "entry list \<Rightarrow> index_table res" where
  "from_sorted_entries entries =
     bindr (build_flat_bytes entries None) (\<lambda>b.
       Inr \<lparr>data = [], key_bytes = 0, dirty_count = count_dirty entries, flat = b, key_size = None\<rparr>)"

section \<open>Rebuilding the buffer\<close>

lemma rebuild_flat:
  assumes "flat_ok (key_size t) es" "sm_wf es"
  shows "\<exists>b. build_flat_bytes es (key_size t) = Inr b \<and> flat_wf (t\<lparr>flat := b\<rparr>) \<and> flat_entries (t\<lparr>flat := b\<rparr>) = es"
proof -
  obtain b where b: "build_flat_bytes es (key_size t) = Inr b" "flat_view (key_size t) b es"
    using build_flat_view [OF assms(1)] by blast
  then show ?thesis
    using flat_wfI [of "t\<lparr>flat := b\<rparr>" es] flat_entries_eq [of "t\<lparr>flat := b\<rparr>" es] assms by simp
qed

definition keep_entries :: "(bytes \<Rightarrow> index_wal_position \<Rightarrow> index_wal_position option) \<Rightarrow> entry list \<Rightarrow> entry list" where
  "keep_entries keep es = List.map_filter (\<lambda>e. map_option (Pair (fst e)) (keep (fst e) (snd e))) es"

lemma keep_entries_simps [simp]:
  "keep_entries keep [] = []"
  "keep_entries keep ((k, v) # es) =
     (case keep k v of None \<Rightarrow> keep_entries keep es | Some w \<Rightarrow> (k, w) # keep_entries keep es)"
  by (simp_all add: keep_entries_def map_filter_simps split: option.splits)

lemma keep_entries_key: "e \<in> set (keep_entries keep es) \<Longrightarrow> \<exists>v. (fst e, v) \<in> set es \<and> keep (fst e) v = Some (snd e)"
  by (force simp: keep_entries_def map_filter_def)

lemma sm_wf_keep: "sm_wf es \<Longrightarrow> sm_wf (keep_entries keep es)"
proof (induction es)
  case (Cons e es)
  obtain k v where e: "e = (k, v)" by (cases e)
  have "k < fst x" if "x \<in> set (keep_entries keep es)" for x
    using keep_entries_key [OF that] Cons.prems e by auto
  then show ?case using Cons e by (auto split: option.splits)
qed simp

lemma map_of_keep:
  "sm_wf es \<Longrightarrow> map_of (keep_entries keep es) k = (case map_of es k of None \<Rightarrow> None | Some v \<Rightarrow> keep k v)"
proof (induction es)
  case (Cons e es)
  obtain k' v where e: "e = (k', v)" by (cases e)
  have "map_of es k' = None" using Cons.prems e by (intro map_of_lt_None) auto
  then show ?case using Cons e by (auto split: option.splits)
qed simp

lemma flat_ok_keep:
  assumes "flat_ok ks es" "\<And>k v w. (k, v) \<in> set es \<Longrightarrow> keep k v = Some w \<Longrightarrow> len_ok w"
  shows "flat_ok ks (keep_entries keep es)"
proof -
  have "length (concat (map var_bytes (keep_entries keep es))) \<le> length (concat (map var_bytes es))"
    by (induction es) (auto split: option.splits)
  moreover have "len_ok (snd e)" "\<exists>v. (fst e, v) \<in> set es" if "e \<in> set (keep_entries keep es)" for e
    using keep_entries_key [OF that] assms(2) by blast+
  ultimately show ?thesis
    using assms(1) by (fastforce simp: flat_ok_def list_all_iff split: option.splits)
qed

lemma flat_wf_len_ok: "flat_wf t \<Longrightarrow> e \<in> set (flat_entries t) \<Longrightarrow> len_ok (snd e)"
  by (auto simp: flat_wf_def flat_ok_def list_all_iff)

lemma retain_flat_spec:
  assumes "flat_wf t" "\<And>k v w. len_ok v \<Longrightarrow> keep k v = Some w \<Longrightarrow> len_ok w"
  shows "\<exists>t'. retain_flat keep t = Inr t' \<and> flat_wf t' \<and> flat_entries t' = keep_entries keep (flat_entries t)
    \<and> data t' = data t \<and> key_size t' = key_size t"
proof (cases "flat t = []")
  case True
  then have "flat_entries t = []" using assms(1) by (simp add: flat_wf_def flat_view_def)
  then show ?thesis using True assms(1) by (simp add: retain_flat_def)
next
  case False
  let ?es = "keep_entries keep (flat_entries t)"
  have "len_ok w" if "(k, v) \<in> set (flat_entries t)" "keep k v = Some w" for k v w
    using assms(2) flat_wf_len_ok [OF assms(1) that(1)] that(2) by simp
  then have "flat_ok (key_size t) ?es" "sm_wf ?es"
    using assms(1) by (auto simp: flat_wf_def intro: flat_ok_keep sm_wf_keep)
  from rebuild_flat [OF this] obtain b where b: "build_flat_bytes ?es (key_size t) = Inr b"
      "flat_wf (t\<lparr>flat := b\<rparr>)" "flat_entries (t\<lparr>flat := b\<rparr>) = ?es" by blast
  then show ?thesis
    using False flat_items_eq [OF assms(1)] by (simp add: retain_flat_def keep_entries_def)
qed

section \<open>Filtering positions\<close>

lemma map_of_retain_positions:
  "sm_wf d \<Longrightarrow> map_of (retain_positions p d) k =
     (case map_of d k of None \<Rightarrow> None | Some ps \<Rightarrow> if filter p ps = [] then None else Some (filter p ps))"
proof (induction d)
  case (Cons e d)
  obtain k' ps where e: "e = (k', ps)" by (cases e)
  have "map_of d k' = None" using Cons.prems e by (intro map_of_lt_None) auto
  then show ?case using Cons e by (auto simp: retain_positions_def split: option.splits)
qed (simp add: retain_positions_def)

lemma overlay_ok_retain_positions: "overlay_ok d \<Longrightarrow> overlay_ok (retain_positions p d)"
  using sm_wf_map_snd [of "\<lambda>_ ps. filter p ps" d]
  by (auto simp: overlay_ok_def retain_positions_def list_all_iff positions_ok_def sorted_wrt_filter intro: sm_wf_filter)

lemma overlay_ok_retain: "overlay_ok d \<Longrightarrow> overlay_ok (sm_retain p d)"
  by (auto simp: overlay_ok_def sm_retain_def list_all_iff intro: sm_wf_filter)

lemma overlay_at_retain_processed:
  assumes "sm_wf d"
  shows "overlay_at lp' (retain_positions (\<lambda>v. is_processed lp (iwp_offset v)) d) k = overlay_at (min lp lp') d k"
proof -
  have "processed lp' (processed lp ps) = processed (min lp lp') ps" for ps
    by (auto simp: processed_def is_processed_def intro: filter_cong)
  moreover have "processed lp ps = [] \<Longrightarrow> processed (min lp lp') ps = []" for ps
    by (auto simp: processed_def is_processed_def filter_empty_conv)
  ultimately show ?thesis
    using map_of_retain_positions [OF assms, of "\<lambda>v. is_processed lp (iwp_offset v)" k]
    by (auto simp: overlay_at_def processed_def [symmetric] last_of_def split: option.splits)
qed

lemma retain_processed_spec:
  assumes "index_inv t"
  shows "\<exists>t'. retain_processed lp t = Inr t' \<and> index_inv t' \<and> live t' = live_at t lp
    \<and> (\<forall>lp'. live_at t' lp' = live_at t (min lp lp')) \<and> flat t' = flat t \<and> key_size t' = key_size t
    \<and> data t' = retain_positions (\<lambda>v. is_processed lp (iwp_offset v)) (data t)"
proof -
  let ?d = "retain_positions (\<lambda>v. is_processed lp (iwp_offset v)) (data t)"
  have ov: "overlay_ok (data t)" and fw: "flat_wf t" using assms by (simp_all add: index_inv_def)
  have wf: "sm_wf (data t)" using overlay_okD(1) [OF ov] .
  obtain t' where t': "with_stats (t\<lparr>data := ?d\<rparr>) = Inr t'" "index_inv t'" "data t' = ?d" "flat t' = flat t"
      "key_size t' = key_size t" "flat_entries t' = flat_entries t"
    using with_stats_inv [of "t\<lparr>data := ?d\<rparr>"] overlay_ok_retain_positions [OF ov] fw by auto
  have "live t' k = live_at t lp k" for k
    using map_of_retain_positions [OF wf, of "\<lambda>v. is_processed lp (iwp_offset v)" k] t'(3,6)
    by (auto simp: live_def live_at_def overlay_at_def processed_def last_of_def split: option.splits)
  moreover have "live_at t' lp' k = live_at t (min lp lp') k" for lp' k
    unfolding live_at_def t'(3,6) overlay_at_retain_processed [OF wf] by (rule refl)
  ultimately show ?thesis using t' by (simp add: retain_processed_def fun_eq_iff)
qed

section \<open>Promotion\<close>

lemma promote_spec:
  assumes "index_inv t" "flat_ok (key_size t) (merged_entries (flat_entries t) (data t) lp)"
  shows "\<exists>t'. promote_to_flat_unconditionally lp t = Inr t' \<and> index_inv t' \<and> key_size t' = key_size t
    \<and> (\<forall>k. map_of (data t') k = (case map_of (data t) k of
          Some ps \<Rightarrow> if is_processed lp (iwp_offset (last ps)) then None else Some ps | None \<Rightarrow> None))
    \<and> (\<forall>k. map_of (flat_entries t') k = (case map_of (data t) k of
          Some ps \<Rightarrow> if is_processed lp (iwp_offset (last ps)) then Some (last ps) else map_of (flat_entries t) k
        | None \<Rightarrow> map_of (flat_entries t) k))"
proof -
  let ?ms = "merged_entries (flat_entries t) (data t) lp"
  have ov: "overlay_ok (data t)" and fw: "flat_wf t" using assms(1) by (simp_all add: index_inv_def)
  have wf: "sm_wf (data t)" and ne: "positions_nonempty (data t)" using overlay_okD [OF ov] by auto
  obtain b where b: "merge_into_flat (flat t) (key_size t) (data t) lp = Inr (b, count_dirty ?ms)"
      "flat_view (key_size t) b ?ms"
    using merge_into_flat_spec [OF _ ne assms(2), of "flat t"] fw by (auto simp: flat_wf_def count_dirty_def)
  let ?f = "filter (\<lambda>e. is_processed lp (iwp_offset (snd e))) (latest (data t))"
  have wff: "sm_wf ?f" using wf by (simp add: sm_wf_filter)
  have fe: "sm_wf (flat_entries t)" using fw by (simp add: flat_wf_def)
  have wfm: "sm_wf ?ms" using sm_wf_merge_over [OF fe wff] by (simp add: merged_entries_def)
  let ?d = "sm_retain (\<lambda>k ps. \<not> is_processed lp (iwp_offset (last ps))) (data t)"
  let ?t1 = "t\<lparr>flat := b, data := ?d\<rparr>"
  have fw1: "flat_wf ?t1" and fe1: "flat_entries ?t1 = ?ms"
    using flat_wfI [of ?t1 ?ms] flat_entries_eq [of ?t1 ?ms] b(2) wfm assms(2) by auto
  have ov1: "overlay_ok (data ?t1)" using overlay_ok_retain [OF ov] by simp
  let ?t2 = "?t1\<lparr>key_bytes := sum_key_bytes (latest ?d), dirty_count := count_dirty ?ms + count_dirty (latest ?d)\<rparr>"
  have p: "promote_to_flat_unconditionally lp t = Inr ?t2"
    using b(1) data_latest_per_key_eq [OF ne] recount_eq(1) [OF ov1 fw1]
    by (simp add: promote_to_flat_unconditionally_def drop_data_keys_def)
  have inv: "index_inv ?t2" using ov1 fw1 fe1 by (simp add: index_inv_def stats_ok_def)
  have d: "map_of ?d k = (case map_of (data t) k of
      Some ps \<Rightarrow> if is_processed lp (iwp_offset (last ps)) then None else Some ps | None \<Rightarrow> None)" for k
    using map_of_sm_retain [OF wf] by (simp split: option.splits)
  have "map_of ?f k = (case map_of (data t) k of None \<Rightarrow> None
      | Some ps \<Rightarrow> if is_processed lp (iwp_offset (last ps)) then Some (last ps) else None)" for k
    using map_of_sm_retain [of "latest (data t)" "\<lambda>_ v. is_processed lp (iwp_offset v)" k] wf
    by (simp add: sm_retain_def map_of_latest split: option.splits)
  then have "map_of ?ms k = (case map_of (data t) k of
          Some ps \<Rightarrow> if is_processed lp (iwp_offset (last ps)) then Some (last ps) else map_of (flat_entries t) k
        | None \<Rightarrow> map_of (flat_entries t) k)" for k
    using map_of_merge_over [OF fe wff] by (simp add: merged_entries_def map_add_def split: option.splits)
  then show ?thesis using p inv d fe1 by (intro exI [of _ ?t2]) simp
qed

section \<open>Cleaning\<close>

definition cleaned :: "index_wal_position \<Rightarrow> index_wal_position" where
  "cleaned v = IWP (iwp_offset v) (iwp_len v) Clean"

lemma cleaned_simps [simp]:
  "iwp_offset (cleaned v) = iwp_offset v" "iwp_len (cleaned v) = iwp_len v" "is_clean (cleaned v)"
  "\<not> is_removed (cleaned v)" "len_ok (cleaned v) = len_ok v" "into_update_position (cleaned v) = into_update_position v"
  by (simp_all add: cleaned_def is_clean_def is_removed_def len_ok_def into_update_position_def)

lemma into_wal_position_cleaned: "\<not> is_removed v \<Longrightarrow> into_wal_position (cleaned v) = into_wal_position v"
  by (simp add: into_wal_position_live)

definition keep_live :: "index_wal_position \<Rightarrow> index_wal_position option" where
  "keep_live v = (if is_removed v then None else Some (cleaned v))"

lemma clean_entries_eq:
  "List.map_filter clean_entry ls = map (\<lambda>e. (fst e, [snd e])) (keep_entries (\<lambda>_. keep_live) ls)"
proof (induction ls)
  case (Cons e ls)
  then show ?case
    by (cases e; cases "iwp_kind (snd e)"; cases "snd e")
      (auto simp: map_filter_simps clean_entry_def keep_live_def is_removed_def cleaned_def)
qed (simp add: map_filter_simps)

lemma count_dirty_zero: "(\<And>e. e \<in> set es \<Longrightarrow> is_clean (snd e)) \<Longrightarrow> count_dirty es = 0"
  by (simp add: count_dirty_def filter_empty_conv)

lemma clean_self_spec:
  assumes "index_inv t"
  shows "\<exists>t'. clean_self t = Inr t' \<and> index_inv t' \<and> dirty_count t' = 0 \<and> key_size t' = key_size t
    \<and> (\<forall>k. live t' k = (case live t k of None \<Rightarrow> None | Some v \<Rightarrow> keep_live v))"
proof -
  have ov: "overlay_ok (data t)" and fw: "flat_wf t" using assms by (simp_all add: index_inv_def)
  have wf: "sm_wf (data t)" using overlay_okD(1) [OF ov] .
  let ?l = "latest (data t)" and ?n = "keep_entries (\<lambda>_. keep_live) (latest (data t))"
  let ?d = "map (\<lambda>e. (fst e, [snd e])) ?n"
  let ?dead = "map fst (filter (\<lambda>e. is_removed (snd e)) ?l)"
  define keep where "keep = (\<lambda>k v. if is_removed v \<or> k \<in> set ?dead then None else Some (IWP (iwp_offset v) (iwp_len v) Clean))"
  have lk: "len_ok w" if "len_ok v" "keep k v = Some w" for k v w
    using that by (auto simp: keep_def len_ok_def split: if_splits)
  have nk: "sm_wf ?n" using wf by (simp add: sm_wf_keep)
  have md: "map_of ?d k = map_option (\<lambda>v. [v]) (case map_of (data t) k of None \<Rightarrow> None | Some ps \<Rightarrow> keep_live (last ps))" for k
    using map_of_map_snd [of "\<lambda>_ v. [v]" ?n k] map_of_keep [of ?l "\<lambda>_. keep_live" k] wf
    by (simp add: map_of_latest split: option.splits)
  have ovd: "overlay_ok ?d" using nk sm_wf_map_snd [of "\<lambda>_ v. [v]" ?n] by (auto simp: overlay_ok_def list_all_iff positions_ok_def)
  have dead: "k \<in> set ?dead \<longleftrightarrow> (\<exists>ps. map_of (data t) k = Some ps \<and> is_removed (last ps))" for k
    using map_of_eq_Some_iff [OF sm_wf_distinct [OF wf], of k] by (force simp: latest_def)
  obtain t1 where t1: "retain_flat keep (t\<lparr>data := ?d\<rparr>) = Inr t1" "flat_wf t1"
      "flat_entries t1 = keep_entries keep (flat_entries t)" "data t1 = ?d" "key_size t1 = key_size t"
  proof -
    have "flat_wf (t\<lparr>data := ?d\<rparr>)" using fw by simp
    from retain_flat_spec [OF this, of keep] show ?thesis using lk that by auto
  qed
  obtain t' where t': "with_stats t1 = Inr t'" "index_inv t'" "data t' = ?d" "flat_entries t' = flat_entries t1"
      "key_size t' = key_size t1"
    using with_stats_inv [of t1] ovd t1 by auto
  have c: "clean_self t = Inr t'"
    using data_latest_per_key_eq [OF overlay_okD(2) [OF ov]] t1(1) t'(1) by (simp add: clean_self_def clean_entries_eq keep_def)
  have fe: "map_of (flat_entries t') k = (case map_of (flat_entries t) k of None \<Rightarrow> None | Some v \<Rightarrow> keep k v)" for k
    using map_of_keep [of "flat_entries t" keep k] fw t'(4) t1(3) by (simp add: flat_wf_def)
  have "live t' k = (case live t k of None \<Rightarrow> None | Some v \<Rightarrow> keep_live v)" for k
    unfolding live_def t'(3) md fe keep_def dead
    by (auto simp: keep_live_def cleaned_def split: option.splits)
  moreover have "dirty_count t' = 0"
  proof -
    have "is_clean w" if "keep k v = Some w" for k v w
      using that by (auto simp: is_clean_def keep_def split: if_splits)
    then have "is_clean (snd e)" if "e \<in> set (flat_entries t')" for e
      using that keep_entries_key [of e keep "flat_entries t"] t'(4) t1(3) by auto
    moreover have kc: "is_clean w" if "keep_live v = Some w" for v w
      using that by (auto simp: keep_live_def split: if_splits)
    have "latest ?d = ?n" by (simp add: latest_def comp_def)
    then have "is_clean (snd e)" if "e \<in> set (latest ?d)" for e
      using that keep_entries_key [of e "\<lambda>_. keep_live" ?l] kc by auto
    ultimately show ?thesis using t'(2,3) by (simp add: index_inv_def stats_ok_def count_dirty_zero)
  qed
  ultimately show ?thesis using c t'(2,5) t1(5) by auto
qed

section \<open>Merging\<close>

definition dem :: "bool \<Rightarrow> index_wal_position \<Rightarrow> index_wal_position" where
  "dem pc v = (if pc \<and> \<not> is_removed v then cleaned v else v)"

lemma demote_eq: "demote pc v = Inr (dem pc v)"
  by (simp add: demote_def dem_def as_clean_modified_eq cleaned_def)

lemma dem_simps [simp]:
  "iwp_offset (dem pc v) = iwp_offset v" "len_ok (dem pc v) = len_ok v" "is_removed (dem pc v) = is_removed v"
  "into_wal_position (dem pc v) = into_wal_position v" "into_update_position (dem pc v) = into_update_position v"
  by (simp_all add: dem_def into_wal_position_cleaned)

lemma sm_insert_end: "(\<And>e. e \<in> set d \<Longrightarrow> fst e < k) \<Longrightarrow> sm_insert k v d = d @ [(k, v)]"
proof (induction d)
  case (Cons e d)
  then have "fst e < k" "sm_insert k v d = d @ [(k, v)]" by auto
  then show ?case by (cases e) auto
qed simp

lemma sm_insert_twice: "sm_insert k v (sm_insert k u d) = sm_insert k v d"
  by (induction d) auto

lemma data_insert_sorted_end:
  assumes "\<And>p. p \<in> set ps \<Longrightarrow> iwp_offset p < iwp_offset v" "map_of d k = (if ps = [] then None else Some ps)"
  shows "data_insert_sorted k v d = sm_insert k (ps @ [v]) d"
proof -
  have "\<forall>p \<in> set ps. p < v" using assms(1) offset_less_imp_less by blast
  then have tw: "takeWhile (\<lambda>p. id p < v) ps = ps" by (simp add: takeWhile_eq_all_conv)
  have "binary_search_by_key id v ps = Inl (length ps)" unfolding binary_search_by_key_def tw by simp
  then show ?thesis using assms(2) by (auto simp: data_insert_sorted_def insert_at_def)
qed

lemma fold_positions_eq:
  assumes "sorted_wrt (\<lambda>a b. iwp_offset a < iwp_offset b) (qs @ ps)" "map_of d k = (if qs = [] then None else Some qs)"
    and "ps \<noteq> []"
  shows "fold_positions pc k ps d = Inr (sm_insert k (qs @ map (dem pc) ps) d)"
  using assms
proof (induction ps arbitrary: qs d)
  case (Cons p ps)
  have i: "data_insert_sorted k (dem pc p) d = sm_insert k (qs @ [dem pc p]) d"
    using Cons.prems(1,2) by (intro data_insert_sorted_end) (auto simp: sorted_wrt_append)
  show ?case
  proof (cases "ps = []")
    case False
    have "sorted_wrt (\<lambda>a b. iwp_offset a < iwp_offset b) ((qs @ [dem pc p]) @ ps)"
      using Cons.prems(1) by (auto simp: sorted_wrt_append)
    from Cons.IH [OF this _ False, of "sm_insert k (qs @ [dem pc p]) d"] show ?thesis
      by (simp add: demote_eq i map_of_sm_insert sm_insert_twice)
  qed (simp add: demote_eq i)
qed simp

lemma fold_data_eq:
  assumes "overlay_ok xs" "\<And>a b. a \<in> set d \<Longrightarrow> b \<in> set xs \<Longrightarrow> fst a < fst b"
  shows "fold_data pc xs d = Inr (d @ map (\<lambda>e. (fst e, map (dem pc) (snd e))) xs)"
  using assms
proof (induction xs arbitrary: d)
  case (Cons e xs)
  obtain k ps where e: "e = (k, ps)" by (cases e)
  have lt: "fst a < k" if "a \<in> set d" for a using Cons.prems(2) that e by fastforce
  have ok: "positions_ok ps" "overlay_ok xs" using Cons.prems(1) e by (auto simp: overlay_ok_def)
  have "map_of d k = None" using lt by (intro map_of_not_key) auto
  then have "fold_positions pc k ps d = Inr (sm_insert k (map (dem pc) ps) d)"
    using fold_positions_eq [of "[]" ps d k pc] ok(1) by (simp add: positions_ok_def)
  moreover have "sm_insert k (map (dem pc) ps) d = d @ [(k, map (dem pc) ps)]"
    using lt by (rule sm_insert_end)
  moreover have "fst a < fst b" if "a \<in> set (d @ [(k, map (dem pc) ps)])" "b \<in> set xs" for a b
    using that Cons.prems(1) Cons.prems(2) [of a b] e by (auto simp: overlay_ok_def)
  ultimately show ?case using Cons.IH [OF ok(2), of "d @ [(k, map (dem pc) ps)]"] e by simp
qed simp

lemma sm_remove_absent: "map_of d k = None \<Longrightarrow> sm_remove k d = d"
  unfolding sm_remove_def by (rule filter_True) (auto simp: map_of_eq_None_iff)

lemma fold_sm_remove_absent: "(\<And>k. k \<in> set ks \<Longrightarrow> map_of d k = None) \<Longrightarrow> fold sm_remove ks d = d"
  by (induction ks) (auto simp: sm_remove_absent)

text \<open>The layout of the merged buffer: an empty base adopts the dirty side's.\<close>

definition merged_key_size :: "index_table \<Rightarrow> index_table \<Rightarrow> usize option" where
  "merged_key_size self dirty = (if flat dirty \<noteq> [] \<and> flat self = [] then key_size dirty else key_size self)"

definition dem_entries :: "bool \<Rightarrow> entry list \<Rightarrow> entry list" where
  "dem_entries pc es = map (\<lambda>e. (fst e, dem pc (snd e))) es"

lemma sm_wf_dem [simp]: "sm_wf (dem_entries pc es) = sm_wf es"
  using sm_wf_map_snd [of "\<lambda>_. dem pc" es] by (simp add: dem_entries_def)

lemma map_of_dem: "map_of (dem_entries pc es) k = map_option (dem pc) (map_of es k)"
  using map_of_map_snd [of "\<lambda>_. dem pc" es k] by (simp add: dem_entries_def)

lemma traverse_dem: "traverse (\<lambda>(k, v). bindr (demote pc v) (\<lambda>w. Inr (k, w))) es = Inr (dem_entries pc es)"
  unfolding dem_entries_def by (rule traverse_Inr) (auto simp: demote_eq)

lemma merge_dirty_spec:
  assumes "table_wf base" "data base = []" "table_wf dirty"
    and "flat_ok (merged_key_size base dirty) (merge_over (flat_entries base) (dem_entries pc (flat_entries dirty)))"
  shows "\<exists>t'. merge_dirty base dirty pc = Inr t' \<and> index_inv t' \<and> key_size t' = merged_key_size base dirty
    \<and> data t' = map (\<lambda>e. (fst e, map (dem pc) (snd e))) (data dirty)
    \<and> flat_entries t' = merge_over (flat_entries base) (dem_entries pc (flat_entries dirty))"
proof -
  let ?d = "map (\<lambda>e. (fst e, map (dem pc) (snd e))) (data dirty)"
  let ?m = "merge_over (flat_entries base) (dem_entries pc (flat_entries dirty))"
  have ov: "overlay_ok (data dirty)" and fd: "flat_wf dirty" and fb: "flat_wf base"
    using assms(1,3) by (simp_all add: table_wf_def)
  have d: "fold_data pc (data dirty) (data base) = Inr ?d" using fold_data_eq [OF ov, of "[]" pc] assms(2) by simp
  have ovd: "overlay_ok ?d"
    using ov sm_wf_map_snd [of "\<lambda>_. map (dem pc)" "data dirty"]
    by (auto simp: overlay_ok_def list_all_iff positions_ok_def sorted_wrt_map)
  have wfm: "sm_wf ?m" using fb fd by (simp add: flat_wf_def sm_wf_merge_over)
  have rest: "\<exists>t'. bindr (data_iter_latest t2) (\<lambda>ls. Inr (t2\<lparr>key_bytes := sum_key_bytes ls, dirty_count := n + count_dirty ls\<rparr>)) = Inr t'
      \<and> index_inv t' \<and> key_size t' = key_size t2 \<and> data t' = data t2 \<and> flat_entries t' = flat_entries t2"
    if "data t2 = ?d" "flat_wf t2" "n = count_dirty (flat_entries t2)" for t2 n
    using that ovd data_latest_per_key_eq [OF overlay_okD(2) [OF ovd]]
    by (simp add: data_iter_latest_def index_inv_def stats_ok_def)
  show ?thesis
  proof (cases "flat dirty = []")
    case True
    then have "flat_entries dirty = []" using fd by (simp add: flat_wf_def flat_view_def)
    then have m: "?m = flat_entries base" by (simp add: dem_entries_def)
    show ?thesis
      using rest [of "base\<lparr>data := ?d\<rparr>" "count_dirty (flat_entries base)"] d True m fb flat_items_eq [OF fb]
      by (simp add: merge_dirty_def merged_key_size_def Let_def)
  next
    case False
    let ?b1 = "if flat base = [] then base\<lparr>key_size := key_size dirty, data := ?d\<rparr> else base\<lparr>data := ?d\<rparr>"
    have ks: "key_size ?b1 = merged_key_size base dirty" using False by (simp add: merged_key_size_def)
    have fi: "flat_items (flat ?b1) (key_size ?b1) = Inr (flat_entries base)"
    proof (cases "flat base = []")
      case True
      then have "flat_entries base = []" using fb by (simp add: flat_wf_def flat_view_def)
      then show ?thesis using True by (simp add: flat_items_def flat_iter_new_def flat_collect.simps)
    qed (use flat_items_eq [OF fb] in simp)
    obtain b where b: "build_flat_bytes ?m (key_size ?b1) = Inr b" "flat_wf (?b1\<lparr>flat := b\<rparr>)"
        "flat_entries (?b1\<lparr>flat := b\<rparr>) = ?m"
      using rebuild_flat [of ?b1 ?m] assms(4) wfm ks by auto
    have "map_of ?d k = None" if "k \<in> set (map fst (filter (\<lambda>e. \<not> data_contains_key dirty (fst e)) (flat_entries dirty)))" for k
      using that map_of_map_snd [of "\<lambda>_. map (dem pc)" "data dirty" k] by (auto simp: data_contains_key_def)
    then have rm: "fold sm_remove (map fst (filter (\<lambda>e. \<not> data_contains_key dirty (fst e)) (flat_entries dirty))) ?d = ?d"
      by (rule fold_sm_remove_absent)
    have "fold_dirty_flat (base\<lparr>data := ?d\<rparr>) dirty pc = Inr (?b1\<lparr>flat := b\<rparr>, count_dirty ?m)"
      using b(1) fi flat_items_eq [OF fd] traverse_dem [of pc "flat_entries dirty"] rm
      by (simp add: fold_dirty_flat_def Let_def split: if_splits)
    then show ?thesis
      using rest [of "?b1\<lparr>flat := b\<rparr>" "count_dirty ?m"] b d False ks by (simp add: merge_dirty_def Let_def split: if_splits)
  qed
qed

text \<open>The merge is the dirty table's view over the base's, live and as of every frontier.\<close>

lemma merge_dirty_views:
  assumes "data base = []" "sm_wf (flat_entries base)" "sm_wf (flat_entries dirty)"
    and "data t' = map (\<lambda>e. (fst e, map (dem pc) (snd e))) (data dirty)" "overlay_ok (data dirty)"
    and "flat_entries t' = merge_over (flat_entries base) (dem_entries pc (flat_entries dirty))"
  shows "live t' k = (case live dirty k of Some v \<Rightarrow> Some (dem pc v) | None \<Rightarrow> live base k)"
    and "live_at t' lp k = (case live_at dirty lp k of Some v \<Rightarrow> Some (dem pc v) | None \<Rightarrow> live base k)"
proof -
  have f: "map_of (flat_entries t') k = (case map_of (flat_entries dirty) k of
      Some v \<Rightarrow> Some (dem pc v) | None \<Rightarrow> map_of (flat_entries base) k)"
    using map_of_merge_over [of "flat_entries base" "dem_entries pc (flat_entries dirty)"] assms(2,3,6)
    by (simp add: map_of_dem map_add_def split: option.splits)
  have d: "map_of (data t') k = map_option (map (dem pc)) (map_of (data dirty) k)"
    using map_of_map_snd [of "\<lambda>_. map (dem pc)" "data dirty" k] assms(4) by simp
  have ne: "ps \<noteq> []" if "map_of (data dirty) k = Some ps" for ps
    using overlay_okD(3) [OF assms(5) that] by (simp add: positions_ok_def)
  have b: "live base k = map_of (flat_entries base) k" using assms(1) by (simp add: live_def)
  show "live t' k = (case live dirty k of Some v \<Rightarrow> Some (dem pc v) | None \<Rightarrow> live base k)"
    unfolding live_def [of t'] live_def [of dirty] b d f using ne
    by (auto simp: last_map split: option.splits)
  have p: "processed lp (map (dem pc) ps) = map (dem pc) (processed lp ps)" for ps
    by (simp add: processed_def filter_map comp_def)
  show "live_at t' lp k = (case live_at dirty lp k of Some v \<Rightarrow> Some (dem pc v) | None \<Rightarrow> live base k)"
    unfolding live_at_def overlay_at_def b d f
    by (auto simp: p last_of_def last_map split: option.splits)
qed

section \<open>Properties\<close>

lemma promote_views:
  assumes "index_inv t"
    and "\<And>k. map_of (data t') k = (case map_of (data t) k of
          Some ps \<Rightarrow> if is_processed lp (iwp_offset (last ps)) then None else Some ps | None \<Rightarrow> None)"
    and "\<And>k. map_of (flat_entries t') k = (case map_of (data t) k of
          Some ps \<Rightarrow> if is_processed lp (iwp_offset (last ps)) then Some (last ps) else map_of (flat_entries t) k
        | None \<Rightarrow> map_of (flat_entries t) k)"
  shows "live t' k = live t k" "lp \<le> lp' \<Longrightarrow> live_at t' lp' k = live_at t lp' k"
proof -
  show "live t' k = live t k" unfolding live_def assms(2,3) by (auto split: option.splits)
  assume le: "lp \<le> lp'"
  have "processed lp' ps = ps" if "map_of (data t) k = Some ps" "is_processed lp (iwp_offset (last ps))" for ps
  proof -
    have ok: "positions_ok ps" using overlay_okD(3) [OF _ that(1)] assms(1) by (simp add: index_inv_def)
    have "is_processed lp' (iwp_offset p)" if "p \<in> set ps" for p
      using last_is_max [OF ok that] \<open>is_processed lp _\<close> le by (auto simp: is_processed_def)
    then show ?thesis by (simp add: processed_def)
  qed
  moreover have "ps \<noteq> []" if "map_of (data t) k = Some ps" for ps
    using overlay_okD(3) [OF _ that] assms(1) by (simp add: index_inv_def positions_ok_def)
  ultimately show "live_at t' lp' k = live_at t lp' k"
    unfolding live_at_def overlay_at_def assms(2,3) by (auto simp: last_of_def split: option.splits)
qed

text \<open>C17. Promotion is invisible to readers: it succeeds whenever the merged entries fit the packed
  format, keeps the invariant, and changes neither any live read nor any read as of a frontier at
  or past the promotion's.\<close>

theorem promote_preserves_reads:
  assumes "index_inv t" "flat_ok (key_size t) (merged_entries (flat_entries t) (data t) lp)"
  shows "\<exists>t'. promote_to_flat_unconditionally lp t = Inr t' \<and> index_inv t'
    \<and> (\<forall>k. index_get t' k = index_get t k)
    \<and> (\<forall>k lp'. lp \<le> lp' \<longrightarrow> index_get_at t' k lp' = index_get_at t k lp')"
proof -
  obtain t' where t': "promote_to_flat_unconditionally lp t = Inr t'" "index_inv t'"
      "\<And>k. map_of (data t') k = (case map_of (data t) k of
          Some ps \<Rightarrow> if is_processed lp (iwp_offset (last ps)) then None else Some ps | None \<Rightarrow> None)"
      "\<And>k. map_of (flat_entries t') k = (case map_of (data t) k of
          Some ps \<Rightarrow> if is_processed lp (iwp_offset (last ps)) then Some (last ps) else map_of (flat_entries t) k
        | None \<Rightarrow> map_of (flat_entries t) k)"
    using promote_spec [OF assms] by blast
  note v = promote_views [OF assms(1) t'(3,4)]
  show ?thesis
    using t'(1,2) v by (auto simp: index_get_eq [OF assms(1)] index_get_eq [OF t'(2)]
        index_get_at_eq [OF assms(1)] index_get_at_eq [OF t'(2)])
qed

lemma demo_table_promotes: "flat_ok (key_size demo_table) (merged_entries (flat_entries demo_table) (data demo_table) 20)"
proof -
  have fe: "flat_entries demo_table = []"
    by (simp add: demo_table_def flat_entries_def flat_items_def flat_iter_new_def flat_collect.simps)
  show ?thesis
    unfolding fe by (simp add: demo_table_def flat_ok_def merged_entries_def latest_def is_processed_def len_ok_def)
qed

theorem promote_preserves_reads_witness:
  "\<exists>t'. promote_to_flat_unconditionally 20 demo_table = Inr t' \<and> index_inv t'
    \<and> index_get t' [3] = Inr (Some (WalPosition 8 9)) \<and> index_get_at t' [7] 24 = Inr (Some (WalPosition 16 9))"
proof -
  have g: "index_get demo_table [3] = Inr (Some (WalPosition 8 9))"
      "index_get_at demo_table [7] 24 = Inr (Some (WalPosition 16 9))" by code_simp+
  have le: "(20 :: last_processed) \<le> 24" by simp
  from promote_preserves_reads [OF demo_table_inv demo_table_promotes] g le show ?thesis by fastforce
qed

text \<open>C18. Merging a dirty table into a freshly loaded one is map override: a key the dirty table
  knows (tombstones included) reads as there, live and as of every frontier, and any other key as
  in the loaded table.\<close>

theorem merge_dirty_override:
  assumes "table_wf base" "data base = []" "table_wf dirty"
    and "flat_ok (merged_key_size base dirty) (merge_over (flat_entries base) (dem_entries pc (flat_entries dirty)))"
  shows "\<exists>t'. merge_dirty base dirty pc = Inr t' \<and> index_inv t'
    \<and> (\<forall>k. index_get t' k = (case index_get dirty k of Inr (Some p) \<Rightarrow> Inr (Some p) | _ \<Rightarrow> index_get base k))
    \<and> (\<forall>k lp. index_get_at t' k lp =
          (case index_get_at dirty k lp of Inr (Some p) \<Rightarrow> Inr (Some p) | _ \<Rightarrow> index_get base k))"
proof -
  obtain t' where t': "merge_dirty base dirty pc = Inr t'" "index_inv t'"
      "data t' = map (\<lambda>e. (fst e, map (dem pc) (snd e))) (data dirty)"
      "flat_entries t' = merge_over (flat_entries base) (dem_entries pc (flat_entries dirty))"
    using merge_dirty_spec [OF assms] by blast
  have wf: "sm_wf (flat_entries base)" "sm_wf (flat_entries dirty)" "overlay_ok (data dirty)"
    using assms(1,3) by (simp_all add: table_wf_def flat_wf_def)
  note v = merge_dirty_views [OF assms(2) wf(1,2) t'(3) wf(3) t'(4)]
  have "index_get t' k = (case index_get dirty k of Inr (Some p) \<Rightarrow> Inr (Some p) | _ \<Rightarrow> index_get base k)" for k
    unfolding index_get_eq [OF t'(2)] index_get_wf [OF assms(3)] index_get_wf [OF assms(1)] v(1)
    by (cases "live dirty k") simp_all
  moreover have "index_get_at t' k lp =
      (case index_get_at dirty k lp of Inr (Some p) \<Rightarrow> Inr (Some p) | _ \<Rightarrow> index_get base k)" for k lp
    unfolding index_get_at_eq [OF t'(2)] index_get_at_wf [OF assms(3)] index_get_wf [OF assms(1)] v(2)
    by (cases "live_at dirty lp k") simp_all
  ultimately show ?thesis using t'(1,2) by blast
qed

theorem merge_dirty_override_witness:
  "\<exists>t'. merge_dirty index_table_default demo_table True = Inr t' \<and> index_inv t'
    \<and> index_get t' [7] = Inr (Some WAL_INVALID) \<and> index_get_at t' [7] 20 = Inr (Some (WalPosition 16 9))"
proof -
  have fe: "flat_entries demo_table = []" "flat_entries index_table_default = []" "data index_table_default = []"
    by (simp_all add: demo_table_def index_table_default_def flat_entries_def flat_items_def flat_iter_new_def flat_collect.simps)
  have ok: "flat_ok (merged_key_size index_table_default demo_table)
      (merge_over (flat_entries index_table_default) (dem_entries True (flat_entries demo_table)))"
    unfolding fe by (simp add: merged_key_size_def demo_table_def index_table_default_def dem_entries_def flat_ok_def)
  have g: "index_get demo_table [7] = Inr (Some WAL_INVALID)"
      "index_get_at demo_table [7] 20 = Inr (Some (WalPosition 16 9))" by code_simp+
  from merge_dirty_override [OF index_inv_wf [OF inv_default] fe(3) index_inv_wf [OF demo_table_inv] ok] g show ?thesis by fastforce
qed

text \<open>C19. What a flush writes is the state as of its frontier: after \<open>retain_processed\<close> every live read
  returns what a read as of the frontier returned before, whatever was written later.\<close>

theorem retain_processed_as_of:
  assumes "index_inv t"
  shows "\<exists>t'. retain_processed lp t = Inr t' \<and> index_inv t'
    \<and> (\<forall>k. index_get t' k = index_get_at t k lp)
    \<and> (\<forall>k lp'. index_get_at t' k lp' = index_get_at t k (min lp lp'))"
proof -
  obtain t' where t': "retain_processed lp t = Inr t'" "index_inv t'" "live t' = live_at t lp"
      "\<And>lp'. live_at t' lp' = live_at t (min lp lp')"
    using retain_processed_spec [OF assms, of lp] by blast
  then show ?thesis
    by (auto simp: index_get_eq [OF t'(2)] index_get_at_eq [OF assms] index_get_at_eq [OF t'(2)])
qed

theorem retain_processed_as_of_witness:
  "\<exists>t'. retain_processed 20 demo_table = Inr t' \<and> index_get t' [7] = Inr (Some (WalPosition 16 9))"
proof -
  have "index_get_at demo_table [7] 20 = Inr (Some (WalPosition 16 9))" by code_simp
  then show ?thesis using retain_processed_as_of [OF demo_table_inv, of 20] by metis
qed

text \<open>C20. Cleaning strips exactly the tombstones: afterwards a removed key is absent, every other key
  reads as before, and nothing is dirty.\<close>

theorem clean_self_strips_tombstones:
  assumes "index_inv t"
  shows "\<exists>t'. clean_self t = Inr t' \<and> index_inv t' \<and> dirty_count t' = 0
    \<and> (\<forall>k. index_get t' k = (case live t k of
          None \<Rightarrow> Inr None
        | Some v \<Rightarrow> if is_removed v then Inr None else index_get t k))"
proof -
  obtain t' where t': "clean_self t = Inr t'" "index_inv t'" "dirty_count t' = 0"
      "\<And>k. live t' k = (case live t k of None \<Rightarrow> None | Some v \<Rightarrow> keep_live v)"
    using clean_self_spec [OF assms] by blast
  then show ?thesis
    by (auto simp: index_get_eq [OF t'(2)] index_get_eq [OF assms] keep_live_def into_wal_position_cleaned
        split: option.splits)
qed

theorem clean_self_strips_tombstones_witness:
  "\<exists>t'. clean_self demo_table = Inr t' \<and> dirty_count t' = 0
    \<and> index_get t' [7] = Inr None \<and> index_get t' [3] = Inr (Some (WalPosition 8 9))"
proof -
  have l: "live demo_table [7] = Some (IWP 32 9 Removed)" "live demo_table [3] = Some (IWP 8 9 Modified)"
    by (simp_all add: live_def demo_table_def)
  have g: "index_get demo_table [3] = Inr (Some (WalPosition 8 9))" by code_simp
  obtain t' where t': "clean_self demo_table = Inr t'" "dirty_count t' = 0"
      "\<And>k. index_get t' k = (case live demo_table k of None \<Rightarrow> Inr None
        | Some v \<Rightarrow> if is_removed v then Inr None else index_get demo_table k)"
    using clean_self_strips_tombstones [OF demo_table_inv] by blast
  show ?thesis using t'(1,2) t'(3) [of "[7]"] t'(3) [of "[3]"] l g by (auto simp: is_removed_def)
qed

end
