(* ===== verification/Index_Flush.thy ===== *)
theory Index_Flush
  imports Index_Merge
begin

text \<open>
  The end of a flush: \<open>unmerge_flushed\<close> removes from the live index what the flushed snapshot made
  durable. The theory characterises its single-pass diff, its walk over the packed buffers, and
  shows that reads over the unmerged index and the flushed blob return what they returned before,
  whatever writes and promotions raced the flush.
\<close>

abbreviation upd :: "index_wal_position \<Rightarrow> wal_position" where
  "upd \<equiv> into_update_position"

abbreviation ascending :: "data_positions \<Rightarrow> bool" where
  "ascending ps \<equiv> sorted_wrt (\<lambda>a b. iwp_offset a < iwp_offset b) ps"

lemma upd_offset: "upd p = upd q \<Longrightarrow> iwp_offset p = iwp_offset q"
  by (simp add: into_update_position_def)

section \<open>The diff of one key\<close>

definition unmatched :: "data_positions \<Rightarrow> data_positions \<Rightarrow> data_positions" where
  "unmatched done_ps live_ps = filter (\<lambda>p. upd p \<notin> upd ` set live_ps) done_ps"

lemma unmatched_above:
  "(\<And>p. p \<in> set xs \<Longrightarrow> iwp_offset sv < iwp_offset p) \<Longrightarrow> unmatched xs (sv # live_ps) = unmatched xs live_ps"
proof -
  assume a: "\<And>p. p \<in> set xs \<Longrightarrow> iwp_offset sv < iwp_offset p"
  have "upd p \<noteq> upd sv" if "p \<in> set xs" for p using a [OF that] upd_offset [of p sv] by auto
  then show ?thesis unfolding unmatched_def by (intro filter_cong) auto
qed

lemma unmatched_below:
  "(\<And>p q. p \<in> set xs \<Longrightarrow> q \<in> set live_ps \<Longrightarrow> iwp_offset p < iwp_offset q) \<Longrightarrow> unmatched xs live_ps = xs"
  unfolding unmatched_def by (rule filter_True) (force dest: upd_offset)

lemma unmatched_append [simp]: "unmatched (xs @ ys) zs = unmatched xs zs @ unmatched ys zs"
  by (simp add: unmatched_def)

definition pick_unmatched :: "index_wal_position option \<Rightarrow> data_positions \<Rightarrow> index_wal_position option" where
  "pick_unmatched lu us = (if us = [] then lu else Some (last us))"

lemma pick_unmatched_append: "pick_unmatched (pick_unmatched lu xs) ys = pick_unmatched lu (xs @ ys)"
  by (simp add: pick_unmatched_def)

lemma diff_live_spec:
  assumes "ascending rest" "ascending live_ps"
  shows "case diff_live rest lu live_ps of (kept, r, u) \<Rightarrow>
      kept = unmatched live_ps rest
    \<and> (\<exists>pre. rest = pre @ r \<and> u = pick_unmatched lu (unmatched pre live_ps) \<and> unmatched r live_ps = r)"
  using assms
proof (induction live_ps arbitrary: rest lu)
  case Nil
  then show ?case by (simp add: unmatched_def pick_unmatched_def)
next
  case (Cons sv live_ps)
  let ?P = "\<lambda>p. iwp_offset p < iwp_offset sv"
  let ?sk = "takeWhile ?P rest" and ?r1 = "dropWhile ?P rest"
  have split: "rest = ?sk @ ?r1" by simp
  have asc: "ascending (?sk @ ?r1)" using Cons.prems(1) by simp
  have sv: "iwp_offset sv < iwp_offset q" if "q \<in> set live_ps" for q using Cons.prems(2) that by simp
  have sk: "iwp_offset p < iwp_offset sv" if "p \<in> set ?sk" for p using that by (auto dest: set_takeWhileD)
  have skl: "unmatched ?sk (sv # live_ps) = ?sk"
    using sk sv by (intro unmatched_below) (auto dest: order.strict_trans)
  let ?lu1 = "if ?sk = [] then lu else Some (last ?sk)"
  have lu1: "?lu1 = pick_unmatched lu ?sk" by (simp add: pick_unmatched_def)
  have asc1: "ascending ?r1" and asc2: "ascending live_ps"
    using asc Cons.prems(2) by (simp_all add: sorted_wrt_append)
  have drop: "upd q \<in> upd ` set rest \<longleftrightarrow> upd q \<in> upd ` set ?r1" if "iwp_offset sv \<le> iwp_offset q" for q
  proof -
    have "upd q \<notin> upd ` set ?sk" using sk that by (force dest: upd_offset)
    moreover have "upd ` set rest = upd ` set ?sk \<union> upd ` set ?r1" by (metis image_Un set_append takeWhile_dropWhile_id)
    ultimately show ?thesis by blast
  qed
  have live_drop: "unmatched live_ps rest = unmatched live_ps ?r1"
    unfolding unmatched_def using drop sv by (intro filter_cong) (auto simp: less_imp_le)
  show ?case
  proof (cases ?r1)
    case Nil
    obtain kept r u where rec: "diff_live [] ?lu1 live_ps = (kept, r, u)" by (cases "diff_live [] ?lu1 live_ps") auto
    have IH: "kept = unmatched live_ps []" "r = []" "u = ?lu1"
      using Cons.IH [of "[]" ?lu1] asc2 rec by (auto simp: unmatched_def pick_unmatched_def)
    have all: "?sk = rest" using split Nil by simp
    have d: "diff_live rest lu (sv # live_ps) = (sv # live_ps, [], ?lu1)"
      using Nil rec IH by (simp add: Let_def unmatched_def del: dropWhile_eq_Nil_conv)
    have k: "sv # live_ps = unmatched (sv # live_ps) rest"
      using live_drop drop [of sv] Nil by (simp add: unmatched_def del: dropWhile_eq_Nil_conv)
    have "?lu1 = pick_unmatched lu (unmatched rest (sv # live_ps))" using lu1 skl unfolding all by simp
    then show ?thesis
      unfolding d prod.case by (intro conjI exI [of _ rest]) (rule k | assumption | simp add: unmatched_def)+
  next
    case (Cons p r2)
    have p: "iwp_offset sv \<le> iwp_offset p" using hd_dropWhile [of ?P rest] Cons by (simp add: not_less)
    have r2: "iwp_offset p < iwp_offset q" if "q \<in> set r2" for q using asc1 that unfolding Cons by simp
    have asc3: "ascending r2" using asc1 unfolding Cons by simp
    show ?thesis
    proof (cases "upd p = upd sv")
      case True
      obtain kept r u where rec: "diff_live r2 ?lu1 live_ps = (kept, r, u)" by (cases "diff_live r2 ?lu1 live_ps") auto
      obtain pre where IH: "kept = unmatched live_ps r2" "r2 = pre @ r"
          "u = pick_unmatched ?lu1 (unmatched pre live_ps)" "unmatched r live_ps = r"
        using Cons.IH [OF asc3 asc2, of ?lu1] rec by auto
      have d: "diff_live rest lu (sv # live_ps) = (kept, r, u)" using Cons True rec by (simp add: Let_def)
      have off: "iwp_offset p = iwp_offset sv" using upd_offset [OF True] .
      have "unmatched live_ps ?r1 = unmatched live_ps r2"
      proof -
        have "upd q \<noteq> upd p" if "q \<in> set live_ps" for q using sv [OF that] off upd_offset [of q p] by auto
        then show ?thesis unfolding unmatched_def Cons by (intro filter_cong) auto
      qed
      moreover have "upd sv \<in> upd ` set rest" using drop [of sv] True Cons by simp
      ultimately have kept: "kept = unmatched (sv # live_ps) rest" using IH(1) live_drop by (simp add: unmatched_def)
      have pr: "unmatched pre (sv # live_ps) = unmatched pre live_ps" "unmatched r (sv # live_ps) = unmatched r live_ps"
        using r2 IH(2) off by (auto intro!: unmatched_above)
      have "unmatched (?sk @ p # pre) (sv # live_ps) = ?sk @ unmatched pre live_ps"
        using skl pr(1) True by (simp add: unmatched_def)
      then have u: "u = pick_unmatched lu (unmatched (?sk @ p # pre) (sv # live_ps))"
        using IH(3) lu1 by (simp only: pick_unmatched_append)
      have r: "rest = (?sk @ p # pre) @ r" using split Cons IH(2) by simp
      have "unmatched r (sv # live_ps) = r" using pr(2) IH(4) by simp
      with kept u r show ?thesis unfolding d prod.case by blast
    next
      case False
      obtain kept r u where rec: "diff_live ?r1 ?lu1 live_ps = (kept, r, u)" by (cases "diff_live ?r1 ?lu1 live_ps") auto
      obtain pre where IH: "kept = unmatched live_ps ?r1" "?r1 = pre @ r"
          "u = pick_unmatched ?lu1 (unmatched pre live_ps)" "unmatched r live_ps = r"
        using Cons.IH [OF asc1 asc2, of ?lu1] rec by auto
      have d: "diff_live rest lu (sv # live_ps) = (sv # kept, r, u)" using Cons False rec by (simp add: Let_def)
      have no: "upd q \<noteq> upd sv" if "q \<in> set ?r1" for q
      proof -
        have "q = p \<or> q \<in> set r2" using that unfolding Cons by simp
        then show ?thesis
        proof
          assume "q \<in> set r2"
          then show ?thesis using r2 [of q] p upd_offset [of q sv] by auto
        qed (use False in simp)
      qed
      have "upd sv \<notin> upd ` set ?r1" using no by fastforce
      then have "upd sv \<notin> upd ` set rest" using drop [of sv] by blast
      then have kept: "sv # kept = unmatched (sv # live_ps) rest" using IH(1) live_drop by (simp add: unmatched_def)
      have "unmatched xs (sv # live_ps) = unmatched xs live_ps" if "set xs \<subseteq> set ?r1" for xs
        unfolding unmatched_def using no that by (intro filter_cong) auto
      moreover have "set pre \<subseteq> set ?r1" "set r \<subseteq> set ?r1" unfolding IH(2) by simp_all
      ultimately have pr: "unmatched pre (sv # live_ps) = unmatched pre live_ps"
          "unmatched r (sv # live_ps) = unmatched r live_ps" by blast+
      have u: "u = pick_unmatched lu (unmatched (?sk @ pre) (sv # live_ps))"
        using IH(3) lu1 skl pr(1) by (simp only: pick_unmatched_append unmatched_append)
      have r: "rest = (?sk @ pre) @ r" using split IH(2) by simp
      have "unmatched r (sv # live_ps) = r" using pr(2) IH(4) by simp
      with kept u r show ?thesis unfolding d prod.case by blast
    qed
  qed
qed

section \<open>The overlay after the walk\<close>

text \<open>What becomes of one key: its live positions, and the position to look for in the buffer.\<close>

definition kept_positions :: "data_positions \<Rightarrow> data_positions option \<Rightarrow> data_positions option" where
  "kept_positions done_ps live_ps =
     (case live_ps of None \<Rightarrow> None
      | Some ps \<Rightarrow> if unmatched ps done_ps = [] then None else Some (unmatched ps done_ps))"

definition sought_position :: "data_positions \<Rightarrow> data_positions option \<Rightarrow> index_wal_position option" where
  "sought_position done_ps live_ps =
     last_of (unmatched done_ps (case live_ps of None \<Rightarrow> [] | Some ps \<Rightarrow> ps))"

lemma unmerge_key_eq:
  assumes "overlay_ok d" "positions_ok ops"
  shows "overlay_ok (fst (unmerge_key lp (k, ops) (d, pend)))
    \<and> (\<forall>k'. map_of (fst (unmerge_key lp (k, ops) (d, pend))) k' =
      (if k' = k then kept_positions (processed lp ops) (map_of d k) else map_of d k'))
    \<and> (\<forall>k'. map_of (snd (unmerge_key lp (k, ops) (d, pend))) k' =
      (case if k' = k then sought_position (processed lp ops) (map_of d k) else None of
         None \<Rightarrow> map_of pend k' | Some v \<Rightarrow> Some v))"
proof -
  let ?dn = "processed lp ops"
  have pp: "processed_prefix ops lp = ?dn" using processed_prefix_eq assms(2) by (simp add: positions_ok_def)
  have asc: "ascending ?dn" using assms(2) by (simp add: processed_def positions_ok_def sorted_wrt_filter)
  show ?thesis
  proof (cases "?dn = []")
    case True
    have "ps \<noteq> []" if "map_of d k = Some ps" for ps
      using overlay_okD(3) [OF assms(1) that] by (simp add: positions_ok_def)
    then have "kept_positions [] (map_of d k) = map_of d k" "sought_position [] x = None" for x
      by (auto simp: kept_positions_def sought_position_def unmatched_def split: option.splits)
    moreover have "unmerge_key lp (k, ops) (d, pend) = (d, pend)"
      using True by (simp add: unmerge_key_def pp)
    ultimately show ?thesis using assms(1) unfolding True by simp
  next
    case ne: False
    show ?thesis
    proof (cases "map_of d k")
      case None
      have "unmatched ?dn [] = ?dn" by (simp add: unmatched_def)
      then show ?thesis using assms(1) ne None
        by (simp add: unmerge_key_def pp kept_positions_def sought_position_def last_of_def)
    next
      case (Some ps)
      have ok: "positions_ok ps" using overlay_okD(3) [OF assms(1) Some] .
      obtain kept r u where d: "diff_live ?dn None ps = (kept, r, u)" by (cases "diff_live ?dn None ps") auto
      obtain pre where s: "kept = unmatched ps ?dn" "?dn = pre @ r"
          "u = pick_unmatched None (unmatched pre ps)" "unmatched r ps = r"
        using diff_live_spec [OF asc, of ps None] ok d by (auto simp: positions_ok_def)
      have "unmatched ?dn ps = unmatched pre ps @ r" using s(2,4) by simp
      then have lu: "(if r \<noteq> [] then Some (last ?dn) else u) = last_of (unmatched ?dn ps)"
        using s(2,3) by (simp add: last_of_def pick_unmatched_def)
      have kok: "kept \<noteq> [] \<Longrightarrow> positions_ok kept"
        using ok s(1) by (simp add: positions_ok_def unmatched_def sorted_wrt_filter)
      have ov: "overlay_ok (if kept = [] then sm_remove k d else sm_insert k kept d)"
        using assms(1) kok overlay_ok_insert [OF assms(1)] sm_wf_remove [of d k]
        by (auto simp: overlay_ok_def sm_remove_def list_all_iff)
      have e: "unmerge_key lp (k, ops) (d, pend) =
          (if kept = [] then sm_remove k d else sm_insert k kept d,
           case last_of (unmatched ?dn ps) of None \<Rightarrow> pend | Some v \<Rightarrow> (k, v) # pend)"
        unfolding unmerge_key_def prod.case Let_def pp Some option.case d lu using ne by simp
      show ?thesis
        unfolding e Some kept_positions_def sought_position_def option.case s(1) [symmetric] using ov
        by (simp add: map_of_sm_remove map_of_sm_insert split: option.splits)
    qed
  qed
qed

lemma unmerge_walk:
  assumes "overlay_ok xs" "overlay_ok d"
  shows "overlay_ok (fst (fold (unmerge_key lp) xs (d, pend)))
    \<and> (\<forall>k. map_of (fst (fold (unmerge_key lp) xs (d, pend))) k =
      (case map_of xs k of None \<Rightarrow> map_of d k | Some ops \<Rightarrow> kept_positions (processed lp ops) (map_of d k)))
    \<and> (\<forall>k. map_of (snd (fold (unmerge_key lp) xs (d, pend))) k =
      (case (case map_of xs k of None \<Rightarrow> None | Some ops \<Rightarrow> sought_position (processed lp ops) (map_of d k)) of
         None \<Rightarrow> map_of pend k | Some v \<Rightarrow> Some v))"
  using assms
proof (induction xs arbitrary: d pend)
  case (Cons e xs)
  obtain k0 ops where e: "e = (k0, ops)" by (cases e)
  obtain d1 p1 where n: "unmerge_key lp (k0, ops) (d, pend) = (d1, p1)" by (cases "unmerge_key lp (k0, ops) (d, pend)")
  have pre: "overlay_ok xs" "positions_ok ops" "map_of xs k0 = None"
    using Cons.prems(1) e by (auto simp: overlay_ok_def intro: map_of_lt_None)
  have u: "overlay_ok d1"
      "\<And>k. map_of d1 k = (if k = k0 then kept_positions (processed lp ops) (map_of d k0) else map_of d k)"
      "\<And>k. map_of p1 k = (case if k = k0 then sought_position (processed lp ops) (map_of d k0) else None of
         None \<Rightarrow> map_of pend k | Some v \<Rightarrow> Some v)"
    using unmerge_key_eq [OF Cons.prems(2) pre(2), of lp k0 pend, unfolded n fst_conv snd_conv] by blast+
  note IH = Cons.IH [OF pre(1) u(1), of p1]
  have f: "fold (unmerge_key lp) (e # xs) (d, pend) = fold (unmerge_key lp) xs (d1, p1)" by (simp add: e n)
  show ?case unfolding f
  proof (intro conjI allI)
    show "overlay_ok (fst (fold (unmerge_key lp) xs (d1, p1)))" using IH by blast
  next
    fix k
    have "map_of (fst (fold (unmerge_key lp) xs (d1, p1))) k =
      (case map_of xs k of None \<Rightarrow> map_of d1 k | Some ops \<Rightarrow> kept_positions (processed lp ops) (map_of d1 k))"
      using IH by blast
    then show "map_of (fst (fold (unmerge_key lp) xs (d1, p1))) k =
      (case map_of (e # xs) k of None \<Rightarrow> map_of d k | Some ops \<Rightarrow> kept_positions (processed lp ops) (map_of d k))"
      using pre(3) u(2) [of k] by (cases "k = k0") (simp_all add: e split: option.split)
  next
    fix k
    have "map_of (snd (fold (unmerge_key lp) xs (d1, p1))) k =
      (case (case map_of xs k of None \<Rightarrow> None | Some ops \<Rightarrow> sought_position (processed lp ops) (map_of d1 k)) of
         None \<Rightarrow> map_of p1 k | Some v \<Rightarrow> Some v)"
      using IH by blast
    then show "map_of (snd (fold (unmerge_key lp) xs (d1, p1))) k =
      (case (case map_of (e # xs) k of None \<Rightarrow> None | Some ops \<Rightarrow> sought_position (processed lp ops) (map_of d k)) of
         None \<Rightarrow> map_of pend k | Some v \<Rightarrow> Some v)"
      using pre(3) u(2) [of k] u(3) [of k] by (cases "k = k0") (simp_all add: e split: option.split)
  qed
qed simp

section \<open>The buffer after the walk\<close>

definition same_update :: "index_wal_position option \<Rightarrow> index_wal_position \<Rightarrow> bool" where
  "same_update x s = (case x of None \<Rightarrow> False | Some p \<Rightarrow> upd s = upd p)"

lemma dropWhile_keys:
  assumes "sm_wf os" "sk \<le> k"
  shows "map_of (dropWhile (\<lambda>e. fst e < sk) os) k = map_of os k" "sm_wf (dropWhile (\<lambda>e. fst e < sk) os)"
  using assms
proof (induction os)
  case (Cons e os)
  { case 1 then show ?case using Cons.IH by (cases e) auto }
  { case 2 then show ?case using Cons.IH by (cases e) auto }
qed simp_all

definition past :: "bytes \<Rightarrow> entry list \<Rightarrow> entry list" where
  "past sk os = (let o1 = dropWhile (\<lambda>e. fst e < sk) os
     in case o1 of [] \<Rightarrow> [] | e # r \<Rightarrow> if fst e = sk then r else o1)"

lemma past_spec:
  assumes "sm_wf os"
  shows "sm_wf (past sk os)" "sk < k \<Longrightarrow> map_of (past sk os) k = map_of os k"
proof -
  let ?o1 = "dropWhile (\<lambda>e. fst e < sk) os"
  have wf1: "sm_wf ?o1" using dropWhile_keys(2) [OF assms order_refl] .
  then show "sm_wf (past sk os)" by (cases ?o1) (auto simp: past_def simp del: dropWhile_eq_Nil_conv)
  show "map_of (past sk os) k = map_of os k" if "sk < k"
    using dropWhile_keys(1) [OF assms, of sk k] that less_imp_neq [OF that] by (cases "sk \<le> k"; cases ?o1) (auto simp: past_def simp del: dropWhile_eq_Nil_conv)
qed

lemma dropWhile_at:
  assumes "sm_wf os"
  shows "map_of os sk = (case dropWhile (\<lambda>e. fst e < sk) os of [] \<Rightarrow> None | e # r \<Rightarrow> if fst e = sk then Some (snd e) else None)"
proof -
  let ?o1 = "dropWhile (\<lambda>e. fst e < sk) os"
  have m: "map_of ?o1 sk = map_of os sk" "sm_wf ?o1" using dropWhile_keys [OF assms order_refl] by blast+
  show ?thesis
  proof (cases ?o1)
    case (Cons e r)
    have "\<not> fst e < sk" using hd_dropWhile [of "\<lambda>e. fst e < sk" os] Cons by simp
    then have "map_of r sk = None" if "fst e \<noteq> sk"
      using m(2) Cons that by (cases e) (auto intro!: map_of_lt_None)
    then show ?thesis using m(1) Cons by (cases e) auto
  qed (use m in \<open>simp del: dropWhile_eq_Nil_conv\<close>)
qed

lemma unmerge_flat_step:
  assumes "sm_wf os"
  shows "unmerge_flat ((sk, s) # ss) os pend =
      (if same_update (map_of os sk) s \<or> same_update (map_of pend sk) s then unmerge_flat ss (past sk os) pend
       else (sk, s) # unmerge_flat ss (past sk os) pend)"
  using dropWhile_at [OF assms, of sk]
  by (cases "dropWhile (\<lambda>e. fst e < sk) os"; cases "map_of pend sk")
    (auto simp: Let_def same_update_def past_def simp del: dropWhile_eq_Nil_conv)

lemma keep_entries_cong:
  assumes "\<And>e. e \<in> set es \<Longrightarrow> f (fst e) (snd e) = g (fst e) (snd e)"
  shows "keep_entries f es = keep_entries g es"
  using assms by (induction es) (auto split: option.splits)

lemma unmerge_flat_eq:
  assumes "sm_wf ss" "sm_wf os"
  shows "unmerge_flat ss os pend =
    keep_entries (\<lambda>k s. if same_update (map_of os k) s \<or> same_update (map_of pend k) s then None else Some s) ss"
  using assms
proof (induction ss arbitrary: os)
  case (Cons e ss)
  obtain sk s where e: "e = (sk, s)" by (cases e)
  have wfs: "sm_wf ss" "\<And>x. x \<in> set ss \<Longrightarrow> sk < fst x" using Cons.prems(1) e by auto
  have "keep_entries (\<lambda>k s. if same_update (map_of (past sk os) k) s \<or> same_update (map_of pend k) s then None else Some s) ss
      = keep_entries (\<lambda>k s. if same_update (map_of os k) s \<or> same_update (map_of pend k) s then None else Some s) ss"
    using past_spec(2) [OF Cons.prems(2)] wfs(2) by (intro keep_entries_cong) simp
  then show ?case
    using Cons.IH [OF wfs(1) past_spec(1) [OF Cons.prems(2)], of sk] unmerge_flat_step [OF Cons.prems(2), of sk s ss pend]
    by (simp add: e)
qed simp

section \<open>The whole unmerge\<close>

definition posn :: "index_table \<Rightarrow> bytes \<Rightarrow> data_positions" where
  "posn t k = (case map_of (data t) k of None \<Rightarrow> [] | Some ps \<Rightarrow> ps)"

abbreviation flat_of :: "index_table \<Rightarrow> bytes \<Rightarrow> index_wal_position option" where
  "flat_of t k \<equiv> map_of (flat_entries t) k"

definition flat_kept :: "index_wal_position option \<Rightarrow> index_wal_position option \<Rightarrow> index_wal_position option \<Rightarrow> index_wal_position option" where
  "flat_kept fs sought f =
     (case f of None \<Rightarrow> None | Some w \<Rightarrow> if same_update fs w \<or> same_update sought w then None else Some w)"

lemma posn_ascending: "index_inv t \<Longrightarrow> ascending (posn t k)"
  using overlay_okD(3) [of "data t" k] by (auto simp: posn_def index_inv_def positions_ok_def split: option.splits)

lemma unmatched_Nil [simp]: "unmatched xs [] = xs" "unmatched [] xs = []"
  by (simp_all add: unmatched_def)

lemma unmerge_flushed_spec:
  assumes "index_inv t" "index_inv s"
  shows "\<exists>t'. unmerge_flushed t s lp = Inr t' \<and> index_inv t'
    \<and> (\<forall>k. posn t' k = unmatched (posn t k) (processed lp (posn s k)))
    \<and> (\<forall>k. flat_of t' k = flat_kept (flat_of s k) (last_of (unmatched (processed lp (posn s k)) (posn t k))) (flat_of t k))"
proof -
  have ov: "overlay_ok (data s)" "overlay_ok (data t)" and fw: "flat_wf s" "flat_wf t"
    using assms by (simp_all add: index_inv_def)
  then have wf: "sm_wf (flat_entries s)" "sm_wf (flat_entries t)" by (simp_all add: flat_wf_def)
  obtain d pend where w: "fold (unmerge_key lp) (data s) (data t, []) = (d, pend)"
    by (cases "fold (unmerge_key lp) (data s) (data t, [])")
  note walk = unmerge_walk [OF ov, of lp "[]", unfolded w fst_conv snd_conv]
  have ovd: "overlay_ok d" using walk by blast
  have d: "map_of d k = (case map_of (data s) k of None \<Rightarrow> map_of (data t) k
      | Some ops \<Rightarrow> kept_positions (processed lp ops) (map_of (data t) k))" for k using walk by blast
  have pd: "map_of pend k = last_of (unmatched (processed lp (posn s k)) (posn t k))" for k
    using walk by (auto simp: posn_def sought_position_def processed_def last_of_def split: option.splits)
  let ?keep = "\<lambda>k w. if same_update (flat_of s k) w \<or> same_update (map_of pend k) w then None else Some w"
  let ?es = "keep_entries ?keep (flat_entries t)"
  let ?t1 = "t\<lparr>data := d\<rparr>"
  have "\<exists>t2. (if flat s \<noteq> [] \<or> pend \<noteq> [] then
        bindr (flat_items (flat s) (key_size s)) (\<lambda>os.
        bindr (flat_items (flat ?t1) (key_size ?t1)) (\<lambda>ss.
        bindr (build_flat_bytes (unmerge_flat ss os pend) (key_size ?t1)) (\<lambda>b. Inr (?t1\<lparr>flat := b\<rparr>))))
      else Inr ?t1) = Inr t2 \<and> flat_wf t2 \<and> flat_entries t2 = ?es \<and> data t2 = d"
  proof (cases "flat s \<noteq> [] \<or> pend \<noteq> []")
    case True
    have "flat_ok (key_size ?t1) ?es" "sm_wf ?es"
      using fw(2) flat_wf_len_ok [OF fw(2)] by (auto simp: flat_wf_def intro!: flat_ok_keep sm_wf_keep split: if_splits)
    from rebuild_flat [OF this] show ?thesis
      using True flat_items_eq [OF fw(1)] flat_items_eq [OF fw(2)] unmerge_flat_eq [OF wf(2,1), of pend] by auto
  next
    case False
    then have "flat_entries s = []" "pend = []" using fw(1) by (simp_all add: flat_wf_def flat_view_def)
    then have "?es = keep_entries (\<lambda>_. Some) (flat_entries t)" by (simp add: same_update_def)
    also have "\<dots> = flat_entries t" by (induction "flat_entries t") (auto simp: keep_entries_def map_filter_def)
    finally show ?thesis using False fw(2) by simp
  qed
  then obtain t2 where t2: "unmerge_flushed t s lp = with_stats t2" "flat_wf t2" "flat_entries t2 = ?es" "data t2 = d"
    unfolding unmerge_flushed_def w by auto
  obtain t' where t': "with_stats t2 = Inr t'" "index_inv t'" "data t' = data t2" "flat_entries t' = flat_entries t2"
    using with_stats_inv [of t2] t2(2,4) ovd by auto
  have "posn t' k = unmatched (posn t k) (processed lp (posn s k))" for k
    using d [of k] t'(3) t2(4) by (auto simp: posn_def kept_positions_def processed_def split: option.splits)
  moreover have "flat_of t' k = flat_kept (flat_of s k) (last_of (unmatched (processed lp (posn s k)) (posn t k))) (flat_of t k)" for k
    unfolding t'(4) t2(3) map_of_keep [OF wf(2)] pd flat_kept_def ..
  ultimately show ?thesis using t2(1) t'(1,2) by auto
qed

section \<open>Writes and promotions racing a flush\<close>

text \<open>
  What may happen to the live table between the snapshot and the completion of its flush: writes,
  whose positions are not yet processed at the snapshot's frontier and are not those of an entry
  the snapshot holds, and promotions at any frontier.
\<close>

inductive evolves :: "last_processed \<Rightarrow> index_table \<Rightarrow> index_table \<Rightarrow> bool" for lp s where
  evolves_start: "evolves lp s s"
| evolves_write: "evolves lp s t \<Longrightarrow> checked_insert k v t = Inr (t', ord) \<Longrightarrow> \<not> is_processed lp (iwp_offset v)
    \<Longrightarrow> \<not> same_update (flat_of s k) v \<Longrightarrow> evolves lp s t'"
| evolves_promote: "evolves lp s t \<Longrightarrow> flat_ok (key_size t) (merged_entries (flat_entries t) (data t) lp2)
    \<Longrightarrow> promote_to_flat_unconditionally lp2 t = Inr t' \<Longrightarrow> evolves lp s t'"

text \<open>One key during the race, from the snapshot's overlay positions \<open>os\<close> and buffer entry \<open>fs\<close>: either
  the snapshot's positions are all still in the overlay, or they were promoted.\<close>

definition raced :: "last_processed \<Rightarrow> data_positions \<Rightarrow> index_wal_position option \<Rightarrow> data_positions \<Rightarrow> index_wal_position option \<Rightarrow> bool" where
  "raced lp os fs vs f \<longleftrightarrow>
     (\<forall>v \<in> set vs. \<not> same_update fs v) \<and>
     (f = fs \<and> processed lp vs = processed lp os \<and> set os \<subseteq> set vs
      \<or> processed lp vs = [] \<and> (\<exists>w. f = Some w \<and> \<not> same_update fs w
          \<and> (is_processed lp (iwp_offset w) \<longrightarrow> processed lp os = os \<and> last_of os = Some w)))"

lemma last_of_max:
  assumes "ascending vs" "v \<in> set vs"
  shows "iwp_offset v \<le> iwp_offset (last vs)"
  using assms last_is_max [of vs v] by (cases "vs = []") (simp_all add: positions_ok_def)

lemma raced_promote:
  assumes "raced lp os fs vs f" "ascending os" "ascending vs" "vs \<noteq> []"
  shows "raced lp os fs [] (Some (last vs))"
proof -
  have "processed lp os = os \<and> last_of os = Some (last vs)" if lp: "is_processed lp (iwp_offset (last vs))"
  proof -
    have "is_processed lp (iwp_offset v)" if "v \<in> set vs" for v
      using last_of_max [OF assms(3) that] lp by (auto simp: is_processed_def)
    then have vs: "processed lp vs = vs" by (simp add: processed_def)
    then have "vs = processed lp os" "set os \<subseteq> set vs" using assms(1,4) by (auto simp: raced_def)
    moreover from this have "processed lp os = os" by (simp add: processed_def filter_id_conv subset_iff)
    ultimately show ?thesis using assms(4) by (simp add: last_of_def)
  qed
  moreover have "\<not> same_update fs (last vs)" using assms(1,4) by (simp add: raced_def)
  ultimately show ?thesis by (simp add: raced_def processed_def)
qed

lemma raced_write:
  assumes "raced lp os fs vs f" "\<not> is_processed lp (iwp_offset v)" "\<not> same_update fs v"
  shows "raced lp os fs (ins_pos v vs) f"
proof -
  let ?P = "\<lambda>p. iwp_offset p < iwp_offset v"
  have vs: "vs = takeWhile ?P vs @ dropWhile ?P vs" by simp
  have "processed lp (ins_pos v vs) = processed lp (takeWhile ?P vs @ dropWhile ?P vs)"
    using assms(2) by (simp only: ins_pos_append processed_def filter_append filter.simps if_False)
  then have "processed lp (ins_pos v vs) = processed lp vs" using vs by simp
  moreover have "set (ins_pos v vs) = insert v (set vs)"
    unfolding ins_pos_append set_append list.set using arg_cong [OF vs, of set, unfolded set_append] by blast
  ultimately show ?thesis using assms(1,3) unfolding raced_def by auto
qed

lemma evolves_raced:
  assumes "evolves lp s t" "index_inv s" "\<And>k v. v \<in> set (posn s k) \<Longrightarrow> \<not> same_update (flat_of s k) v"
  shows "index_inv t \<and> (\<forall>k. raced lp (posn s k) (flat_of s k) (posn t k) (flat_of t k))"
  using assms(1)
proof induction
  case evolves_start
  show ?case using assms(2,3) by (auto simp: raced_def)
next
  case (evolves_write t k v t' ord)
  have inv: "index_inv t" and rc: "raced lp (posn s k') (flat_of s k') (posn t k') (flat_of t k')" for k'
    using evolves_write.IH by blast+
  have "iwp_offset v \<notin> iwp_offset ` set ps" if "map_of (data t) k = Some ps" for ps
    using checked_insert_duplicate [OF inv that, of v] evolves_write.hyps(2) by fastforce
  from checked_insert_spec [where k = k, OF inv this] evolves_write.hyps(2)
  have t': "index_inv t'" "flat t' = flat t" "key_size t' = key_size t"
      "data t' = sm_insert k (case map_of (data t) k of None \<Rightarrow> [v] | Some ps \<Rightarrow> ins_pos v ps) (data t)" by auto
  have "posn t' k' = (if k' = k then ins_pos v (posn t k) else posn t k')" for k'
    by (simp add: posn_def t'(4) map_of_sm_insert ins_pos_append split: option.split)
  then have "raced lp (posn s k') (flat_of s k') (posn t' k') (flat_of t k')" for k'
    using rc [of k'] raced_write [OF rc [of k] evolves_write.hyps(3,4)] by (cases "k' = k") simp_all
  then show ?case using t'(1) flat_entries_cong [OF t'(2,3)] by simp
next
  case (evolves_promote t lp2 t')
  have inv: "index_inv t" and rc: "raced lp (posn s k') (flat_of s k') (posn t k') (flat_of t k')" for k'
    using evolves_promote.IH by blast+
  from promote_spec [OF inv evolves_promote.hyps(2)] evolves_promote.hyps(3)
  have t': "index_inv t'"
      "\<And>k. map_of (data t') k = (case map_of (data t) k of
          Some ps \<Rightarrow> if is_processed lp2 (iwp_offset (last ps)) then None else Some ps | None \<Rightarrow> None)"
      "\<And>k. flat_of t' k = (case map_of (data t) k of
          Some ps \<Rightarrow> if is_processed lp2 (iwp_offset (last ps)) then Some (last ps) else flat_of t k
        | None \<Rightarrow> flat_of t k)" by auto
  have "raced lp (posn s k) (flat_of s k) (posn t' k) (flat_of t' k)" for k
  proof (cases "map_of (data t) k")
    case None
    then show ?thesis using rc [of k] t'(2,3) [of k] by (simp add: posn_def)
  next
    case (Some ps)
    have "posn t k = ps" "ps \<noteq> []"
      using Some overlay_okD(3) [OF _ Some] inv by (simp_all add: posn_def index_inv_def positions_ok_def)
    then show ?thesis
      using rc [of k] raced_promote [OF rc [of k] posn_ascending [OF assms(2)] posn_ascending [OF inv]] t'(2,3) [of k] Some
      by (simp add: posn_def)
  qed
  then show ?case using t'(1) by blast
qed

section \<open>Reads across a flush\<close>

lemma raced_unmatched:
  assumes "ascending vs" "processed lp vs = processed lp os"
  shows "unmatched vs (processed lp os) = filter (\<lambda>v. \<not> is_processed lp (iwp_offset v)) vs"
    "unmatched (processed lp os) vs = []"
proof -
  have inj: "p = q" if "p \<in> set vs" "q \<in> set vs" "upd p = upd q" for p q
    using positions_inj [OF assms(1)] that upd_offset [of p q] by (auto dest: inj_onD)
  have "upd v \<in> upd ` set (processed lp vs) \<longleftrightarrow> is_processed lp (iwp_offset v)" if "v \<in> set vs" for v
  proof
    assume "upd v \<in> upd ` set (processed lp vs)"
    then obtain p where "upd v = upd p" "p \<in> set vs" "is_processed lp (iwp_offset p)" by (auto simp: processed_def)
    then show "is_processed lp (iwp_offset v)" using inj [OF that, of p] by simp
  qed (use that in \<open>simp add: processed_def\<close>)
  then show "unmatched vs (processed lp os) = filter (\<lambda>v. \<not> is_processed lp (iwp_offset v)) vs"
    unfolding unmatched_def assms(2) [symmetric] by (intro filter_cong) simp_all
  show "unmatched (processed lp os) vs = []"
    unfolding unmatched_def assms(2) [symmetric] by (auto simp: processed_def filter_empty_conv)
qed

lemma unmatched_disjoint:
  assumes "processed lp vs = []"
  shows "unmatched vs (processed lp os) = vs" "unmatched (processed lp os) vs = processed lp os"
proof -
  have ne: "upd p \<noteq> upd q" if "p \<in> set (processed lp os)" "q \<in> set vs" for p q
    using assms that upd_offset [of p q] by (auto simp: processed_def filter_empty_conv)
  then have "upd p \<notin> upd ` set vs" if "p \<in> set (processed lp os)" for p using that by blast
  moreover have "upd q \<notin> upd ` set (processed lp os)" if "q \<in> set vs" for q
    using ne that by (metis imageE)
  ultimately show "unmatched vs (processed lp os) = vs" "unmatched (processed lp os) vs = processed lp os"
    unfolding unmatched_def by (simp_all add: filter_id_conv)
qed

lemma last_of_split:
  assumes "ascending vs" "filter (\<lambda>v. P v \<and> \<not> is_processed lp (iwp_offset v)) vs \<noteq> []"
  shows "last_of (filter (\<lambda>v. P v \<and> \<not> is_processed lp (iwp_offset v)) vs) = last_of (filter P vs)"
  using assms
proof (induction vs rule: rev_induct)
  case (snoc v vs)
  show ?case
  proof (cases "P v \<and> is_processed lp (iwp_offset v)")
    case True
    have "is_processed lp (iwp_offset u)" if "u \<in> set vs" for u
      using snoc.prems(1) that True by (auto simp: sorted_wrt_append is_processed_def)
    then show ?thesis using snoc.prems(2) True by (auto simp: filter_empty_conv)
  next
    case False
    then show ?thesis using snoc by (cases "P v") (auto simp: sorted_wrt_append last_of_def)
  qed
qed simp

text \<open>A lookup through a table into what lies below it.\<close>

abbreviation orelse :: "'a option \<Rightarrow> 'a option \<Rightarrow> 'a option" where
  "orelse a b \<equiv> (case a of Some v \<Rightarrow> Some v | None \<Rightarrow> b)"

lemma raced_read:
  assumes "raced lp os fs vs f" "ascending vs" "lp \<le> lpF" "\<And>v. is_processed lpF (iwp_offset v) \<Longrightarrow> P v"
    and d: "\<And>v. into_wal_position (d v) = into_wal_position v"
  shows "map_option into_wal_position
       (orelse (last_of (filter P (unmatched vs (processed lp os))))
         (orelse (flat_kept fs (last_of (unmatched (processed lp os) vs)) f)
           (orelse (map_option d (last_of (processed lpF os))) (orelse (map_option d fs) base))))
     = map_option into_wal_position (orelse (last_of (filter P vs)) (orelse f base))"
proof -
  consider (here) "f = fs" "processed lp vs = processed lp os" "set os \<subseteq> set vs"
    | (gone) w where "processed lp vs = []" "f = Some w" "\<not> same_update fs w"
        "is_processed lp (iwp_offset w) \<Longrightarrow> processed lp os = os \<and> last_of os = Some w"
    using assms(1) by (auto simp: raced_def)
  then show ?thesis
  proof cases
    case here
    let ?new = "filter (\<lambda>v. P v \<and> \<not> is_processed lp (iwp_offset v)) vs"
    have u: "filter P (unmatched vs (processed lp os)) = ?new" "last_of (unmatched (processed lp os) vs) = None"
      using raced_unmatched [OF assms(2) here(2)] by (simp_all add: last_of_def conj_commute)
    show ?thesis
    proof (cases "?new = []")
      case False
      then show ?thesis using last_of_split [OF assms(2) False] unfolding u
        by (cases "last_of (filter P vs)") (auto simp: last_of_def split: if_splits)
    next
      case True
      have le: "is_processed lpF (iwp_offset v)" if "is_processed lp (iwp_offset v)" for v
        using that assms(3) by (simp add: is_processed_def)
      have "filter P vs = processed lp vs"
        unfolding processed_def using True le assms(4) by (intro filter_cong refl) (auto simp: filter_empty_conv)
      moreover have "processed lpF os = processed lp os"
        unfolding processed_def using True le assms(4) here(3) by (intro filter_cong refl) (auto simp: filter_empty_conv)
      moreover have "flat_kept fs None f = None" using here(1) by (cases fs) (simp_all add: flat_kept_def same_update_def)
      ultimately show ?thesis unfolding u True here(1,2)
        by (cases "last_of (processed lp os)"; cases fs) (simp_all add: last_of_def [of "[]"] d)
    qed
  next
    case gone
    have lo: "is_processed lp (iwp_offset w)" if su: "same_update (last_of (processed lp os)) w"
    proof -
      have "processed lp os \<noteq> []" "upd w = upd (last (processed lp os))"
        using su by (auto simp: same_update_def last_of_def split: if_splits)
      then have "last (processed lp os) \<in> set (processed lp os)" "iwp_offset w = iwp_offset (last (processed lp os))"
        using upd_offset [of w "last (processed lp os)"] last_in_set [of "processed lp os"] by simp_all
      then show ?thesis by (simp add: processed_def)
    qed
    show ?thesis
    proof (cases "is_processed lp (iwp_offset w)")
      case True
      have o: "processed lp os = os" "last_of os = Some w" using gone(4) [OF True] by blast+
      have pF: "processed lpF os = os"
        using o(1) assms(3) unfolding processed_def filter_id_conv by (auto simp: is_processed_def)
      note u = unmatched_disjoint [OF gone(1), of os, unfolded o(1)]
      have "flat_kept fs (Some w) (Some w) = None" by (simp add: flat_kept_def same_update_def)
      then show ?thesis
        unfolding o(1) pF u o(2) gone(2) by (cases "last_of (filter P vs)") (simp_all add: d)
    next
      case False
      then show ?thesis
        unfolding unmatched_disjoint [OF gone(1)] gone(2) flat_kept_def using gone(3) lo
        by (cases "last_of (filter P vs)") auto
    qed
  qed
qed

text \<open>A lookup in a table, then in the level below it.\<close>

definition get_over :: "(index_table \<Rightarrow> wal_position option res) \<Rightarrow> index_table \<Rightarrow> wal_position option res \<Rightarrow> wal_position option res" where
  "get_over g t below = (case g t of Inr None \<Rightarrow> below | r \<Rightarrow> r)"

lemma get_over_eq:
  assumes "index_inv t" "table_wf b"
  shows "get_over (\<lambda>t. index_get t k) t (index_get b k) = Inr (map_option into_wal_position (orelse (live t k) (live b k)))"
    and "get_over (\<lambda>t. index_get_at t k lp) t (index_get b k) = Inr (map_option into_wal_position (orelse (live_at t lp k) (live b k)))"
  by (cases "live t k", simp_all add: get_over_def index_get_eq [OF assms(1)] index_get_wf [OF assms(2)])
    (cases "live_at t lp k", simp_all add: get_over_def index_get_at_eq [OF assms(1)] index_get_wf [OF assms(2)])

lemma live_posn:
  assumes "index_inv t"
  shows "live t k = orelse (last_of (filter (\<lambda>_. True) (posn t k))) (flat_of t k)"
    and "live_at t lp k = orelse (last_of (filter (\<lambda>v. is_processed lp (iwp_offset v)) (posn t k))) (flat_of t k)"
proof -
  have "ps \<noteq> []" if "map_of (data t) k = Some ps" for ps
    using overlay_okD(3) [OF _ that] assms by (simp add: index_inv_def positions_ok_def)
  then show "live t k = orelse (last_of (filter (\<lambda>_. True) (posn t k))) (flat_of t k)"
    by (auto simp: live_def posn_def last_of_def split: option.splits)
  show "live_at t lp k = orelse (last_of (filter (\<lambda>v. is_processed lp (iwp_offset v)) (posn t k))) (flat_of t k)"
    by (cases "map_of (data t) k") (simp_all add: live_at_def overlay_at_def posn_def processed_def last_of_def)
qed

lemma orelse_assoc: "orelse (orelse a b) c = orelse a (orelse b c)"
  by (cases a) simp_all

lemma flushed_blob:
  assumes "table_wf base" "data base = []" "table_wf s"
    and "flat_ok (merged_key_size base s) (merge_over (flat_entries base) (dem_entries True (flat_entries s)))"
  shows "\<exists>m blob. merge_dirty_and_clean base s = Inr m \<and> retain_processed lp m = Inr blob \<and> index_inv blob
    \<and> (\<forall>k. live blob k = orelse (map_option (dem True) (live_at s lp k)) (live base k))"
proof -
  obtain m where m: "merge_dirty base s True = Inr m" "index_inv m"
      "data m = map (\<lambda>e. (fst e, map (dem True) (snd e))) (data s)"
      "flat_entries m = merge_over (flat_entries base) (dem_entries True (flat_entries s))"
    using merge_dirty_spec [OF assms] by blast
  have wf: "sm_wf (flat_entries base)" "sm_wf (flat_entries s)" "overlay_ok (data s)"
    using assms(1,3) by (simp_all add: table_wf_def flat_wf_def)
  obtain blob where b: "retain_processed lp m = Inr blob" "index_inv blob" "live blob = live_at m lp"
    using retain_processed_spec [OF m(2), of lp] by blast
  have "live blob k = orelse (map_option (dem True) (live_at s lp k)) (live base k)" for k
    unfolding b(3) merge_dirty_views(2) [OF assms(2) wf(1,2) m(3) wf(3) m(4)] by (cases "live_at s lp k") simp_all
  then show ?thesis using m(1) b(1,2) by (auto simp: merge_dirty_and_clean_def)
qed

text \<open>C3. A flush is invisible to readers. The snapshot \<open>s\<close> is merged over the cell's blob and cut at the
  frontier \<open>lpF\<close>; meanwhile writes and promotions turn the live table into \<open>t\<close>; on completion
  \<open>unmerge_flushed\<close> removes from \<open>t\<close> what the snapshot held below the frontier \<open>lp\<close> it was taken at.
  Then every lookup through the unmerged table into the new blob returns what the lookup through
  \<open>t\<close> into the old blob returned, and so does every lookup as of a frontier the flush did not pass.\<close>

theorem flush_preserves_reads:
  assumes "index_inv s" "table_wf base" "data base = []" "evolves lp s t" "lp \<le> lpF"
    and "flat_ok (merged_key_size base s) (merge_over (flat_entries base) (dem_entries True (flat_entries s)))"
    and "\<And>k v. v \<in> set (posn s k) \<Longrightarrow> \<not> same_update (flat_of s k) v"
  shows "\<exists>t' m blob. unmerge_flushed t s lp = Inr t' \<and> index_inv t'
    \<and> merge_dirty_and_clean base s = Inr m \<and> retain_processed lpF m = Inr blob
    \<and> (\<forall>k. get_over (\<lambda>t. index_get t k) t' (index_get blob k) = get_over (\<lambda>t. index_get t k) t (index_get base k))
    \<and> (\<forall>k lp'. lpF \<le> lp' \<longrightarrow> get_over (\<lambda>t. index_get_at t k lp') t' (index_get blob k)
          = get_over (\<lambda>t. index_get_at t k lp') t (index_get base k))"
proof -
  have inv: "index_inv t" and rc: "raced lp (posn s k) (flat_of s k) (posn t k) (flat_of t k)" for k
    using evolves_raced [OF assms(4,1,7)] by blast+
  obtain t' where t': "unmerge_flushed t s lp = Inr t'" "index_inv t'"
      "\<And>k. posn t' k = unmatched (posn t k) (processed lp (posn s k))"
      "\<And>k. flat_of t' k = flat_kept (flat_of s k) (last_of (unmatched (processed lp (posn s k)) (posn t k))) (flat_of t k)"
    using unmerge_flushed_spec [OF inv assms(1), of lp] by blast
  obtain m blob where b: "merge_dirty_and_clean base s = Inr m" "retain_processed lpF m = Inr blob" "index_inv blob"
      "\<And>k. live blob k = orelse (map_option (dem True) (live_at s lpF k)) (live base k)"
    using flushed_blob [OF assms(2,3) index_inv_wf [OF assms(1)] assms(6), of lpF] by blast
  have lb: "live blob k = orelse (map_option (dem True) (last_of (processed lpF (posn s k))))
      (orelse (map_option (dem True) (flat_of s k)) (live base k))" for k
    unfolding b(4) live_posn(2) [OF assms(1)] processed_def
    by (cases "last_of (filter (\<lambda>v. is_processed lpF (iwp_offset v)) (posn s k))") simp_all
  note rr = raced_read [OF rc posn_ascending [OF inv] assms(5), of _ "dem True"]
  have "map_option into_wal_position (orelse (live t' k) (live blob k))
      = map_option into_wal_position (orelse (live t k) (live base k))" for k
    unfolding live_posn(1) [OF inv] live_posn(1) [OF t'(2)] orelse_assoc t'(3,4) lb by (rule rr) simp_all
  moreover have "map_option into_wal_position (orelse (live_at t' lp' k) (live blob k))
      = map_option into_wal_position (orelse (live_at t lp' k) (live base k))" if "lpF \<le> lp'" for k lp'
    unfolding live_posn(2) [OF inv] live_posn(2) [OF t'(2)] orelse_assoc t'(3,4) lb
    using that by (intro rr) (simp_all add: is_processed_def)
  ultimately show ?thesis
    using t'(1,2) b(1,2) get_over_eq [OF t'(2) index_inv_wf [OF b(3)]] get_over_eq [OF inv assms(2)] by auto
qed

theorem flush_preserves_reads_witness:
  "\<exists>t t' m blob. promote_to_flat_unconditionally 20 demo_table = Inr t \<and> unmerge_flushed t demo_table 20 = Inr t'
    \<and> merge_dirty_and_clean index_table_default demo_table = Inr m \<and> retain_processed 20 m = Inr blob
    \<and> get_over (\<lambda>t. index_get t [3]) t' (index_get blob [3]) = Inr (Some (WalPosition 8 9))
    \<and> get_over (\<lambda>t. index_get_at t [7] 24) t' (index_get blob [7]) = Inr (Some (WalPosition 16 9))"
proof -
  obtain t where t: "promote_to_flat_unconditionally 20 demo_table = Inr t" "index_inv t"
      "\<And>k. map_of (data t) k = (case map_of (data demo_table) k of
          Some ps \<Rightarrow> if is_processed 20 (iwp_offset (last ps)) then None else Some ps | None \<Rightarrow> None)"
      "\<And>k. flat_of t k = (case map_of (data demo_table) k of
          Some ps \<Rightarrow> if is_processed 20 (iwp_offset (last ps)) then Some (last ps) else flat_of demo_table k
        | None \<Rightarrow> flat_of demo_table k)"
    using promote_spec [OF demo_table_inv demo_table_promotes] by blast
  have ev: "evolves 20 demo_table t" using evolves_promote [OF evolves_start demo_table_promotes t(1)] .
  have fe: "flat_entries demo_table = []" "flat_entries index_table_default = []" "data index_table_default = []"
    by (simp_all add: demo_table_def index_table_default_def flat_entries_def flat_items_def flat_iter_new_def flat_collect.simps)
  have ok: "flat_ok (merged_key_size index_table_default demo_table)
      (merge_over (flat_entries index_table_default) (dem_entries True (flat_entries demo_table)))"
    unfolding fe by (simp add: merged_key_size_def demo_table_def index_table_default_def dem_entries_def flat_ok_def)
  have no: "\<not> same_update (flat_of demo_table k) v" for k v by (simp add: fe same_update_def)
  have "live t [3] = Some (IWP 8 9 Modified)" "live_at t 24 [7] = Some (IWP 16 9 Modified)"
    using t(3,4) [of "[3]"] t(3) [of "[7]"]
    by (simp_all add: live_def live_at_def overlay_at_def demo_table_def is_processed_def processed_def last_of_def)
  then have g: "get_over (\<lambda>t. index_get t [3]) t (index_get index_table_default [3]) = Inr (Some (WalPosition 8 9))"
      "get_over (\<lambda>t. index_get_at t [7] 24) t (index_get index_table_default [7]) = Inr (Some (WalPosition 16 9))"
    by (simp_all add: get_over_eq [OF t(2) index_inv_wf [OF inv_default]] into_wal_position_def)
  have le: "(20 :: last_processed) \<le> 24" by simp
  obtain t' m blob where r: "unmerge_flushed t demo_table 20 = Inr t'"
      "merge_dirty_and_clean index_table_default demo_table = Inr m" "retain_processed 20 m = Inr blob"
      "\<And>k. get_over (\<lambda>t. index_get t k) t' (index_get blob k) = get_over (\<lambda>t. index_get t k) t (index_get index_table_default k)"
      "\<And>k lp'. 20 \<le> lp' \<Longrightarrow> get_over (\<lambda>t. index_get_at t k lp') t' (index_get blob k)
        = get_over (\<lambda>t. index_get_at t k lp') t (index_get index_table_default k)"
    using flush_preserves_reads [OF demo_table_inv index_inv_wf [OF inv_default] fe(3) ev order_refl ok no] by blast
  show ?thesis using t(1) r(1-3) r(4) [of "[3]"] r(5) [OF le, of "[7]"] g by metis
qed

end
