(* ===== verification/Key_Shape.thy ===== *)
theory Key_Shape
  imports Cell
begin

text \<open>
  \<open>tidehunter/src/key_shape.rs\<close>: key spaces, how a key maps to the cell that indexes it, and how a
  declared set of key spaces is reconciled with the one the database was created with. The lemmas
  are what the index relies on: a key's prefix falls in its cell's prefix range, cells are ordered
  as their keys, a cell holds exactly the keys of its key range, and key space ids never move.
\<close>

unbundle bit_operations_syntax

section \<open>Data\<close>

definition CELL_PREFIX_LENGTH :: usize where "CELL_PREFIX_LENGTH = 4"
definition MAX_U32_PLUS_ONE :: u64 where "MAX_U32_PLUS_ONE = 0xFFFFFFFF + 1"
definition HASH_SIZE :: usize where "HASH_SIZE = 16"
definition MAX_KEY_LEN :: usize where "MAX_KEY_LEN = 0xFFFF"

type_synonym key_space = u8

datatype key_indexing =
    Fixed usize
  | Reduction usize "usize \<times> usize"
  | VariableLength
  | Hash

record uniform_key_config =
  cells_per_mutex :: usize

record prefixed_uniform_key_config =
  prefix_len_bytes :: usize
  cluster_bits_count :: usize
  reset_mask :: u8

datatype key_type =
    Uniform uniform_key_config
  | PrefixedUniform prefixed_uniform_key_config

text \<open>The window sizes of \<open>UniformLookupIndex\<close>.\<close>

datatype index_format_type = Header | UniformFormat "usize list list"

datatype decision = Keep | Remove | StopRelocation

text \<open>\<open>rate\<close> is the bit pattern of an \<open>f32\<close>.\<close>

record bloom_filter_params =
  rate :: u32
  bloom_count :: u32

type_synonym compactor_fn = "bytes list \<Rightarrow> bytes list"
type_synonym relocation_filter_fn = "bytes \<Rightarrow> bytes \<Rightarrow> decision"

record key_space_config =
  compactor :: "compactor_fn option"
  disable_unload :: bool
  max_dirty_keys :: "usize option"
  l0_max_entries :: "usize option"
  bloom_filter :: "bloom_filter_params option"
  value_cache_size :: usize
  index_format :: index_format_type
  unloaded_iterator :: bool
  relocation_filter :: "relocation_filter_fn option"

definition config_default :: key_space_config where
  "config_default = \<lparr>compactor = None, disable_unload = False, max_dirty_keys = None, l0_max_entries = None,
     bloom_filter = None, value_cache_size = 0, index_format = Header, unloaded_iterator = True,
     relocation_filter = None\<rparr>"

record key_space_desc =
  ks_id :: key_space
  ks_name :: string
  ks_indexing :: key_indexing
  mutexes :: usize
  ks_type :: key_type
  config :: key_space_config
  destroyed :: bool

section \<open>Key types\<close>

definition is_power_of_two :: "usize \<Rightarrow> bool" where
  "is_power_of_two n \<longleftrightarrow> (\<exists>e < 64. n = 2 ^ e)"

definition uniform_config_new :: "usize \<Rightarrow> uniform_key_config res" where
  "uniform_config_new c = assertr (0 < c) (assertr (is_power_of_two c) (Inr \<lparr>cells_per_mutex = c\<rparr>))"

definition make_reset_mask :: "usize \<Rightarrow> u8 res" where
  "make_reset_mask bits = assertr (bits < 8) (Inr (0xFF - (2 ^ bits - 1)))"

definition prefixed_config_new :: "usize \<Rightarrow> usize \<Rightarrow> prefixed_uniform_key_config res" where
  "prefixed_config_new len bits =
     assertr (0 < len)
       (bindr (make_reset_mask bits) (\<lambda>m.
         Inr \<lparr>prefix_len_bytes = len, cluster_bits_count = bits, reset_mask = m\<rparr>))"

definition uniform :: "usize \<Rightarrow> key_type res" where
  "uniform c = bindr (uniform_config_new c) (\<lambda>u. Inr (Uniform u))"

definition prefix_uniform :: "usize \<Rightarrow> usize \<Rightarrow> key_type res" where
  "prefix_uniform len bits = bindr (prefixed_config_new len bits) (\<lambda>p. Inr (PrefixedUniform p))"

definition from_prefix_bits :: "u64 \<Rightarrow> key_type res" where
  "from_prefix_bits prefix_bits =
     assertr (0 < prefix_bits)
       (assertr (prefix_bits \<le> of_nat MAX_KEY_LEN * 8)
         (let len = (unat prefix_bits + 7) div 8;
              bits = (if prefix_bits mod 8 = 0 then 0 else 8 - unat (prefix_bits mod 8))
          in prefix_uniform len bits))"

definition has_cluster_bits :: "prefixed_uniform_key_config \<Rightarrow> bool" where
  "has_cluster_bits c \<longleftrightarrow> reset_mask c \<noteq> 0xFF"

definition cluster_bits :: "prefixed_uniform_key_config \<Rightarrow> u8 \<Rightarrow> u8" where
  "cluster_bits c v = v AND reset_mask c"

definition discard_prefix_bytes :: "prefixed_uniform_key_config \<Rightarrow> usize" where
  "discard_prefix_bytes c = (if has_cluster_bits c then prefix_len_bytes c - 1 else prefix_len_bytes c)"

definition prefix_range_u8 :: "prefixed_uniform_key_config \<Rightarrow> u8 \<Rightarrow> u8 \<times> u8" where
  "prefix_range_u8 c last_byte =
     (let min_byte = last_byte AND reset_mask c; compliment_mask = NOT (reset_mask c)
      in (min_byte, min_byte + compliment_mask))"

definition prefix_range :: "prefixed_uniform_key_config \<Rightarrow> u8 \<Rightarrow> u64 \<times> u64" where
  "prefix_range c last_byte =
     (if has_cluster_bits c then
        let (lo, hi) = prefix_range_u8 c last_byte;
            start_inclusive = push_bit 24 (ucast lo :: u64);
            end_inclusive = push_bit 24 (ucast hi :: u64)
        in (start_inclusive, end_inclusive + 0x1000000)
      else (0, MAX_U32_PLUS_ONE))"

definition verify_key_size :: "key_type \<Rightarrow> usize option \<Rightarrow> unit res" where
  "verify_key_size t key_size =
     (case (t, key_size) of
        (Uniform _, _) \<Rightarrow> Inr ()
      | (PrefixedUniform c, Some n) \<Rightarrow> assertr (prefix_len_bytes c < n) (Inr ())
      | (PrefixedUniform _, None) \<Rightarrow> Inr ())"

definition index_prefix :: "key_type \<Rightarrow> bytes \<Rightarrow> bytes res" where
  "index_prefix t k =
     (case t of
        Uniform _ \<Rightarrow> Inr k
      | PrefixedUniform c \<Rightarrow> slice_r k (discard_prefix_bytes c) (length k))"

section \<open>Key indexing\<close>

definition check_configured_key_size :: "usize \<Rightarrow> unit res" where
  "check_configured_key_size n = assertr (n \<le> MAX_KEY_LEN) (Inr ())"

definition indexing_fixed :: "usize \<Rightarrow> key_indexing res" where
  "indexing_fixed n = bindr (check_configured_key_size n) (\<lambda>_. Inr (Fixed n))"

definition key_reduction :: "usize \<Rightarrow> usize \<times> usize \<Rightarrow> key_indexing res" where
  "key_reduction n rng = bindr (check_configured_key_size n) (\<lambda>_. Inr (Reduction n rng))"

fun indexing_key_size :: "key_indexing \<Rightarrow> usize option" where
  "indexing_key_size (Fixed n) = Some n"
| "indexing_key_size (Reduction _ (a, b)) = Some (b - a)"
| "indexing_key_size Hash = Some HASH_SIZE"
| "indexing_key_size VariableLength = None"

definition check_key_size :: "key_indexing \<Rightarrow> usize \<Rightarrow> unit res" where
  "check_key_size ki k =
     (case ki of
        Fixed n \<Rightarrow> if n \<noteq> k then Inl ExplicitPanic else Inr ()
      | Reduction n _ \<Rightarrow> if n \<noteq> k then Inl ExplicitPanic else Inr ()
      | _ \<Rightarrow> if MAX_KEY_LEN < k then Inl ExplicitPanic else Inr ())"

text \<open>\<open>blake2\<close> is the digest function of the hashing crate.\<close>

definition hash_key :: "(bytes \<Rightarrow> bytes) \<Rightarrow> bytes \<Rightarrow> bytes res" where
  "hash_key blake2 key = slice_r (blake2 key) 0 HASH_SIZE"

definition indexing_reduce_key :: "(bytes \<Rightarrow> bytes) \<Rightarrow> key_indexing \<Rightarrow> bytes \<Rightarrow> bytes res" where
  "indexing_reduce_key blake2 ki key =
     (case ki of
        Fixed _ \<Rightarrow> Inr key
      | VariableLength \<Rightarrow> Inr key
      | Reduction _ (a, b) \<Rightarrow> slice_r key a b
      | Hash \<Rightarrow> hash_key blake2 key)"

section \<open>Descriptors\<close>

definition check_key :: "key_space_desc \<Rightarrow> bytes \<Rightarrow> unit res" where
  "check_key ks k = check_key_size (ks_indexing ks) (length k)"

definition assert_layout_matches :: "key_space_desc \<Rightarrow> key_space_desc \<Rightarrow> unit res" where
  "assert_layout_matches declared stored =
     (if mutexes declared = mutexes stored \<and> ks_type declared = ks_type stored
         \<and> ks_indexing declared = ks_indexing stored
      then Inr () else Inl ExplicitPanic)"

definition mark_destroyed :: "key_space_desc \<Rightarrow> key_space_desc \<times> bool" where
  "mark_destroyed ks = (ks\<lparr>destroyed := True\<rparr>, destroyed ks)"

definition unmark_destroyed :: "key_space_desc \<Rightarrow> key_space_desc" where
  "unmark_destroyed ks = ks\<lparr>destroyed := False\<rparr>"

definition with_id :: "key_space \<Rightarrow> key_space_desc \<Rightarrow> key_space_desc" where
  "with_id i ks = (if ks_id ks = i then ks else ks\<lparr>ks_id := i\<rparr>)"

definition mutex_for_cell :: "key_space_desc \<Rightarrow> cell_id \<Rightarrow> usize" where
  "mutex_for_cell ks cell = mutex_seed cell mod mutexes ks"

definition cell_by_location :: "key_space_desc \<Rightarrow> usize \<Rightarrow> usize \<Rightarrow> usize" where
  "cell_by_location ks row offset = offset * mutexes ks + row"

definition num_cells :: "key_space_desc \<Rightarrow> uniform_key_config \<Rightarrow> usize" where
  "num_cells ks c = cells_per_mutex c * mutexes ks"

definition uniform_next_cell :: "key_space_desc \<Rightarrow> uniform_key_config \<Rightarrow> usize \<Rightarrow> bool \<Rightarrow> cell_id option" where
  "uniform_next_cell ks c cell reverse = map_option Integer (next_bounded cell (num_cells ks c) reverse)"

definition first_cell :: "key_space_desc \<Rightarrow> cell_id" where
  "first_cell ks =
     (case ks_type ks of Uniform _ \<Rightarrow> Integer 0 | PrefixedUniform c \<Rightarrow> Bytes (replicate (prefix_len_bytes c) 0))"

definition last_cell :: "key_space_desc \<Rightarrow> cell_id" where
  "last_cell ks =
     (case ks_type ks of
        Uniform c \<Rightarrow> Integer (num_cells ks c - 1)
      | PrefixedUniform c \<Rightarrow> Bytes (replicate (prefix_len_bytes c) 0xFF))"

definition need_check_index_key :: "key_space_desc \<Rightarrow> bool" where
  "need_check_index_key ks =
     (case ks_indexing ks of Fixed _ \<Rightarrow> False | Reduction _ _ \<Rightarrow> True | Hash \<Rightarrow> False | VariableLength \<Rightarrow> False)"

definition assert_supports_iterator_bound :: "key_space_desc \<Rightarrow> unit res" where
  "assert_supports_iterator_bound ks =
     (case ks_indexing ks of Fixed _ \<Rightarrow> Inr () | Reduction _ _ \<Rightarrow> Inr () | Hash \<Rightarrow> Inl ExplicitPanic | VariableLength \<Rightarrow> Inr ())"

definition index_key_size :: "key_space_desc \<Rightarrow> usize option" where
  "index_key_size ks = indexing_key_size (ks_indexing ks)"

definition require_index_key_size :: "key_space_desc \<Rightarrow> usize res" where
  "require_index_key_size ks = (case index_key_size ks of None \<Rightarrow> Inl ExplicitPanic | Some n \<Rightarrow> Inr n)"

definition index_element_size :: "key_space_desc \<Rightarrow> usize option" where
  "index_element_size ks = map_option (\<lambda>i. i + 12) (index_key_size ks)"

definition require_index_element_size :: "key_space_desc \<Rightarrow> usize res" where
  "require_index_element_size ks = (case index_element_size ks of None \<Rightarrow> Inl ExplicitPanic | Some n \<Rightarrow> Inr n)"

definition index_key_element_size :: "key_space_desc \<Rightarrow> (usize \<times> usize) option" where
  "index_key_element_size ks = map_option (\<lambda>n. (n, the (index_element_size ks))) (index_key_size ks)"

definition index_prefix_u32 :: "key_space_desc \<Rightarrow> bytes \<Rightarrow> u32 res" where
  "index_prefix_u32 ks k = bindr (index_prefix (ks_type ks) k) (\<lambda>p. Inr (starting_u32 p))"

definition index_prefix_u64 :: "key_space_desc \<Rightarrow> bytes \<Rightarrow> u64 res" where
  "index_prefix_u64 ks k = bindr (index_prefix (ks_type ks) k) (\<lambda>p. Inr (starting_u64 p))"

definition cell_id_of :: "key_space_desc \<Rightarrow> bytes \<Rightarrow> cell_id res" where
  "cell_id_of ks k =
     (case ks_type ks of
        Uniform c \<Rightarrow>
          bindr (downscale_u32 (starting_u32 k) (of_nat (num_cells ks c))) (\<lambda>cell. Inr (Integer (unat cell)))
      | PrefixedUniform c \<Rightarrow>
          bindr (slice_r k 0 (prefix_len_bytes c)) (\<lambda>prefix.
          bindr (index_r prefix (prefix_len_bytes c - 1)) (\<lambda>b.
            Inr (Bytes (prefix[prefix_len_bytes c - 1 := cluster_bits c b])))))"

definition index_prefix_range :: "key_space_desc \<Rightarrow> cell_id \<Rightarrow> (u64 \<times> u64) res" where
  "index_prefix_range ks cell =
     (case (ks_type ks, cell) of
        (Uniform c, Integer cell) \<Rightarrow>
          let cell = of_nat cell; cell_size = MAX_U32_PLUS_ONE div of_nat (num_cells ks c)
          in Inr (cell * cell_size, (cell + 1) * cell_size)
      | (PrefixedUniform c, Bytes cell) \<Rightarrow>
          bindr (index_r cell (length cell - 1)) (\<lambda>b. Inr (prefix_range c b))
      | _ \<Rightarrow> Inl ExplicitPanic)"

definition reduce_key :: "(bytes \<Rightarrow> bytes) \<Rightarrow> key_space_desc \<Rightarrow> bytes \<Rightarrow> bytes res" where
  "reduce_key blake2 ks key = indexing_reduce_key blake2 (ks_indexing ks) key"

text \<open>The first and the last key of a cell.\<close>

definition cell_range :: "key_space_desc \<Rightarrow> cell_id \<Rightarrow> (bytes \<times> bytes) res" where
  "cell_range ks cell =
     bindr (require_index_key_size ks) (\<lambda>key_len.
       case ks_type ks of
         Uniform _ \<Rightarrow>
           bindr (index_prefix_range ks cell) (\<lambda>(range_start, range_end).
             let first_u32 = ucast range_start :: u32; last_u32 = ucast (range_end - 1) :: u32 in
             bindr (copy_at_r 0 (put_u32 first_u32) (replicate key_len 0)) (\<lambda>first_key.
             bindr (copy_at_r 0 (put_u32 last_u32) (replicate key_len 0xFF)) (\<lambda>last_key.
               Inr (first_key, last_key))))
       | PrefixedUniform c \<Rightarrow>
           bindr (assume_bytes_id cell) (\<lambda>prefix.
           assertr (length prefix = prefix_len_bytes c)
           (bindr (copy_at_r 0 prefix (replicate key_len 0)) (\<lambda>first_key.
           bindr (copy_at_r 0 prefix (replicate key_len 0xFF)) (\<lambda>last_key.
             if has_cluster_bits c then
               bindr (index_r prefix (prefix_len_bytes c - 1)) (\<lambda>b.
                 Inr (first_key, last_key[prefix_len_bytes c - 1 := snd (prefix_range_u8 c b)]))
             else Inr (first_key, last_key))))))"

definition map_key_range_to_cell_range :: "key_space_desc \<Rightarrow> bytes \<Rightarrow> bytes \<Rightarrow> (cell_id \<times> cell_id) res" where
  "map_key_range_to_cell_range ks from_inclusive to_inclusive =
     bindr (cell_id_of ks from_inclusive) (\<lambda>from_cell.
     bindr (cell_id_of ks to_inclusive) (\<lambda>to_cell.
     bindr (cell_range ks from_cell) (\<lambda>(first_key, _).
     assertr (from_inclusive = first_key)
     (bindr (cell_range ks to_cell) (\<lambda>(_, last_key).
     assertr (to_inclusive = last_key) (Inr (from_cell, to_cell)))))))"

definition needs_large_table_cell_index :: "key_space_desc \<Rightarrow> bool" where
  "needs_large_table_cell_index ks = (case ks_type ks of PrefixedUniform _ \<Rightarrow> True | Uniform _ \<Rightarrow> False)"

section \<open>Declaring key spaces\<close>

text \<open>\<open>KeyShapeBuilder\<close> and \<open>KeyShape\<close> both are the vector of descriptors.\<close>

type_synonym key_shape = "key_space_desc list"

definition add_key_space_config_indexing ::
    "string \<Rightarrow> key_indexing \<Rightarrow> usize \<Rightarrow> key_type \<Rightarrow> key_space_config \<Rightarrow> key_shape \<Rightarrow> key_shape res" where
  "add_key_space_config_indexing name ki m t cfg kss =
     assertr (list_all (\<lambda>ks. ks_name ks \<noteq> name) kss)
       (assertr (0 < m)
         (assertr (is_power_of_two m)
           (assertr (length kss < 254)
             (Inr (kss @ [\<lparr>ks_id = of_nat (length kss), ks_name = name, ks_indexing = ki, mutexes = m,
                           ks_type = t, config = cfg, destroyed = False\<rparr>])))))"

definition self_check :: "key_shape \<Rightarrow> unit res" where
  "self_check kss =
     bindr (traverse (\<lambda>ks.
         if bloom_filter (config ks) \<noteq> None \<and> compactor (config ks) \<noteq> None then Inl ExplicitPanic
         else verify_key_size (ks_type ks) (index_key_size ks)) kss) (\<lambda>_. Inr ())"

definition build :: "key_shape \<Rightarrow> key_shape res" where
  "build kss = bindr (self_check kss) (\<lambda>_. Inr kss)"

definition shape_ks :: "key_shape \<Rightarrow> key_space \<Rightarrow> key_space_desc res" where
  "shape_ks kss i = (if unat i < length kss then Inr (kss ! unat i) else Inl ExplicitPanic)"

section \<open>Reconciling with the registry\<close>

text \<open>\<open>KeySpaces::by_name\<close>, and the handle of a name.\<close>

type_synonym key_spaces = "(string \<times> key_space) list"

definition try_ks :: "key_spaces \<Rightarrow> string \<Rightarrow> key_space option" where
  "try_ks m name = map_of m name"

definition next_id :: "key_shape \<Rightarrow> key_space res" where
  "next_id ordered = assertr (length ordered < 255) (Inr (of_nat (length ordered)))"

text \<open>\<open>remaining\<close> is the vector of optional descriptors; \<open>take\<close> leaves a hole.\<close>

fun take_declared :: "key_space_desc option list \<Rightarrow> string \<Rightarrow> (key_space_desc \<times> key_space_desc option list) option" where
  "take_declared [] name = None"
| "take_declared (x # xs) name =
     (case x of
        Some d \<Rightarrow>
          if ks_name d = name then Some (d, None # xs)
          else map_option (\<lambda>(e, ys). (e, x # ys)) (take_declared xs name)
      | None \<Rightarrow> map_option (\<lambda>(e, ys). (e, x # ys)) (take_declared xs name))"

fun adopt_registry :: "key_shape \<Rightarrow> key_shape \<Rightarrow> key_spaces \<Rightarrow> key_space_desc option list
    \<Rightarrow> (key_shape \<times> key_spaces \<times> key_space_desc option list) res" where
  "adopt_registry [] ordered exposed remaining = Inr (ordered, exposed, remaining)"
| "adopt_registry (reg # regs) ordered exposed remaining =
     bindr (next_id ordered) (\<lambda>i.
       if destroyed reg then adopt_registry regs (ordered @ [with_id i reg]) exposed remaining
       else case take_declared remaining (ks_name reg) of
              Some (desc, remaining') \<Rightarrow>
                bindr (assert_layout_matches desc reg) (\<lambda>_.
                  adopt_registry regs (ordered @ [with_id i desc]) ((ks_name desc, i) # exposed) remaining')
            | None \<Rightarrow> adopt_registry regs (ordered @ [with_id i reg]) exposed remaining)"

fun append_declared :: "key_space_desc list \<Rightarrow> key_shape \<Rightarrow> key_spaces \<Rightarrow> bool \<Rightarrow> (key_shape \<times> key_spaces \<times> bool) res" where
  "append_declared [] ordered exposed changed = Inr (ordered, exposed, changed)"
| "append_declared (desc # ds) ordered exposed changed =
     bindr (next_id ordered) (\<lambda>i.
       append_declared ds (ordered @ [with_id i desc]) ((ks_name desc, i) # exposed) True)"

definition reorder_to_canonical :: "key_shape \<Rightarrow> key_shape option \<Rightarrow> (key_shape \<times> key_spaces \<times> bool) res" where
  "reorder_to_canonical declared registry =
     bindr (adopt_registry (case registry of None \<Rightarrow> [] | Some r \<Rightarrow> r) [] [] (map Some declared))
       (\<lambda>(ordered, exposed, remaining). append_declared (List.map_filter (\<lambda>x. x) remaining) ordered exposed False)"

section \<open>Cluster masks\<close>

lemma unat_of_pow: "n < 2 ^ LENGTH('a) \<Longrightarrow> unat (of_nat n :: 'a::len word) = n"
  by (simp add: unsigned_of_nat take_bit_nat_eq_self)

lemma mask_bytes:
  fixes v :: u8
  assumes "n < 8" "m = 0xFF - (2 ^ n - 1)"
  shows "unat (v AND m) = unat v div 2 ^ n * 2 ^ n" "unat (NOT m) = 2 ^ n - 1"
proof -
  have ff: "(0xFF :: u8) = - 1" by simp
  have m: "m = NOT (mask n)" unfolding assms(2) ff by (simp add: mask_eq_exp_minus_1 not_eq_complement)
  have "v AND m = push_bit n (drop_bit n v)"
    unfolding m by (rule bit_eqI) (auto simp: bit_simps)
  then have "unat (v AND m) = take_bit 8 (push_bit n (unat v div 2 ^ n))"
    using unat_byte_lt [of v] by (simp add: unsigned_push_bit_eq unsigned_drop_bit_eq take_bit_nat_eq_self
        drop_bit_eq_div [of n "unat v", symmetric] del: drop_bit_eq_div)
  moreover have "unat v div 2 ^ n * 2 ^ n < 2 ^ 8"
    using le_less_trans [OF div_times_less_eq_dividend unat_byte_lt [of v]] by simp
  ultimately show "unat (v AND m) = unat v div 2 ^ n * 2 ^ n"
    by (simp add: take_bit_nat_eq_self push_bit_eq_mult)
  have "unat (mask n :: u8) = 2 ^ n - 1"
  proof -
    have "mask n < (2 :: nat) ^ LENGTH(8)"
      using power_strict_increasing [OF assms(1), of "2 :: nat"] by (simp add: mask_eq_exp_minus_1 less_imp_diff_less)
    from unat_of_pow [where 'a = 8, OF this] show ?thesis by (simp add: of_nat_mask_eq mask_eq_exp_minus_1)
  qed
  then show "unat (NOT m) = 2 ^ n - 1" unfolding m by simp
qed

text \<open>What the constructors guarantee of a descriptor, and that the cells of a uniform key space can be
  counted in 32 bits.\<close>

definition ks_ok :: "key_space_desc \<Rightarrow> bool" where
  "ks_ok ks \<longleftrightarrow> is_power_of_two (mutexes ks) \<and>
     (case ks_type ks of
        Uniform c \<Rightarrow> is_power_of_two (cells_per_mutex c) \<and> num_cells ks c < 2 ^ 32
      | PrefixedUniform c \<Rightarrow> 0 < prefix_len_bytes c \<and> cluster_bits_count c < 8
          \<and> reset_mask c = 0xFF - (2 ^ cluster_bits_count c - 1))"

lemma uniform_cells:
  assumes "ks_ok ks" "ks_type ks = Uniform c"
  obtains e where "num_cells ks c = 2 ^ e" "e < 32"
proof -
  obtain a b where "mutexes ks = 2 ^ a" "cells_per_mutex c = 2 ^ b" "num_cells ks c < 2 ^ 32"
    using assms by (auto simp: ks_ok_def is_power_of_two_def)
  then have "num_cells ks c = 2 ^ (b + a)" "(2 :: nat) ^ (b + a) < 2 ^ 32"
    by (simp_all add: num_cells_def power_add)
  then show ?thesis using that [of "b + a"] power_less_imp_less_exp [of "2 :: nat" "b + a" 32] by simp
qed

lemma div_scale: "e \<le> (n :: nat) \<Longrightarrow> x * 2 ^ e div 2 ^ n = (x :: nat) div 2 ^ (n - e)"
  by (metis div_mult_mult2 le_add_diff_inverse mult.commute power_add power_not_zero zero_neq_numeral)

lemma uniform_cell_id:
  assumes "ks_type ks = Uniform c" "num_cells ks c = 2 ^ e" "e < 32"
  shows "cell_id_of ks k = Inr (Integer (unat (starting_u32 k) div 2 ^ (32 - e)))"
proof -
  have N: "unat (of_nat (num_cells ks c) :: u32) = 2 ^ e"
    using assms(3) unfolding assms(2) by (intro unat_of_pow power_strict_increasing) simp_all
  then have "0 < (of_nat (num_cells ks c) :: u32)" by (simp add: word_less_nat_alt)
  from downscale_u32_range [OF this] N obtain b where
      "downscale_u32 (starting_u32 k) (of_nat (num_cells ks c)) = Inr b"
      "unat b = unat (starting_u32 k) * 2 ^ e div 2 ^ 32" by metis
  then show ?thesis using assms(1,3) div_scale [of e 32] by (simp add: cell_id_of_def)
qed

lemma uniform_prefix_range:
  assumes "ks_type ks = Uniform c" "num_cells ks c = 2 ^ e" "e < 32" "x < 2 ^ e"
  shows "\<exists>lo hi. index_prefix_range ks (Integer x) = Inr (lo, hi)
    \<and> unat lo = x * 2 ^ (32 - e) \<and> unat hi = (x + 1) * 2 ^ (32 - e)"
proof -
  have N: "unat (of_nat (num_cells ks c) :: u64) = 2 ^ e" "unat (of_nat x :: u64) = x"
    using assms(3) less_trans [OF assms(4) power_strict_increasing [of e "LENGTH(64)" 2]] unfolding assms(2)
    by (intro unat_of_pow power_strict_increasing, simp_all)+
  have size: "unat (MAX_U32_PLUS_ONE div of_nat (num_cells ks c)) = 2 ^ (32 - e)"
    using assms(3) by (simp add: unat_div N MAX_U32_PLUS_ONE_def power_diff)
  have "(x + 1) * 2 ^ (32 - e) \<le> 2 ^ e * 2 ^ (32 - e)" using assms(4) by (intro mult_le_mono1) simp
  also have "\<dots> = 2 ^ 32" using assms(3) by (simp add: power_add [symmetric])
  finally have le: "(x + 1) * 2 ^ (32 - e) \<le> (2 ^ 32 :: nat)" .
  have x1: "unat (of_nat x + 1 :: u64) = x + 1"
    using N(2) assms(3,4) power_strict_increasing [of e 64 "2 :: nat"] by (simp add: unat_word_ariths)
  have "unat (of_nat x * (MAX_U32_PLUS_ONE div of_nat (num_cells ks c)) :: u64) = x * 2 ^ (32 - e)"
    "unat ((of_nat x + 1) * (MAX_U32_PLUS_ONE div of_nat (num_cells ks c)) :: u64) = (x + 1) * 2 ^ (32 - e)"
    using le by (simp_all only: unat_word_ariths(2) N x1 size, simp_all)
  then show ?thesis using assms(1) by (simp add: index_prefix_range_def Let_def)
qed

section \<open>Prefixes of equal length\<close>

lemma append_le_iff:
  fixes a b x y :: "'a::linorder list"
  assumes "length a = length b"
  shows "a @ x \<le> b @ y \<longleftrightarrow> a < b \<or> a = b \<and> x \<le> y"
  using assms by (induction a b rule: list_induct2) (auto simp: less_le)

lemma replicate_0_le: "length k = n \<Longrightarrow> replicate n 0 \<le> (k :: bytes)"
  by (induction k arbitrary: n) (auto simp: word_neq_0_conv)

lemma le_replicate_FF: "length k = n \<Longrightarrow> (k :: bytes) \<le> replicate n 0xFF"
proof (induction k arbitrary: n)
  case (Cons b k)
  have "b \<le> 0xFF" using unat_byte_lt [of b] by (simp add: word_le_nat_alt del: unat_byte_lt)
  then show ?case using Cons by (auto simp: less_le)
qed simp

lemma padded_bounds:
  fixes a k :: bytes
  assumes "length a = m" "length k = n" "m \<le> n"
  shows "a @ replicate (n - m) 0 \<le> k \<longleftrightarrow> a \<le> take m k" "k \<le> a @ replicate (n - m) 0xFF \<longleftrightarrow> take m k \<le> a"
proof -
  obtain u v where k: "k = u @ v" "length u = length a" "length v = n - m"
    using assms that [of "take m k" "drop m k"] by simp
  then have "take m k = u" using assms(1) by simp
  moreover have "a @ replicate (n - m) 0 \<le> k \<longleftrightarrow> a \<le> u"
    using append_le_iff [OF k(2) [symmetric]] replicate_0_le [OF k(3)] by (simp add: k(1) le_less)
  moreover have "k \<le> a @ replicate (n - m) 0xFF \<longleftrightarrow> u \<le> a"
    using append_le_iff [OF k(2)] le_replicate_FF [OF k(3)] by (simp add: k(1) le_less)
  ultimately show "a @ replicate (n - m) 0 \<le> k \<longleftrightarrow> a \<le> take m k" "k \<le> a @ replicate (n - m) 0xFF \<longleftrightarrow> take m k \<le> a"
    by simp_all
qed

lemma take_mono_bytes:
  fixes xs ys :: bytes
  assumes "xs \<le> ys" "n \<le> length xs" "n \<le> length ys"
  shows "take n xs \<le> take n ys"
  using append_le_iff [of "take n xs" "take n ys" "drop n xs" "drop n ys"] assms by (auto simp: le_less)

lemma snoc_between:
  fixes q q' :: bytes
  assumes "length q = length q'"
  shows "q @ [b] \<le> q' @ [x] \<and> q' @ [x] \<le> q @ [h] \<longleftrightarrow> q = q' \<and> b \<le> x \<and> x \<le> h"
  using append_le_iff [OF assms] append_le_iff [OF assms [symmetric]] by auto

section \<open>Prefixed cells\<close>

lemma prefixed_cell_id:
  assumes "ks_type ks = PrefixedUniform c" "0 < prefix_len_bytes c"
  shows "cell_id_of ks k = (if prefix_len_bytes c \<le> length k
    then Inr (Bytes (take (prefix_len_bytes c - 1) k @ [cluster_bits c (k ! (prefix_len_bytes c - 1))]))
    else Inl OutOfRange)"
proof (cases "prefix_len_bytes c \<le> length k")
  case True
  obtain n where n: "prefix_len_bytes c = Suc n" using assms(2) by (cases "prefix_len_bytes c") auto
  then have "take (Suc n) k = take n k @ [k ! n]" using True by (simp add: take_Suc_conv_app_nth)
  then show ?thesis
    using assms(1) True n by (simp add: cell_id_of_def slice_r_def index_r_def list_update_append nth_append)
qed (simp add: cell_id_of_def assms slice_r_def)

lemma div_block: "0 < d \<Longrightarrow> x div d = q \<longleftrightarrow> q * d \<le> x \<and> x < (q + 1) * (d :: nat)"
  using div_times_less_eq_dividend [of x d] dividend_less_div_times [of d x]
  by (auto simp: mult.commute intro!: div_nat_eqI)

lemma block_end: "0 < d \<Longrightarrow> x < (q + 1) * d \<longleftrightarrow> x \<le> q * d + (d - 1 :: nat)"
  by (cases d) auto

lemma cluster_byte:
  assumes "ks_ok ks" "ks_type ks = PrefixedUniform c"
  shows "cluster_bits c x = cluster_bits c y \<longleftrightarrow> fst (prefix_range_u8 c y) \<le> x \<and> x \<le> snd (prefix_range_u8 c y)"
    and "cluster_bits c y = fst (prefix_range_u8 c y)"
    and "x \<le> y \<Longrightarrow> cluster_bits c x \<le> cluster_bits c y"
    and "cluster_bits c (cluster_bits c y) = cluster_bits c y"
    and "\<not> has_cluster_bits c \<Longrightarrow> cluster_bits c x = x"
    and "unat (snd (prefix_range_u8 c y)) = unat (cluster_bits c y) + (2 ^ cluster_bits_count c - 1)"
proof -
  let ?n = "cluster_bits_count c"
  have n: "?n < 8" "reset_mask c = 0xFF - (2 ^ ?n - 1)" using assms by (simp_all add: ks_ok_def)
  have cb: "unat (cluster_bits c v) = unat v div 2 ^ ?n * 2 ^ ?n" for v
    using mask_bytes(1) [OF n] by (simp add: cluster_bits_def)
  have top: "unat y div 2 ^ ?n * 2 ^ ?n + (2 ^ ?n - 1) < 256"
  proof -
    have "(256 :: nat) = 2 ^ (8 - ?n) * 2 ^ ?n" using n(1) by (simp flip: power_add)
    then have "unat y div 2 ^ ?n < 2 ^ (8 - ?n)" using unat_byte_lt [of y] by (simp add: less_mult_imp_div_less)
    then have "(unat y div 2 ^ ?n + 1) * 2 ^ ?n \<le> 2 ^ (8 - ?n) * 2 ^ ?n" by (intro mult_le_mono1) simp
    then show ?thesis using \<open>256 = _\<close> by (simp add: less_diff_conv2)
  qed
  show eq: "cluster_bits c y = fst (prefix_range_u8 c y)" by (simp add: prefix_range_u8_def cluster_bits_def Let_def)
  show snd: "unat (snd (prefix_range_u8 c y)) = unat (cluster_bits c y) + (2 ^ ?n - 1)"
    using cb [of y] top mask_bytes(2) [OF n]
    by (simp add: prefix_range_u8_def Let_def unat_word_ariths cluster_bits_def del: One_nat_def)
  have "unat x div 2 ^ ?n * 2 ^ ?n = unat y div 2 ^ ?n * 2 ^ ?n \<longleftrightarrow>
      unat y div 2 ^ ?n * 2 ^ ?n \<le> unat x \<and> unat x \<le> unat y div 2 ^ ?n * 2 ^ ?n + (2 ^ ?n - 1)"
  proof -
    have "unat x div 2 ^ ?n = unat y div 2 ^ ?n \<longleftrightarrow>
        unat y div 2 ^ ?n * 2 ^ ?n \<le> unat x \<and> unat x < (unat y div 2 ^ ?n + 1) * 2 ^ ?n"
      by (rule div_block) simp
    moreover have "unat x < (unat y div 2 ^ ?n + 1) * 2 ^ ?n \<longleftrightarrow> unat x \<le> unat y div 2 ^ ?n * 2 ^ ?n + (2 ^ ?n - 1)"
      by (rule block_end) simp
    ultimately show ?thesis by simp
  qed
  then show "cluster_bits c x = cluster_bits c y \<longleftrightarrow> fst (prefix_range_u8 c y) \<le> x \<and> x \<le> snd (prefix_range_u8 c y)"
    by (simp add: word_unat_eq_iff word_le_nat_alt eq [symmetric] snd cb)
  show "cluster_bits c x \<le> cluster_bits c y" if "x \<le> y"
    using that by (simp add: word_le_nat_alt cb div_le_mono)
  show "cluster_bits c (cluster_bits c y) = cluster_bits c y" by (simp add: cluster_bits_def and.assoc)
  show "cluster_bits c x = x" if "\<not> has_cluster_bits c"
  proof -
    have "reset_mask c = - 1" using that by (simp add: has_cluster_bits_def)
    then show ?thesis by (simp add: cluster_bits_def)
  qed
qed

section \<open>Prefix ranges\<close>

lemma starting_u32_Cons: "unat (starting_u32 (b # k)) div 2 ^ 24 = unat b"
proof -
  have z: "zero_padded 4 (b # k) = b # zero_padded 3 k" using zero_padded_simps(3) [of 3 b k] by simp
  have "be_decode (zero_padded 3 k) < 2 ^ 24" using be_decode_lt [of "zero_padded 3 k"] by simp
  then show ?thesis by (simp add: unat_starting_u32 z be_decode_Cons)
qed

lemma prefixed_prefix_range:
  assumes "ks_ok ks" "ks_type ks = PrefixedUniform c" "prefix_len_bytes c \<le> length k"
  shows "\<exists>lo hi p. prefix_range c (cluster_bits c (k ! (prefix_len_bytes c - 1))) = (lo, hi)
    \<and> index_prefix_u32 ks k = Inr p \<and> unat lo \<le> unat p \<and> unat p < unat hi \<and> unat hi \<le> 2 ^ 32"
proof (cases "has_cluster_bits c")
  case False
  then show ?thesis using assms unat_lt [of "starting_u32 _"]
    by (simp add: prefix_range_def index_prefix_u32_def index_prefix_def discard_prefix_bytes_def slice_r_def MAX_U32_PLUS_ONE_def)
next
  case True
  let ?n = "prefix_len_bytes c - 1" and ?y = "k ! (prefix_len_bytes c - 1)"
  have "0 < prefix_len_bytes c" using assms by (simp add: ks_ok_def)
  then have d: "drop ?n k = ?y # drop (Suc ?n) k" using assms(3) by (intro Cons_nth_drop_Suc [symmetric]) simp
  have p: "index_prefix_u32 ks k = Inr (starting_u32 (drop ?n k))"
    using assms(2,3) True by (simp add: index_prefix_u32_def index_prefix_def discard_prefix_bytes_def slice_r_def)
  note cb = cluster_byte [OF assms(1,2)]
  obtain lo8 hi8 where r: "prefix_range_u8 c (cluster_bits c ?y) = (lo8, hi8)" by (cases "prefix_range_u8 c (cluster_bits c ?y)")
  have in8: "lo8 \<le> ?y" "?y \<le> hi8" using cb(1) [of ?y "cluster_bits c ?y"] cb(4) [of ?y] r by auto
  have uc: "unat (ucast b :: u64) = unat b" for b :: u8
    using less_trans [OF unat_byte_lt [of b], of "2 ^ 64"] by (simp add: unsigned_ucast_eq take_bit_nat_eq_self)
  have sh: "unat (push_bit 24 (ucast b :: u64)) = unat b * 2 ^ 24" for b :: u8
  proof -
    have "unat b * 2 ^ 24 < 2 ^ 64" using less_trans [OF unat_byte_lt [of b], of "2 ^ 40"] by simp
    then show ?thesis by (simp add: push_bit_eq_mult unat_word_ariths uc)
  qed
  let ?p = "unat (starting_u32 (drop ?n k))"
  have "?p div 2 ^ 24 = unat ?y" unfolding d by (rule starting_u32_Cons)
  then have "unat ?y * 2 ^ 24 \<le> ?p" "?p < (unat ?y + 1) * 2 ^ 24" using div_block [of "2 ^ 24" ?p "unat ?y"] by simp_all
  moreover have "unat (push_bit 24 (ucast hi8) + 0x1000000 :: u64) = (unat hi8 + 1) * 2 ^ 24"
    using less_trans [OF unat_byte_lt [of hi8], of "2 ^ 39"] by (simp add: unat_word_ariths sh)
  moreover have "unat lo8 \<le> unat ?y" "unat ?y \<le> unat hi8" "unat hi8 < 256" using in8 by (simp_all add: word_le_nat_alt)
  moreover have "unat hi8 \<le> 255" using unat_byte_lt [of hi8] by linarith
  moreover have "prefix_range c (cluster_bits c ?y) = (push_bit 24 (ucast lo8), push_bit 24 (ucast hi8) + 0x1000000)"
    unfolding prefix_range_def r using True by simp
  ultimately show ?thesis using p sh [of lo8] by auto
qed

lemma prefix_in_cell:
  assumes "ks_ok ks" "cell_id_of ks k = Inr c"
  shows "\<exists>lo hi p. index_prefix_range ks c = Inr (lo, hi) \<and> index_prefix_u32 ks k = Inr p
    \<and> unat lo \<le> unat p \<and> unat p < unat hi \<and> unat hi \<le> 2 ^ 32"
proof (cases "ks_type ks")
  case (Uniform u)
  obtain e where e: "num_cells ks u = 2 ^ e" "e < 32" using uniform_cells [OF assms(1) Uniform] .
  let ?p = "unat (starting_u32 k)" and ?s = "2 ^ (32 - e) :: nat"
  have c: "c = Integer (?p div ?s)" using uniform_cell_id [OF Uniform e, of k] assms(2) by simp
  have pow: "2 ^ e * ?s = 2 ^ 32" using e(2) by (simp flip: power_add)
  have lt: "?p div ?s < 2 ^ e" using unat_lt [of "starting_u32 k"] pow by (simp add: less_mult_imp_div_less)
  obtain lo hi where r: "index_prefix_range ks c = Inr (lo, hi)" "unat lo = ?p div ?s * ?s" "unat hi = (?p div ?s + 1) * ?s"
    using uniform_prefix_range [OF Uniform e lt] c by blast
  have "(?p div ?s + 1) * ?s \<le> 2 ^ e * ?s" using lt by (intro mult_le_mono1) simp
  moreover have "index_prefix_u32 ks k = Inr (starting_u32 k)" using Uniform by (simp add: index_prefix_u32_def index_prefix_def)
  ultimately show ?thesis using r div_block [of ?s ?p "?p div ?s"] pow by auto
next
  case (PrefixedUniform u)
  have len: "prefix_len_bytes u \<le> length k" "0 < prefix_len_bytes u"
    using assms PrefixedUniform prefixed_cell_id [OF PrefixedUniform] by (auto simp: ks_ok_def split: if_splits)
  have c: "c = Bytes (take (prefix_len_bytes u - 1) k @ [cluster_bits u (k ! (prefix_len_bytes u - 1))])"
    using prefixed_cell_id [OF PrefixedUniform len(2), of k] assms(2) len(1) by simp
  have "index_prefix_range ks c = Inr (prefix_range u (cluster_bits u (k ! (prefix_len_bytes u - 1))))"
    using PrefixedUniform c len by (simp add: index_prefix_range_def index_r_def nth_append)
  then show ?thesis using prefixed_prefix_range [OF assms(1) PrefixedUniform len(1)] by auto
qed

section \<open>Cell order\<close>

lemma cells_ordered:
  assumes "ks_ok ks" "k \<le> k'" "cell_id_of ks k = Inr c" "cell_id_of ks k' = Inr c'"
  shows "cell_cmp c c' = Inr Less \<or> c = c'"
proof (cases "ks_type ks")
  case (Uniform u)
  obtain e where e: "num_cells ks u = 2 ^ e" "e < 32" using uniform_cells [OF assms(1) Uniform] .
  have "unat (starting_u32 k) div 2 ^ (32 - e) \<le> unat (starting_u32 k') div 2 ^ (32 - e)"
    using starting_u32_mono [OF assms(2)] by (intro div_le_mono) (simp add: word_le_nat_alt)
  then show ?thesis using uniform_cell_id [OF Uniform e] assms(3,4) by (auto simp: cmp_def split: if_splits)
next
  case (PrefixedUniform u)
  let ?n = "prefix_len_bytes u - 1"
  have pos: "0 < prefix_len_bytes u" using assms(1) PrefixedUniform by (simp add: ks_ok_def)
  have len: "prefix_len_bytes u \<le> length k" "prefix_len_bytes u \<le> length k'"
    and c: "c = Bytes (take ?n k @ [cluster_bits u (k ! ?n)])" "c' = Bytes (take ?n k' @ [cluster_bits u (k' ! ?n)])"
    using assms(3,4) prefixed_cell_id [OF PrefixedUniform pos] by (auto split: if_splits)
  have t: "take (prefix_len_bytes u) x = take ?n x @ [x ! ?n]" if "prefix_len_bytes u \<le> length x" for x
    using that pos take_Suc_conv_app_nth [of ?n x] by simp
  have l: "length (take ?n k) = length (take ?n k')" using len by simp
  have "take ?n k @ [k ! ?n] \<le> take ?n k' @ [k' ! ?n]"
    using take_mono_bytes [OF assms(2) len] t [OF len(1)] t [OF len(2)] by simp
  then have "take ?n k @ [cluster_bits u (k ! ?n)] \<le> take ?n k' @ [cluster_bits u (k' ! ?n)]"
    unfolding append_le_iff [OF l] using cluster_byte(3) [OF assms(1) PrefixedUniform, of "k ! ?n" "k' ! ?n"]
    by (auto simp: order.strict_iff_order)
  then show ?thesis unfolding c by (auto simp: cmp_def split: if_splits)
qed

section \<open>Key ranges of cells\<close>

text \<open>The cells of a key space.\<close>

definition valid_cell :: "key_space_desc \<Rightarrow> cell_id \<Rightarrow> bool" where
  "valid_cell ks cell =
     (case (ks_type ks, cell) of
        (Uniform c, Integer x) \<Rightarrow> x < num_cells ks c
      | (PrefixedUniform c, Bytes b) \<Rightarrow> length b = prefix_len_bytes c \<and> cluster_bits c (last b) = last b
      | _ \<Rightarrow> False)"

lemma cell_id_valid:
  assumes "ks_ok ks" "cell_id_of ks k = Inr c"
  shows "valid_cell ks c"
proof (cases "ks_type ks")
  case (Uniform u)
  obtain e where e: "num_cells ks u = 2 ^ e" "e < 32" using uniform_cells [OF assms(1) Uniform] .
  have "2 ^ e * 2 ^ (32 - e) = (2 :: nat) ^ 32" using e(2) by (simp flip: power_add)
  then have "unat (starting_u32 k) div 2 ^ (32 - e) < 2 ^ e"
    using unat_lt [of "starting_u32 k"] by (simp add: less_mult_imp_div_less)
  then show ?thesis using uniform_cell_id [OF Uniform e, of k] assms(2) Uniform e by (auto simp: valid_cell_def)
next
  case (PrefixedUniform u)
  then show ?thesis
    using assms prefixed_cell_id [OF PrefixedUniform, of k] cluster_byte(4) [OF assms(1) PrefixedUniform]
    by (auto simp: valid_cell_def ks_ok_def split: if_splits)
qed

lemma copy_at_start: "length a \<le> n \<Longrightarrow> copy_at_r 0 a (replicate n x) = Inr (a @ replicate (n - length a) x)"
  by (simp add: copy_at_r_def overwrite_def)

lemma uniform_cell_range:
  assumes "ks_ok ks" "ks_type ks = Uniform u" "valid_cell ks cell" "index_key_size ks = Some n" "4 \<le> n"
  shows "\<exists>lo hi. cell_range ks cell = Inr (lo @ replicate (n - 4) 0, hi @ replicate (n - 4) 0xFF)
    \<and> length lo = 4 \<and> length hi = 4
    \<and> (\<forall>k. length k = n \<longrightarrow> (cell_id_of ks k = Inr cell \<longleftrightarrow> lo \<le> take 4 k \<and> take 4 k \<le> hi))"
proof -
  obtain e where e: "num_cells ks u = 2 ^ e" "e < 32" using uniform_cells [OF assms(1,2)] .
  obtain x where x: "cell = Integer x" "x < 2 ^ e" using assms(2,3) e by (auto simp: valid_cell_def split: cell_id.splits)
  let ?s = "2 ^ (32 - e) :: nat"
  obtain rs re where r: "index_prefix_range ks cell = Inr (rs, re)" "unat rs = x * ?s" "unat re = (x + 1) * ?s"
    using uniform_prefix_range [OF assms(2) e x(2)] x(1) by blast
  have "(x + 1) * ?s \<le> 2 ^ e * ?s" using x(2) by (intro mult_le_mono1) simp
  also have "\<dots> = 2 ^ 32" using e(2) by (simp flip: power_add)
  finally have le: "(x + 1) * ?s \<le> 2 ^ 32" .
  have s1: "1 \<le> ?s" by simp
  have re1: "unat (re - 1) = (x + 1) * ?s - 1"
  proof -
    have "1 \<le> unat re" unfolding r(3) using s1 by (simp add: trans_le_add1)
    then show ?thesis using r(3) by (simp add: unat_sub_if_size word_le_nat_alt)
  qed
  have trunc: "unat (ucast w :: u32) = unat w" if "unat w < 2 ^ 32" for w :: u64
    using that by (simp add: unsigned_ucast_eq take_bit_nat_eq_self)
  have xs: "x * ?s < 2 ^ 32"
  proof -
    have "x * ?s < x * ?s + ?s" by simp
    also have "\<dots> \<le> 2 ^ 32" using le by (simp add: add.commute)
    finally show ?thesis .
  qed
  have u1: "unat (ucast rs :: u32) = x * ?s" using trunc [of rs] r(2) xs by simp
  have u2: "unat (ucast (re - 1) :: u32) = (x + 1) * ?s - 1" using trunc [of "re - 1"] re1 le s1 by simp
  let ?lo = "put_u32 (ucast rs)" and ?hi = "put_u32 (ucast (re - 1))"
  have cr: "cell_range ks cell = Inr (?lo @ replicate (n - 4) 0, ?hi @ replicate (n - 4) 0xFF)"
    using assms(2,4,5) r(1) by (simp add: cell_range_def require_index_key_size_def copy_at_start)
  have "cell_id_of ks k = Inr cell \<longleftrightarrow> ?lo \<le> take 4 k \<and> take 4 k \<le> ?hi" if "length k = n" for k
  proof -
    have z: "zero_padded 4 k = take 4 k" using that assms(5) by (simp add: zero_padded_def)
    have l4: "length (take 4 k) = 4" using that assms(5) by simp
    have "?lo \<le> take 4 k \<longleftrightarrow> x * ?s \<le> unat (starting_u32 k)"
      using be_decode_le_iff [of ?lo "take 4 k"] l4 u1 by (simp add: unat_starting_u32 z be_decode_put)
    moreover have "take 4 k \<le> ?hi \<longleftrightarrow> unat (starting_u32 k) \<le> (x + 1) * ?s - 1"
      using be_decode_le_iff [of "take 4 k" ?hi] l4 u2 by (simp add: unat_starting_u32 z be_decode_put)
    moreover have "cell_id_of ks k = Inr cell \<longleftrightarrow> unat (starting_u32 k) div ?s = x"
      using uniform_cell_id [OF assms(2) e, of k] x(1) by simp
    moreover have "unat (starting_u32 k) div ?s = x \<longleftrightarrow> x * ?s \<le> unat (starting_u32 k) \<and> unat (starting_u32 k) < (x + 1) * ?s"
      by (rule div_block) simp
    moreover have "unat (starting_u32 k) < (x + 1) * ?s \<longleftrightarrow> unat (starting_u32 k) \<le> (x + 1) * ?s - 1"
      using s1 by (cases "(x + 1) * ?s") auto
    ultimately show ?thesis by simp
  qed
  then show ?thesis using cr by auto
qed

lemma prefixed_cell_range:
  assumes "ks_ok ks" "ks_type ks = PrefixedUniform u" "valid_cell ks cell" "index_key_size ks = Some n" "prefix_len_bytes u \<le> n"
  shows "\<exists>lo hi. cell_range ks cell = Inr (lo @ replicate (n - prefix_len_bytes u) 0, hi @ replicate (n - prefix_len_bytes u) 0xFF)
    \<and> length lo = prefix_len_bytes u \<and> length hi = prefix_len_bytes u
    \<and> (\<forall>k. length k = n \<longrightarrow> (cell_id_of ks k = Inr cell
          \<longleftrightarrow> lo \<le> take (prefix_len_bytes u) k \<and> take (prefix_len_bytes u) k \<le> hi))"
proof -
  let ?m = "prefix_len_bytes u"
  have m: "0 < ?m" using assms(1,2) by (simp add: ks_ok_def)
  obtain b where b: "cell = Bytes b" "length b = ?m" "cluster_bits u (last b) = last b"
    using assms(2,3) by (auto simp: valid_cell_def split: cell_id.splits)
  obtain q y where q: "b = q @ [y]" using m b(2) by (cases b rule: rev_cases) auto
  have lq: "length q = ?m - 1" and cy: "cluster_bits u y = y" using b q by simp_all
  note cb = cluster_byte [OF assms(1,2)]
  let ?h = "snd (prefix_range_u8 u y)"
  have hi: "?h = y" if "\<not> has_cluster_bits u"
  proof -
    have "reset_mask u = - 1" using that by (simp add: has_cluster_bits_def)
    then show ?thesis by (simp add: prefix_range_u8_def Let_def)
  qed
  have cr: "cell_range ks cell = Inr (b @ replicate (n - ?m) 0, (q @ [?h]) @ replicate (n - ?m) 0xFF)"
  proof -
    have "(b @ replicate (n - ?m) 0xFF)[?m - 1 := ?h] = (q @ [?h]) @ replicate (n - ?m) 0xFF"
      unfolding q using lq by (simp add: list_update_append)
    moreover have "b ! (?m - 1) = y" unfolding q using lq by (simp add: nth_append)
    ultimately show ?thesis
      using assms(2,4,5) b(1,2) m hi q
      by (simp add: cell_range_def require_index_key_size_def copy_at_start index_r_def)
  qed
  have "cell_id_of ks k = Inr cell \<longleftrightarrow> b \<le> take ?m k \<and> take ?m k \<le> q @ [?h]" if "length k = n" for k
  proof -
    have t: "take ?m k = take (?m - 1) k @ [k ! (?m - 1)]"
      using take_Suc_conv_app_nth [of "?m - 1" k] m assms(5) that by simp
    have "cell_id_of ks k = Inr cell \<longleftrightarrow> take (?m - 1) k = q \<and> cluster_bits u (k ! (?m - 1)) = y"
      using prefixed_cell_id [OF assms(2) m, of k] assms(5) that b(1) q by simp
    also have "\<dots> \<longleftrightarrow> q = take (?m - 1) k \<and> y \<le> k ! (?m - 1) \<and> k ! (?m - 1) \<le> ?h"
      using cb(1) [of "k ! (?m - 1)" y] cb(2) [of y] cy by auto
    also have "\<dots> \<longleftrightarrow> b \<le> take ?m k \<and> take ?m k \<le> q @ [?h]"
      unfolding t q using snoc_between [of q "take (?m - 1) k" y "k ! (?m - 1)" ?h] lq that assms(5) by auto
    finally show ?thesis .
  qed
  then show ?thesis using cr b(2) lq m by auto
qed

section \<open>Ids of key spaces\<close>

abbreviation same_layout :: "key_space_desc \<Rightarrow> key_space_desc \<Rightarrow> bool" where
  "same_layout a b \<equiv> ks_name a = ks_name b \<and> mutexes a = mutexes b \<and> ks_type a = ks_type b
     \<and> ks_indexing a = ks_indexing b \<and> destroyed a = destroyed b"

lemma with_id_fields [simp]:
  "ks_id (with_id i d) = i" "ks_name (with_id i d) = ks_name d" "mutexes (with_id i d) = mutexes d"
  "ks_type (with_id i d) = ks_type d" "ks_indexing (with_id i d) = ks_indexing d" "destroyed (with_id i d) = destroyed d"
  "config (with_id i d) = config d"
  by (simp_all add: with_id_def)

abbreviation remains :: "key_space_desc option list \<Rightarrow> key_space_desc list" where
  "remains xs \<equiv> List.map_filter (\<lambda>x. x) xs"

lemma take_declared_Some:
  "take_declared xs name = Some (d, ys) \<Longrightarrow>
     ks_name d = name \<and> (\<exists>us vs. remains xs = us @ d # vs \<and> remains ys = us @ vs)"
proof (induction xs arbitrary: ys)
  case (Cons x xs)
  show ?case
  proof (cases "\<exists>e. x = Some e \<and> ks_name e = name")
    case True
    then show ?thesis using Cons.prems by (fastforce simp: map_filter_simps)
  next
    case False
    then obtain zs where z: "take_declared xs name = Some (d, zs)" "ys = x # zs"
      using Cons.prems by (auto split: option.splits if_splits)
    then obtain us vs where "remains xs = us @ d # vs" "remains zs = us @ vs" "ks_name d = name"
      using Cons.IH [OF z(1)] by blast
    then show ?thesis using z(2) by (cases x) (auto simp: map_filter_simps intro: exI [of _ "_ # us"])
  qed
qed simp

text \<open>The reconciliation keeps: ids are positions, and every declared key space is either still to be
  placed or exposed under its name.\<close>

definition placed :: "key_space_desc list \<Rightarrow> key_shape \<Rightarrow> key_spaces \<Rightarrow> key_space_desc list \<Rightarrow> bool" where
  "placed declared ordered exposed todo \<longleftrightarrow>
     length ordered \<le> 255 \<and> (\<forall>i < length ordered. ks_id (ordered ! i) = of_nat i)
     \<and> set todo \<subseteq> set declared \<and> distinct (map ks_name todo)
     \<and> (\<forall>d \<in> set declared. d \<in> set todo \<or> (\<exists>i < length ordered.
          map_of exposed (ks_name d) = Some (of_nat i) \<and> ordered ! i = with_id (of_nat i) d))"

lemma placed_keep:
  assumes "placed declared ordered exposed todo" "length ordered < 255"
  shows "placed declared (ordered @ [with_id (of_nat (length ordered)) r]) exposed todo"
  using assms unfolding placed_def
  by (auto simp: nth_append less_Suc_eq)

lemma placed_take:
  assumes "placed declared ordered exposed (us @ d # vs)" "length ordered < 255" "distinct (map ks_name declared)"
  shows "placed declared (ordered @ [with_id (of_nat (length ordered)) d])
    ((ks_name d, of_nat (length ordered)) # exposed) (us @ vs)"
proof -
  have d: "d \<in> set declared" using assms(1) by (simp add: placed_def)
  have eq: "e = d" if "e \<in> set declared" "ks_name e = ks_name d" for e
    using assms(3) d that by (auto simp: distinct_map dest: inj_onD)
  show ?thesis
    unfolding placed_def
  proof (intro conjI ballI)
    fix e assume e: "e \<in> set declared"
    let ?o = "ordered @ [with_id (of_nat (length ordered)) d]"
    show "e \<in> set (us @ vs) \<or> (\<exists>i < length ?o. map_of ((ks_name d, of_nat (length ordered)) # exposed) (ks_name e) = Some (of_nat i)
        \<and> ?o ! i = with_id (of_nat i) e)"
    proof (cases "e = d")
      case True
      then show ?thesis by (intro disjI2 exI [of _ "length ordered"]) simp
    next
      case False
      then have "ks_name e \<noteq> ks_name d" using eq [OF e] by blast
      moreover have "e \<in> set (us @ vs) \<or> (\<exists>i < length ordered. map_of exposed (ks_name e) = Some (of_nat i)
          \<and> ordered ! i = with_id (of_nat i) e)"
        using assms(1) e False by (auto simp: placed_def)
      ultimately show ?thesis by (auto simp: nth_append less_Suc_eq)
    qed
  qed (use assms in \<open>auto simp: placed_def nth_append less_Suc_eq\<close>)
qed

lemma adopt_registry_placed:
  assumes "adopt_registry regs ordered exposed remaining = Inr (ordered', exposed', remaining')"
    and "placed declared ordered exposed (remains remaining)" "distinct (map ks_name declared)"
    and "\<forall>d \<in> set declared. \<not> destroyed d"
  shows "placed declared ordered' exposed' (remains remaining')
    \<and> (\<exists>added. ordered' = ordered @ added \<and> length added = length regs
        \<and> (\<forall>i < length regs. same_layout (added ! i) (regs ! i)))"
  using assms(1,2)
proof (induction regs arbitrary: ordered exposed remaining)
  case (Cons r regs)
  let ?i = "of_nat (length ordered) :: key_space"
  have lt: "length ordered < 255" using Cons.prems(1) by (auto simp: next_id_def assertr_def split: if_splits)
  have step: ?case
    if "adopt_registry regs (ordered @ [with_id ?i x]) ex rem = Inr (ordered', exposed', remaining')"
      "placed declared (ordered @ [with_id ?i x]) ex (remains rem)" "same_layout x r" for x ex rem
  proof -
    from Cons.IH [OF that(1,2)] obtain added where a: "placed declared ordered' exposed' (remains remaining')"
        "ordered' = (ordered @ [with_id ?i x]) @ added" "length added = length regs"
        "\<forall>i < length regs. same_layout (added ! i) (regs ! i)" by blast
    then show ?thesis
      using that(3) by (intro conjI exI [of _ "with_id ?i x # added"]) (auto simp: nth_Cons split: nat.split)
  qed
  show ?case
  proof (cases "destroyed r \<or> take_declared remaining (ks_name r) = None")
    case True
    then show ?thesis
      using step [of r exposed remaining] Cons.prems placed_keep [OF Cons.prems(2) lt] lt
      by (auto simp: next_id_def split: if_splits)
  next
    case False
    then obtain d rem where d: "take_declared remaining (ks_name r) = Some (d, rem)" by auto
    obtain us vs where uv: "remains remaining = us @ d # vs" "remains rem = us @ vs" "ks_name d = ks_name r"
      using take_declared_Some [OF d] by blast
    have "\<not> destroyed d" using Cons.prems(2) assms(4) uv(1) by (auto simp: placed_def)
    then have "same_layout d r"
      using Cons.prems(1) False d lt uv(3) by (auto simp: next_id_def assert_layout_matches_def split: if_splits)
    then show ?thesis
      using step [of d "(ks_name d, ?i) # exposed" rem] Cons.prems(1) False d lt uv
        placed_take [OF Cons.prems(2) [unfolded uv(1)] lt assms(3)]
      by (auto simp: next_id_def assert_layout_matches_def split: if_splits)
  qed
qed simp

lemma append_declared_placed:
  assumes "append_declared ds ordered exposed changed = Inr (ordered', exposed', changed')"
    and "placed declared ordered exposed ds" "distinct (map ks_name declared)"
  shows "placed declared ordered' exposed' [] \<and> (\<exists>added. ordered' = ordered @ added \<and> length added = length ds)
    \<and> (changed' \<longleftrightarrow> changed \<or> ds \<noteq> [])"
  using assms(1,2)
proof (induction ds arbitrary: ordered exposed changed)
  case (Cons d ds)
  let ?i = "of_nat (length ordered) :: key_space"
  have lt: "length ordered < 255"
    and r: "append_declared ds (ordered @ [with_id ?i d]) ((ks_name d, ?i) # exposed) True = Inr (ordered', exposed', changed')"
    using Cons.prems(1) by (auto simp: next_id_def assertr_def split: if_splits)
  have "placed declared (ordered @ [with_id ?i d]) ((ks_name d, ?i) # exposed) ds"
    using placed_take [of declared ordered exposed "[]" d ds] Cons.prems(2) lt assms(3) by simp
  from Cons.IH [OF r this] show ?case by auto
qed simp

section \<open>Properties\<close>

definition demo_uniform :: key_space_desc where
  "demo_uniform = \<lparr>ks_id = 0, ks_name = ''u'', ks_indexing = Fixed 6, mutexes = 16,
     ks_type = Uniform \<lparr>cells_per_mutex = 8\<rparr>, config = config_default, destroyed = False\<rparr>"

definition demo_prefixed :: key_space_desc where
  "demo_prefixed = \<lparr>ks_id = 0, ks_name = ''p'', ks_indexing = Fixed 6, mutexes = 16,
     ks_type = PrefixedUniform \<lparr>prefix_len_bytes = 2, cluster_bits_count = 4, reset_mask = 0xF0\<rparr>,
     config = config_default, destroyed = False\<rparr>"

lemma demo_ok: "ks_ok demo_uniform" "ks_ok demo_prefixed"
proof -
  have "\<exists>e < 64. (16 :: nat) = 2 ^ e" by (rule exI [of _ 4]) simp
  moreover have "\<exists>e < 64. (8 :: nat) = 2 ^ e" by (rule exI [of _ 3]) simp
  ultimately show "ks_ok demo_uniform" "ks_ok demo_prefixed"
    by (simp_all add: ks_ok_def demo_uniform_def demo_prefixed_def is_power_of_two_def num_cells_def)
qed

text \<open>C21. Keys map to cells in key order, and the prefix of a key falls in the prefix range of its cell: a
  larger key never lies in a smaller cell, so visiting the cells in order visits the keys in order,
  and the offset of a key inside its cell is well defined.\<close>

theorem keys_route_in_order:
  assumes "ks_ok ks" "cell_id_of ks k = Inr c" "cell_id_of ks k' = Inr c'" "k \<le> k'"
  shows "(cell_cmp c c' = Inr Less \<or> c = c')
    \<and> (\<exists>lo hi p. index_prefix_range ks c = Inr (lo, hi) \<and> index_prefix_u32 ks k = Inr p
         \<and> lo \<le> ucast p \<and> ucast p < hi \<and> hi \<le> MAX_U32_PLUS_ONE)"
  using cells_ordered [OF assms(1,4,2,3)] prefix_in_cell [OF assms(1,2)]
  by (auto simp: word_le_nat_alt word_less_nat_alt MAX_U32_PLUS_ONE_def)

theorem keys_route_in_order_witness:
  "cell_id_of demo_uniform [3, 0, 0, 0, 0, 0] = Inr (Integer 1) \<and> cell_id_of demo_uniform [4, 1, 0, 0, 0, 0] = Inr (Integer 2)
   \<and> cell_cmp (Integer 1) (Integer 2) = Inr Less
   \<and> (\<exists>lo hi p. index_prefix_range demo_uniform (Integer 1) = Inr (lo, hi)
        \<and> index_prefix_u32 demo_uniform [3, 0, 0, 0, 0, 0] = Inr p \<and> lo \<le> ucast p \<and> ucast p < hi)"
proof -
  have c: "cell_id_of demo_uniform [3, 0, 0, 0, 0, 0] = Inr (Integer 1)" "cell_id_of demo_uniform [4, 1, 0, 0, 0, 0] = Inr (Integer 2)"
    using uniform_cell_id [of demo_uniform "\<lparr>cells_per_mutex = 8\<rparr>" 7]
    by (simp_all add: demo_uniform_def num_cells_def unat_starting_u32 zero_padded_def be_decode_Cons take_Cons')
  have "[3, 0, 0, 0, 0, 0] \<le> ([4, 1, 0, 0, 0, 0] :: bytes)" by simp
  from keys_route_in_order [OF demo_ok(1) c this] c show ?thesis by auto
qed

text \<open>C22. A cell holds exactly the keys of its key range: for keys of the key space's length, the first
  and last key \<open>cell_range\<close> returns bound the keys of the cell and no others.\<close>

theorem cell_range_exact:
  assumes "ks_ok ks" "valid_cell ks cell" "index_key_size ks = Some n" "CELL_PREFIX_LENGTH \<le> n"
    and "verify_key_size (ks_type ks) (Some n) = Inr ()"
  shows "\<exists>first last. cell_range ks cell = Inr (first, last) \<and> length first = n \<and> length last = n
    \<and> (\<forall>k. length k = n \<longrightarrow> (cell_id_of ks k = Inr cell \<longleftrightarrow> first \<le> k \<and> k \<le> last))"
proof -
  have "\<exists>m lo hi. m \<le> n \<and> cell_range ks cell = Inr (lo @ replicate (n - m) 0, hi @ replicate (n - m) 0xFF)
      \<and> length lo = m \<and> length hi = m
      \<and> (\<forall>k. length k = n \<longrightarrow> (cell_id_of ks k = Inr cell \<longleftrightarrow> lo \<le> take m k \<and> take m k \<le> hi))"
  proof (cases "ks_type ks")
    case (Uniform u)
    show ?thesis using uniform_cell_range [OF assms(1) Uniform assms(2,3)] assms(4) by (auto simp: CELL_PREFIX_LENGTH_def)
  next
    case (PrefixedUniform u)
    have "prefix_len_bytes u \<le> n" using assms(5) PrefixedUniform by (auto simp: verify_key_size_def assertr_def split: if_splits)
    then show ?thesis using prefixed_cell_range [OF assms(1) PrefixedUniform assms(2,3)] by blast
  qed
  then obtain m lo hi where m: "m \<le> n" "cell_range ks cell = Inr (lo @ replicate (n - m) 0, hi @ replicate (n - m) 0xFF)"
      "length lo = m" "length hi = m"
      "\<And>k. length k = n \<Longrightarrow> (cell_id_of ks k = Inr cell \<longleftrightarrow> lo \<le> take m k \<and> take m k \<le> hi)" by blast
  then show ?thesis using padded_bounds [OF m(3)] padded_bounds [OF m(4)] by auto
qed

theorem cell_range_exact_witness:
  "cell_range demo_prefixed (Bytes [7, 0x30]) = Inr ([7, 0x30, 0, 0, 0, 0], [7, 0x3F, 0xFF, 0xFF, 0xFF, 0xFF])
   \<and> cell_id_of demo_prefixed [7, 0x3A, 1, 2, 3, 4] = Inr (Bytes [7, 0x30])
   \<and> cell_id_of demo_prefixed [7, 0x40, 0, 0, 0, 0] \<noteq> Inr (Bytes [7, 0x30])"
proof -
  have r: "cell_range demo_prefixed (Bytes [7, 0x30]) = Inr ([7, 0x30, 0, 0, 0, 0], [7, 0x3F, 0xFF, 0xFF, 0xFF, 0xFF])"
    by code_simp
  have v: "valid_cell demo_prefixed (Bytes [7, 0x30])" "index_key_size demo_prefixed = Some 6"
      "CELL_PREFIX_LENGTH \<le> 6" "verify_key_size (ks_type demo_prefixed) (Some 6) = Inr ()" by code_simp+
  have i: "cell_id_of demo_prefixed k = Inr (Bytes [7, 0x30]) \<longleftrightarrow>
      [7, 0x30, 0, 0, 0, 0] \<le> k \<and> k \<le> [7, 0x3F, 0xFF, 0xFF, 0xFF, 0xFF]" if "length k = 6" for k
    using cell_range_exact [OF demo_ok(2) v] r that by auto
  show ?thesis using r i [of "[7, 0x3A, 1, 2, 3, 4]"] i [of "[7, 0x40, 0, 0, 0, 0]"] by simp
qed

text \<open>C23. Key space ids never move: reconciling a declared shape with the registry keeps every registered
  key space at its position with its name, layout and tombstone flag, gives every key space its
  position as id, and hands out for each declared name the id under which the declared descriptor
  is stored; the registry changes exactly when key spaces were appended.\<close>

theorem canonical_ids_stable:
  assumes "reorder_to_canonical declared registry = Inr (shape, names, changed)"
    and "distinct (map ks_name declared)" "list_all (\<lambda>d. \<not> destroyed d) declared"
  defines "reg \<equiv> (case registry of None \<Rightarrow> [] | Some r \<Rightarrow> r)"
  shows "length reg \<le> length shape \<and> length shape \<le> 255
    \<and> (\<forall>i < length reg. same_layout (shape ! i) (reg ! i))
    \<and> (\<forall>i < length shape. ks_id (shape ! i) = of_nat i)
    \<and> (\<forall>d \<in> set declared. \<exists>i < length shape. try_ks names (ks_name d) = Some (of_nat i) \<and> shape ! i = with_id (of_nat i) d)
    \<and> (changed \<longleftrightarrow> length reg < length shape)"
proof -
  obtain ordered exposed remaining where a: "adopt_registry reg [] [] (map Some declared) = Inr (ordered, exposed, remaining)"
      and b: "append_declared (remains remaining) ordered exposed False = Inr (shape, names, changed)"
    using assms(1) by (auto simp: reorder_to_canonical_def reg_def bindr_Inr_iff)
  have r: "remains (map Some declared) = declared" by (induction declared) (simp_all add: map_filter_simps)
  have "placed declared [] [] (remains (map Some declared))" using assms(2) unfolding r by (simp add: placed_def)
  from adopt_registry_placed [OF a this assms(2)] assms(3) obtain added where
      p: "placed declared ordered exposed (remains remaining)" and o: "ordered = added" "length added = length reg"
        "\<forall>i < length reg. same_layout (added ! i) (reg ! i)" by (auto simp: list_all_iff)
  from append_declared_placed [OF b p assms(2)] obtain more where
      q: "placed declared shape names []" "shape = ordered @ more" "length more = length (remains remaining)"
        "changed \<longleftrightarrow> remains remaining \<noteq> []" by auto
  show ?thesis
    using q o by (auto simp: placed_def nth_append try_ks_def)
qed

theorem canonical_ids_stable_witness:
  "\<exists>shape names. reorder_to_canonical [demo_prefixed] (Some [demo_uniform]) = Inr (shape, names, True)
     \<and> ks_name (shape ! 0) = ''u'' \<and> try_ks names ''p'' = Some 1 \<and> ks_id (shape ! 1) = 1"
proof -
  obtain shape names where r: "reorder_to_canonical [demo_prefixed] (Some [demo_uniform]) = Inr (shape, names, True)"
    by (simp add: reorder_to_canonical_def next_id_def demo_uniform_def demo_prefixed_def map_filter_simps)
  note s = canonical_ids_stable [OF r]
  have "length shape = 2 \<and> try_ks names ''p'' = Some 1"
    using r by (auto simp: reorder_to_canonical_def next_id_def demo_uniform_def demo_prefixed_def map_filter_simps try_ks_def)
  then show ?thesis using r s by (auto simp: demo_uniform_def demo_prefixed_def)
qed

end
