(* ===== verification/Index_Codec.thy ===== *)
theory Index_Codec
  imports Index_Merge Key_Shape Var_Int
begin

text \<open>
  Serialization of an index table (\<open>tidehunter/src/index/index_table/mod.rs\<close>): the entry stream both
  blob formats are made of, and its deserialization. A tombstone is written as the invalid position
  and read back as a removed entry. The lemmas show that reading what was written gives a table
  with the same lookups.
\<close>

section \<open>Writing\<close>

text \<open>The visitor of \<open>IndexSerializationVisitor\<close> is its state and its \<open>add_key\<close>.\<close>

definition write_key_val :: "key_space_desc \<Rightarrow> ('v \<Rightarrow> bytes \<Rightarrow> usize \<Rightarrow> 'v res) \<Rightarrow> bytes \<Rightarrow> wal_position
    \<Rightarrow> bytes \<times> 'v \<Rightarrow> (bytes \<times> 'v) res" where
  "write_key_val ks add_key key pos acc =
     (let (out, v) = acc in
      bindr (add_key v key (length out)) (\<lambda>v'.
      bindr (case index_key_size ks of
               Some expected_size \<Rightarrow> if length key \<noteq> expected_size then Inl ExplicitPanic else Inr []
             | None \<Rightarrow>
                 if unat MAX_U16_VARINT < length key then Inl ExplicitPanic
                 else serialize_u16_varint (of_nat (length key))) (\<lambda>pre.
        Inr (out @ pre @ key @ wp_write_to_buf pos, v'))))"

fun write_entries :: "key_space_desc \<Rightarrow> ('v \<Rightarrow> bytes \<Rightarrow> usize \<Rightarrow> 'v res) \<Rightarrow> entry list
    \<Rightarrow> bytes \<times> 'v \<Rightarrow> (bytes \<times> 'v) res" where
  "write_entries ks add_key [] acc = Inr acc"
| "write_entries ks add_key ((k, v) # es) acc =
     (let pos = (if is_removed v then WAL_INVALID else into_update_position v)
      in bindr (write_key_val ks add_key k pos acc) (write_entries ks add_key es))"

definition serialize_index_entries_with_visitor ::
    "index_table \<Rightarrow> key_space_desc \<Rightarrow> ('v \<Rightarrow> bytes \<Rightarrow> usize \<Rightarrow> 'v res) \<Rightarrow> bytes \<times> 'v \<Rightarrow> (bytes \<times> 'v) res" where
  "serialize_index_entries_with_visitor t ks add_key acc =
     bindr (if flat t = [] then data_iter_latest t else iter_combined t) (\<lambda>es. write_entries ks add_key es acc)"

definition serialize_index_entries :: "index_table \<Rightarrow> key_space_desc \<Rightarrow> bytes \<Rightarrow> bytes res" where
  "serialize_index_entries t ks out =
     bindr (serialize_index_entries_with_visitor t ks (\<lambda>v _ _. Inr v) (out, ())) (\<lambda>(out, _). Inr out)"

section \<open>Reading\<close>

definition loaded_table :: "bytes \<Rightarrow> usize option \<Rightarrow> index_table" where
  "loaded_table fl ks = \<lparr>data = [], key_bytes = 0, dirty_count = 0, flat = fl, key_size = ks\<rparr>"

function chunks_exact :: "nat \<Rightarrow> 'a list \<Rightarrow> 'a list list" where
  "chunks_exact n xs = (if n = 0 \<or> length xs < n then [] else take n xs # chunks_exact n (drop n xs))"
  by auto
termination by (relation "measure (\<lambda>(n, xs). length xs)") auto

declare chunks_exact.simps [simp del]

text \<open>The validation pass: keys strictly ascend; reports whether a tombstone was seen.\<close>

fun scan_chunks :: "usize \<Rightarrow> bytes option \<Rightarrow> bytes list \<Rightarrow> bool \<Rightarrow> bool res" where
  "scan_chunks ks prev_key [] has_tombstone = Inr has_tombstone"
| "scan_chunks ks prev_key (chunk # cs) has_tombstone =
     bindr (slice_r chunk 0 ks) (\<lambda>key.
     bindr (case prev_key of
              None \<Rightarrow> Inr ()
            | Some prev \<Rightarrow> if prev < key then Inr () else Inl ExplicitPanic) (\<lambda>_.
     bindr (from_be_at 8 chunk ks) (\<lambda>offset :: u64.
       scan_chunks ks (Some key) cs (has_tombstone \<or> offset = u64_MAX))))"

text \<open>The decoding loops over a \<open>SliceBuf\<close>.\<close>

definition slice_n :: "nat \<Rightarrow> bytes \<Rightarrow> (bytes \<times> bytes) res" where
  "slice_n n sb = bindr (slice_r sb 0 n) (\<lambda>k. Inr (k, drop n sb))"

lemma slice_n_le: "slice_n n sb = Inr (k, sb') \<Longrightarrow> length sb' \<le> length sb"
  by (auto simp: slice_n_def bindr_Inr_iff)

lemma wp_read_shorter: "wp_read_from_buf sb = Inr (p, sb') \<Longrightarrow> length sb' < length sb"
  by (auto simp: wp_read_from_buf_def bindr_Inr_iff get_u64_def get_u32_def get_be_def slice_r_def split: if_splits prod.splits)

function read_fixed :: "usize \<Rightarrow> bytes \<Rightarrow> entry list res" where
  "read_fixed ks sb =
     (if sb = [] then Inr []
      else case slice_n ks sb of
             Inl p \<Rightarrow> Inl p
           | Inr (key, sb1) \<Rightarrow>
               (case wp_read_from_buf sb1 of
                  Inl p \<Rightarrow> Inl p
                | Inr (value, sb2) \<Rightarrow> bindr (read_fixed ks sb2) (\<lambda>es. Inr ((key, from_disk value) # es))))"
  by auto
termination by (relation "measure (\<lambda>(ks, sb). length sb)") (auto dest!: slice_n_le wp_read_shorter)

declare read_fixed.simps [simp del]

definition deserialize_fixed_size :: "usize \<Rightarrow> bytes \<Rightarrow> index_table res" where
  "deserialize_fixed_size ks b =
     (let elem_size = ks + WAL_POSITION_LENGTH in
      assertr (length b mod elem_size = 0)
        (bindr (scan_chunks ks None (chunks_exact elem_size b) False) (\<lambda>has_tombstone.
           if \<not> has_tombstone then Inr (loaded_table b (Some ks))
           else
             bindr (read_fixed ks b) (\<lambda>entries.
             bindr (build_flat_bytes entries (Some ks)) (\<lambda>fl. Inr (loaded_table fl (Some ks)))))))"

lemma varint_le: "deserialize_u16_varint sb = Inr (n, sb') \<Longrightarrow> length sb' \<le> length sb"
  by (auto simp: deserialize_u16_varint_def Let_def split: list.splits if_splits)

function read_varlen :: "bytes option \<Rightarrow> bytes \<Rightarrow> entry list res" where
  "read_varlen prev sb =
     (if sb = [] then Inr []
      else case deserialize_u16_varint sb of
             Inl p \<Rightarrow> Inl p
           | Inr (key_len, sb1) \<Rightarrow>
               (case slice_n (unat key_len) sb1 of
                  Inl p \<Rightarrow> Inl p
                | Inr (key, sb2) \<Rightarrow>
                    (case wp_read_from_buf sb2 of
                       Inl p \<Rightarrow> Inl p
                     | Inr (value, sb3) \<Rightarrow>
                         if (case prev of None \<Rightarrow> True | Some prev_key \<Rightarrow> prev_key < key)
                         then bindr (read_varlen (Some key) sb3) (\<lambda>es. Inr ((key, from_disk value) # es))
                         else Inl ExplicitPanic)))"
  by auto
termination
  by (relation "measure (\<lambda>(prev, sb). length sb)") (auto dest!: slice_n_le wp_read_shorter varint_le)

declare read_varlen.simps [simp del]

definition deserialize_varlen :: "bytes \<Rightarrow> index_table res" where
  "deserialize_varlen b =
     bindr (read_varlen None b) (\<lambda>entries.
     bindr (build_flat_bytes entries None) (\<lambda>fl. Inr (loaded_table fl None)))"

definition deserialize_index_entries :: "key_space_desc \<Rightarrow> bytes \<Rightarrow> index_table res" where
  "deserialize_index_entries ks b =
     (case index_key_size ks of Some n \<Rightarrow> deserialize_fixed_size n b | None \<Rightarrow> deserialize_varlen b)"

section \<open>The stream of a table\<close>

text \<open>What is written for an entry.\<close>

definition disk_bytes :: "key_space_desc \<Rightarrow> bytes \<times> wal_position \<Rightarrow> bytes" where
  "disk_bytes ks e =
     (case index_key_size ks of Some _ \<Rightarrow> [] | None \<Rightarrow> varint_bytes (of_nat (length (fst e))))
     @ fst e @ wp_write_to_buf (snd e)"

definition key_fits :: "key_space_desc \<Rightarrow> bytes \<Rightarrow> bool" where
  "key_fits ks k = (case index_key_size ks of Some n \<Rightarrow> length k = n | None \<Rightarrow> length k \<le> unat MAX_U16_VARINT)"

text \<open>The calls the visitor sees.\<close>

fun visit :: "key_space_desc \<Rightarrow> ('v \<Rightarrow> bytes \<Rightarrow> usize \<Rightarrow> 'v res) \<Rightarrow> (bytes \<times> wal_position) list \<Rightarrow> usize \<Rightarrow> 'v \<Rightarrow> 'v res" where
  "visit ks add_key [] off v = Inr v"
| "visit ks add_key (e # es) off v =
     bindr (add_key v (fst e) off) (\<lambda>v'. visit ks add_key es (off + length (disk_bytes ks e)) v')"

lemma write_key_val_eq:
  assumes "key_fits ks k"
  shows "write_key_val ks add_key k p (out, v) =
    bindr (add_key v k (length out)) (\<lambda>v'. Inr (out @ disk_bytes ks (k, p), v'))"
proof (cases "index_key_size ks")
  case None
  then have le: "length k \<le> unat MAX_U16_VARINT" using assms by (simp add: key_fits_def)
  then have "unat (of_nat (length k) :: u16) = length k" by (simp add: unat_of_nat MAX_U16_VARINT_def)
  then have "(of_nat (length k) :: u16) \<le> MAX_U16_VARINT" using le by (simp add: word_le_nat_alt)
  then show ?thesis using None le by (simp add: write_key_val_def disk_bytes_def serialize_u16_varint_ok not_less)
next
  case (Some n)
  then show ?thesis using assms by (simp add: write_key_val_def disk_bytes_def key_fits_def)
qed

lemma observed_eq: "observed (k, v) = (k, if is_removed v then WAL_INVALID else into_update_position v)"
  by (simp add: observed_def into_wal_position_removed into_wal_position_live)

lemma write_entries_eq:
  "list_all (\<lambda>e. key_fits ks (fst e)) es \<Longrightarrow> write_entries ks add_key es (out, v) =
     bindr (visit ks add_key (map observed es) (length out) v) (\<lambda>v'.
       Inr (out @ concat (map (disk_bytes ks) (map observed es)), v'))"
proof (induction es arbitrary: out v)
  case (Cons e es)
  obtain k w where e: "e = (k, w)" by (cases e)
  have fit: "key_fits ks k" "list_all (\<lambda>e. key_fits ks (fst e)) es" using Cons.prems e by simp_all
  have o: "observed (k, w) = (k, if is_removed w then WAL_INVALID else into_update_position w)" by (rule observed_eq)
  show ?case
    unfolding e write_entries.simps Let_def write_key_val_eq [OF fit(1)]
    by (cases "add_key v k (length out)") (simp_all add: o Cons.IH [OF fit(2)])
qed simp

lemma serialize_eq:
  assumes "table_wf t" "list_all (\<lambda>e. key_fits ks (fst e)) (combined t)"
  shows "serialize_index_entries_with_visitor t ks add_key (out, v) =
     bindr (visit ks add_key (map observed (combined t)) (length out) v) (\<lambda>v'.
       Inr (out @ concat (map (disk_bytes ks) (map observed (combined t))), v'))"
proof -
  have "(if flat t = [] then data_iter_latest t else iter_combined t) = Inr (combined t)"
  proof (cases "flat t = []")
    case True
    have "flat_entries t = []" using assms(1) True by (simp add: table_wf_def flat_wf_def flat_view_def)
    then show ?thesis
      using True assms(1) data_latest_per_key_eq [of "data t"] overlay_okD(2) [of "data t"]
      by (simp add: data_iter_latest_def combined_def table_wf_def)
  qed (simp add: iter_eq(1) [OF assms(1)])
  then show ?thesis using write_entries_eq [OF assms(2)] by (simp add: serialize_index_entries_with_visitor_def)
qed

lemma visit_unit [simp]: "visit ks (\<lambda>v _ _. Inr ()) es off v = Inr ()"
  by (induction es arbitrary: off) auto

section \<open>Reading back\<close>

definition reload :: "bytes \<times> wal_position \<Rightarrow> entry" where
  "reload e = (fst e, from_disk (snd e))"

text \<open>The positions the buffer format can hold: tombstones, and positions below the offset that marks
  one, of a length that leaves room for the kind.\<close>

definition pos_ok :: "wal_position \<Rightarrow> bool" where
  "pos_ok p \<longleftrightarrow> p = WAL_INVALID \<or> wp_offset p \<noteq> u64_MAX \<and> wp_len p < 0x40000000"

lemma reload_len_ok: "pos_ok (snd e) \<Longrightarrow> len_ok (snd (reload e))"
  by (auto simp: pos_ok_def len_ok_def reload_def from_disk_def new_clean_def)

lemma wp_write_nonempty [simp]: "wp_write_to_buf p \<noteq> []"
  by (metis length_0_conv length_wp_write_to_buf WAL_POSITION_LENGTH_def zero_neq_numeral)

lemma slice_n_append: "length k = n \<Longrightarrow> slice_n n (k @ r) = Inr (k, r)"
  by (auto simp: slice_n_def slice_r_def)

lemma read_fixed_eq:
  "list_all (\<lambda>e. length (fst e) = n) es \<Longrightarrow>
     read_fixed n (concat (map (\<lambda>e. fst e @ wp_write_to_buf (snd e)) es)) = Inr (map reload es)"
proof (induction es)
  case (Cons e es)
  then have "slice_n n (fst e @ wp_write_to_buf (snd e) @ r) = Inr (fst e, wp_write_to_buf (snd e) @ r)" for r
    by (intro slice_n_append) simp
  then show ?case using Cons by (subst read_fixed.simps) (simp add: reload_def)
qed (simp add: read_fixed.simps)

lemma read_varlen_eq:
  assumes "index_key_size ks = None" "list_all (\<lambda>e. key_fits ks (fst e)) es" "sm_wf es"
    and "\<And>p e. prev = Some p \<Longrightarrow> e \<in> set es \<Longrightarrow> p < fst e"
  shows "read_varlen prev (concat (map (disk_bytes ks) es)) = Inr (map reload es)"
  using assms(2-4)
proof (induction es arbitrary: prev)
  case (Cons e es)
  have fit: "key_fits ks (fst e)" using Cons.prems by simp
  then have n: "unat (of_nat (length (fst e)) :: u16) = length (fst e)"
    using assms(1) by (simp add: key_fits_def unat_of_nat MAX_U16_VARINT_def)
  then have ok: "(of_nat (length (fst e)) :: u16) \<le> MAX_U16_VARINT"
    using fit assms(1) by (simp add: key_fits_def word_le_nat_alt)
  have ne: "disk_bytes ks e \<noteq> []" by (simp add: disk_bytes_def)
  have de: "deserialize_u16_varint (disk_bytes ks e @ r) = Inr (of_nat (length (fst e)), fst e @ wp_write_to_buf (snd e) @ r)" for r
    using deserialize_varint_bytes [OF ok] assms(1) by (simp add: disk_bytes_def)
  have lt: "fst e < fst x" if "x \<in> set es" for x using Cons.prems(2) that by (cases e) auto
  have wf: "sm_wf es" using Cons.prems(2) by (cases e) auto
  have pv: "case prev of None \<Rightarrow> True | Some p \<Rightarrow> p < fst e" using Cons.prems(3) by (auto split: option.split)
  have IH: "read_varlen (Some (fst e)) (concat (map (disk_bytes ks) es)) = Inr (map reload es)"
    using Cons.prems(1) lt wf by (intro Cons.IH) auto
  show ?case
    by (subst read_varlen.simps) (simp add: ne de n slice_n_append pv IH, simp add: reload_def)
qed (simp add: read_varlen.simps)

lemma chunks_concat:
  "0 < n \<Longrightarrow> \<forall>x \<in> set xs. length x = n \<Longrightarrow> chunks_exact n (concat xs) = xs"
proof (induction xs)
  case Nil
  then show ?case by (subst chunks_exact.simps) simp
next
  case (Cons x xs)
  then show ?case by (subst chunks_exact.simps) auto
qed

lemma scan_chunks_eq:
  assumes "sm_wf es" "list_all (\<lambda>e. length (fst e) = n) es"
    and "\<And>p e. prev = Some p \<Longrightarrow> e \<in> set es \<Longrightarrow> p < fst e"
  shows "scan_chunks n prev (map (\<lambda>e. fst e @ wp_write_to_buf (snd e)) es) b
    = Inr (b \<or> list_ex (\<lambda>e. wp_offset (snd e) = u64_MAX) es)"
  using assms
proof (induction es arbitrary: prev b)
  case (Cons e es)
  have o: "from_be_at 8 (fst e @ wp_write_to_buf (snd e)) n = Inr (wp_offset (snd e))"
    using Cons.prems(2) from_be_at_put(3) [of n "fst e" "wp_offset (snd e)" "put_u32 (wp_len (snd e))"]
    by (simp add: wp_write_to_buf_def)
  have k: "slice_r (fst e @ wp_write_to_buf (snd e)) 0 n = Inr (fst e)" using Cons.prems(2) by (auto simp: slice_r_def)
  have c: "(case prev of None \<Rightarrow> Inr () | Some p \<Rightarrow> if p < fst e then Inr () else Inl ExplicitPanic) = Inr ()"
    using Cons.prems(3) by (auto split: option.split)
  have lt: "fst e < fst x" if "x \<in> set es" for x using Cons.prems(1) that by (cases e) auto
  have wf: "sm_wf es" using Cons.prems(1) by (cases e) auto
  have IH: "scan_chunks n (Some (fst e)) (map (\<lambda>e. fst e @ wp_write_to_buf (snd e)) es) b'
      = Inr (b' \<or> list_ex (\<lambda>e. wp_offset (snd e) = u64_MAX) es)" for b'
    using Cons.prems(2) lt wf by (intro Cons.IH) auto
  show ?case by (simp add: o k c IH disj_assoc)
qed simp

lemma reload_fixed_bytes:
  assumes "pos_ok (snd e)" "wp_offset (snd e) \<noteq> u64_MAX"
  shows "fixed_bytes (reload e) = fst e @ wp_write_to_buf (snd e)"
  using assms
  by (cases e; cases "snd e") (auto simp: reload_def from_disk_def new_clean_def WAL_INVALID_def encoded_len_def wp_write_to_buf_def)

lemma sm_wf_reload [simp]: "sm_wf (map reload es) \<longleftrightarrow> sm_wf es"
  by (rule sm_wf_map_keys) (simp add: reload_def)

lemma map_of_reload: "map_of (map reload es) k = map_option from_disk (map_of es k)"
  by (induction es) (auto simp: reload_def)

lemma loaded_wf:
  assumes "flat_view ks fl es" "sm_wf es" "flat_ok ks es"
  shows "table_wf (loaded_table fl ks)" "flat_entries (loaded_table fl ks) = es" "data (loaded_table fl ks) = []"
  using assms flat_entries_eq [of "loaded_table fl ks" es] flat_wfI [of "loaded_table fl ks" es]
  by (simp_all add: loaded_table_def table_wf_def overlay_ok_def)

lemma deserialize_eq:
  assumes "sm_wf es" "list_all (\<lambda>e. key_fits ks (fst e)) es" "list_all (\<lambda>e. pos_ok (snd e)) es"
    and "flat_ok (index_key_size ks) (map reload es)"
  shows "\<exists>t. deserialize_index_entries ks (concat (map (disk_bytes ks) es)) = Inr t \<and> table_wf t
    \<and> data t = [] \<and> flat_entries t = map reload es \<and> key_size t = index_key_size ks \<and> dirty_count t = 0"
proof (cases "index_key_size ks")
  case None
  obtain fl where "build_flat_bytes (map reload es) None = Inr fl" "flat_view None fl (map reload es)"
    using build_flat_view [of None] assms(4) None by auto
  then show ?thesis
    using None read_varlen_eq [OF None assms(2,1), of None] loaded_wf [of None fl "map reload es"] assms(1,4)
    by (auto simp: deserialize_index_entries_def deserialize_varlen_def) (simp_all add: loaded_table_def)
next
  case (Some n)
  have db: "disk_bytes ks = (\<lambda>e. fst e @ wp_write_to_buf (snd e))" using Some by (simp add: disk_bytes_def fun_eq_iff)
  have kn: "list_all (\<lambda>e. length (fst e) = n) es" using assms(2) Some by (simp add: key_fits_def)
  let ?b = "concat (map (disk_bytes ks) es)"
  have len: "\<forall>x \<in> set (map (disk_bytes ks) es). length x = n + 12"
    using kn by (auto simp: db list_all_iff WAL_POSITION_LENGTH_def)
  have scan: "scan_chunks n None (chunks_exact (n + 12) ?b) False = Inr (list_ex (\<lambda>e. wp_offset (snd e) = u64_MAX) es)"
    using chunks_concat [OF _ len] scan_chunks_eq [OF assms(1) kn, of None False] by (simp add: db)
  have mod: "length ?b mod (n + 12) = 0" using length_concat_fixed [OF len] by simp
  show ?thesis
  proof (cases "list_ex (\<lambda>e. wp_offset (snd e) = u64_MAX) es")
    case True
    obtain fl where "build_flat_bytes (map reload es) (Some n) = Inr fl" "flat_view (Some n) fl (map reload es)"
      using build_flat_view [of "Some n"] assms(4) Some by auto
    then show ?thesis
      using True scan mod Some read_fixed_eq [OF kn] loaded_wf [of "Some n" fl "map reload es"] assms(1,4)
      by (auto simp: deserialize_index_entries_def deserialize_fixed_size_def WAL_POSITION_LENGTH_def db)
        (simp_all add: loaded_table_def)
  next
    case False
    have "map fixed_bytes (map reload es) = map (disk_bytes ks) es"
      using False assms(3) reload_fixed_bytes by (auto simp: db list_all_iff list_ex_iff)
    then have "flat_view (Some n) ?b (map reload es)"
      using fixed_view [of n "map reload es"] assms(4) Some by (simp only: )
    then show ?thesis
      using False scan mod Some loaded_wf [of "Some n" ?b "map reload es"] assms(1,4)
      by (auto simp: deserialize_index_entries_def deserialize_fixed_size_def WAL_POSITION_LENGTH_def)
        (simp_all add: loaded_table_def)
  qed
qed

section \<open>Properties\<close>

text \<open>The tables whose stream can be read back.\<close>

definition storable :: "key_space_desc \<Rightarrow> index_table \<Rightarrow> bool" where
  "storable ks t \<longleftrightarrow> list_all (\<lambda>e. key_fits ks (fst e)) (combined t)
     \<and> list_all (\<lambda>e. pos_ok (into_wal_position (snd e))) (combined t)
     \<and> flat_ok (index_key_size ks) (map reload (map observed (combined t)))"

lemma sm_wf_combined: "table_wf t \<Longrightarrow> sm_wf (combined t)"
  by (auto simp: combined_def table_wf_def flat_wf_def overlay_ok_def intro: sm_wf_merge_over)

lemma sm_wf_observed [simp]: "sm_wf (map observed es) \<longleftrightarrow> sm_wf es"
  by (rule sm_wf_map_keys) (simp add: observed_def)

lemma map_of_observed: "map_of (map observed es) k = map_option into_wal_position (map_of es k)"
  by (induction es) (auto simp: observed_def)

lemma live_map_of_combined: "table_wf t \<Longrightarrow> map_of (combined t) k = live t k"
  using map_of_merge_over [of "flat_entries t" "latest (data t)"]
  by (auto simp: combined_def live_def table_wf_def flat_wf_def overlay_ok_def map_add_def map_of_latest split: option.splits)

lemma stored_entries:
  assumes "table_wf t" "storable ks t"
  shows "serialize_index_entries t ks out = Inr (out @ concat (map (disk_bytes ks) (map observed (combined t))))"
proof -
  have fit: "list_all (\<lambda>e. key_fits ks (fst e)) (combined t)" using assms(2) by (simp add: storable_def)
  show ?thesis unfolding serialize_index_entries_def serialize_eq [OF assms(1) fit] by simp
qed

text \<open>C24. Round trip of the index stream: reading back what was serialized gives a well-formed table
  with an empty overlay whose lookups return what the lookups of the original returned,
  tombstones included.\<close>

theorem index_stream_roundtrip:
  assumes "table_wf t" "storable ks t"
  shows "\<exists>b t'. serialize_index_entries t ks [] = Inr b \<and> deserialize_index_entries ks b = Inr t'
    \<and> table_wf t' \<and> data t' = [] \<and> (\<forall>k. index_get t' k = index_get t k)"
proof -
  let ?es = "map observed (combined t)"
  have "list_all (\<lambda>e. key_fits ks (fst e)) ?es" "list_all (\<lambda>e. pos_ok (snd e)) ?es"
    using assms(2) by (simp_all add: storable_def list_all_iff observed_def)
  then obtain t' where t': "deserialize_index_entries ks (concat (map (disk_bytes ks) ?es)) = Inr t'" "table_wf t'"
      "data t' = []" "flat_entries t' = map reload ?es"
    using deserialize_eq [of ?es ks] sm_wf_combined [OF assms(1)] assms(2) by (auto simp: storable_def)
  have "live t' k = map_option from_disk (map_option into_wal_position (live t k))" for k
    unfolding live_def [of t'] t'(3,4) map_of_reload map_of_observed live_map_of_combined [OF assms(1)] by simp
  then have "index_get t' k = index_get t k" for k
    by (cases "live t k") (simp_all add: index_get_wf [OF assms(1)] index_get_wf [OF t'(2)] from_disk_into)
  then show ?thesis using stored_entries [OF assms, of "[]"] t' by auto
qed

theorem index_stream_roundtrip_witness:
  "\<exists>b t'. serialize_index_entries demo_table (demo_uniform\<lparr>ks_indexing := VariableLength\<rparr>) [] = Inr b
    \<and> deserialize_index_entries (demo_uniform\<lparr>ks_indexing := VariableLength\<rparr>) b = Inr t'
    \<and> index_get t' [7] = Inr (Some WAL_INVALID) \<and> index_get t' [3] = Inr (Some (WalPosition 8 9))"
proof -
  let ?ks = "demo_uniform\<lparr>ks_indexing := VariableLength\<rparr>"
  have fe: "flat_entries demo_table = []"
    by (simp add: demo_table_def flat_entries_def flat_items_def flat_iter_new_def flat_collect.simps)
  have n: "index_key_size ?ks = None" by (simp add: index_key_size_def)
  have "storable ?ks demo_table"
    unfolding storable_def combined_def fe
    by (simp add: demo_table_def latest_def key_fits_def n MAX_U16_VARINT_def pos_ok_def into_wal_position_def
        flat_ok_def reload_def observed_def len_ok_def from_disk_def new_clean_def WAL_INVALID_def)
  moreover have "index_get demo_table [7] = Inr (Some WAL_INVALID)" "index_get demo_table [3] = Inr (Some (WalPosition 8 9))"
    by code_simp+
  ultimately show ?thesis using index_stream_roundtrip [OF index_inv_wf [OF demo_table_inv]] by metis
qed


end
