(* ===== verification/Index_Format.thy ===== *)
theory Index_Format
  imports Index_Codec Wal_Layout
begin

text \<open>
  What both on-disk index formats share (\<open>tidehunter/src/index/index_format.rs\<close>,
  \<open>index/utils.rs\<close>, \<open>lookup.rs\<close>): reading ranges of a blob, the binary search over fixed-size
  entries, the direction of a walk, and the choice between the candidates of several levels.
\<close>

section \<open>Random reads\<close>

text \<open>A blob in memory, or a range of a file read through the file reader.\<close>

datatype random_read =
    MemRead bytes
  | FileRange bytes bool u64 u64

definition checked_range :: "u64 \<Rightarrow> u64 \<Rightarrow> usize \<Rightarrow> usize \<Rightarrow> (u64 \<times> u64) res" where
  "checked_range range_start range_end from_off to_off =
     (if 2 ^ 64 \<le> unat range_start + from_off \<or> 2 ^ 64 \<le> unat range_start + from_off + (to_off - from_off)
      then Inl UnwrapFailed
      else
        let s = range_start + of_nat from_off; e = s + of_nat (to_off - from_off)
        in if s \<ge> range_end \<or> e > range_end then Inl ExplicitPanic else Inr (s, e))"

fun rr_read :: "random_read \<Rightarrow> usize \<Rightarrow> usize \<Rightarrow> bytes res" where
  "rr_read (MemRead b) from_off to_off = slice_r b from_off to_off"
| "rr_read (FileRange file dio rs re) from_off to_off =
     bindr (checked_range rs re from_off to_off) (\<lambda>(s, e).
     bindr (read_exact_at file dio s (unat (e - s))) expectr)"

fun rr_len :: "random_read \<Rightarrow> usize" where
  "rr_len (MemRead b) = length b"
| "rr_len (FileRange file dio rs re) = unat (re - rs)"

section \<open>Iterator caches\<close>

datatype index_iter_cache =
    LookupHeaderCache wal_position usize bytes usize
  | UniformLookupCache wal_position usize usize bytes usize

fun cache_position :: "index_iter_cache \<Rightarrow> wal_position" where
  "cache_position (LookupHeaderCache position _ _ _) = position"
| "cache_position (UniformLookupCache position _ _ _ _) = position"

type_synonym index_iter_caches = "index_iter_cache option list"

text \<open>The slots, grown so that the slot of the level exists.\<close>

definition slot_mut :: "usize \<Rightarrow> index_iter_caches \<Rightarrow> index_iter_caches" where
  "slot_mut level slots =
     (if length slots \<le> level then slots @ replicate (level + 1 - length slots) None else slots)"

definition HEADER_ELEMENTS :: usize where "HEADER_ELEMENTS = 128"
definition HEADER_ELEMENT_SIZE :: usize where "HEADER_ELEMENT_SIZE = 8"
definition HEADER_SIZE :: usize where "HEADER_SIZE = HEADER_ELEMENTS * HEADER_ELEMENT_SIZE"
definition PREFIX_LENGTH :: usize where "PREFIX_LENGTH = 8"

section \<open>Directions\<close>

datatype direction = Forward | Backward

definition from_bool :: "bool \<Rightarrow> direction" where
  "from_bool reverse = (if reverse then Backward else Forward)"

definition first_in_range :: "direction \<Rightarrow> usize \<Rightarrow> usize \<Rightarrow> usize" where
  "first_in_range d a b = (case d of Forward \<Rightarrow> a | Backward \<Rightarrow> b - 1)"

section \<open>Binary search\<close>

function bs_loop :: "bytes \<Rightarrow> bytes \<Rightarrow> usize \<Rightarrow> usize \<Rightarrow> usize \<Rightarrow> usize \<Rightarrow> (usize option \<times> usize) res" where
  "bs_loop buffer key element_size ksz left right =
     (if left \<le> right then
        (let mid = left + (right - left) div 2; entry_start = mid * element_size in
         case slice_r buffer entry_start (entry_start + ksz) of
           Inl p \<Rightarrow> Inl p
         | Inr entry_key \<Rightarrow>
             if entry_key = key then Inr (Some mid, left)
             else if entry_key < key then bs_loop buffer key element_size ksz (mid + 1) right
             else if mid = 0 then Inr (None, left)
             else bs_loop buffer key element_size ksz left (mid - 1))
      else Inr (None, left))"
  by auto
termination
  by (relation "measure (\<lambda>(_, _, _, _, left, right). right + 1 - left)") auto

declare bs_loop.simps [simp del]

definition binary_search :: "bytes \<Rightarrow> bytes \<Rightarrow> usize \<Rightarrow> usize \<Rightarrow> (usize option \<times> usize \<times> wal_position option) res" where
  "binary_search buffer key element_size ksz =
     (if buffer = [] then Inr (None, 0, None)
      else
        let count = length buffer div element_size in
        assertr (0 < count)
          (bindr (bs_loop buffer key element_size ksz 0 (count - 1)) (\<lambda>(found_pos, left).
             case found_pos of
               None \<Rightarrow> Inr (None, left, None)
             | Some pos \<Rightarrow>
                 let entry_start = pos * element_size in
                 bindr (slice_r buffer (entry_start + ksz) (entry_start + element_size)) (\<lambda>sl.
                 bindr (wp_from_slice sl) (\<lambda>p. Inr (Some pos, left, Some p))))))"

section \<open>Choosing between levels\<close>

datatype next_entry_result = NotFound | Found bytes wal_position | SkipDeleted bytes

fun pick_winner :: "direction \<Rightarrow> (bytes \<times> wal_position) option \<Rightarrow> (bytes \<times> wal_position) option list
    \<Rightarrow> (bytes \<times> wal_position) option" where
  "pick_winner d winner [] = winner"
| "pick_winner d winner (None # cs) = pick_winner d winner cs"
| "pick_winner d winner (Some (key, pos) # cs) =
     (case winner of
        None \<Rightarrow> pick_winner d (Some (key, pos)) cs
      | Some (existing_key, p) \<Rightarrow>
          let replace = (case d of Forward \<Rightarrow> key < existing_key | Backward \<Rightarrow> existing_key < key)
          in pick_winner d (if replace then Some (key, pos) else winner) cs)"

definition merge_levels_next_entry :: "(bytes \<times> wal_position) option list \<Rightarrow> direction \<Rightarrow> next_entry_result" where
  "merge_levels_next_entry candidates d =
     (case pick_winner d None candidates of
        None \<Rightarrow> NotFound
      | Some (key, pos) \<Rightarrow> if is_valid pos then Found key pos else SkipDeleted key)"

section \<open>Reads give the blob\<close>

definition reads_as :: "random_read \<Rightarrow> bytes \<Rightarrow> bool" where
  "reads_as r b \<longleftrightarrow> rr_len r = length b
     \<and> (\<forall>i j. i < j \<longrightarrow> j \<le> length b \<longrightarrow> rr_read r i j = Inr (take (j - i) (drop i b)))"

lemma reads_mem: "reads_as (MemRead b) b"
  by (simp add: reads_as_def slice_r_def)

lemma file_read_slice:
  "i + n \<le> length f \<Longrightarrow> file_read_exact_at f i n = Some (take n (drop i f))"
  by (simp add: file_read_exact_at_def)

lemma reads_file:
  assumes "unat rs + length b = unat re" "length pre = unat rs" "file = pre @ b @ post"
    and "dio \<longrightarrow> unat re + 512 \<le> 2 ^ 64 \<and> (unat re + 511) div 512 * 512 \<le> length file"
  shows "reads_as (FileRange file dio rs re) b"
proof -
  have len: "unat (re - rs) = length b" using assms(1) by (simp add: unat_sub word_le_nat_alt)
  have "rr_read (FileRange file dio rs re) i j = Inr (take (j - i) (drop i b))" if ij: "i < j" "j \<le> length b" for i j
  proof -
    have re: "unat re < 2 ^ 64" using unat_lt [of re] by simp
    let ?s = "rs + of_nat i" and ?e = "rs + of_nat i + of_nat (j - i)"
    have us: "unat ?s = unat rs + i" and ue: "unat ?e = unat rs + j"
      using ij assms(1) re by (simp_all add: unat_word_ariths unat_of_nat)
    have cr: "checked_range rs re i j = Inr (?s, ?e)"
      using ij assms(1) re us ue by (simp add: checked_range_def word_le_nat_alt word_less_nat_alt)
    have "unat (of_nat (j - i) :: u64) = j - i" using ij assms(1) re by (intro unat_of_pow) simp
    then have n: "unat (?e - ?s) = j - i" by (simp only: add_diff_cancel_left')
    have sl: "take (j - i) (drop (unat rs + i) file) = take (j - i) (drop i b)"
      using ij assms(2,3) by (simp add: drop_append [symmetric])
    have "read_exact_at file dio ?s (j - i) = Inr (Some (take (j - i) (drop i b)))"
    proof (cases dio)
      case False
      then show ?thesis using ij assms(1,2,3) us sl by (simp add: read_exact_at_def file_read_slice)
    next
      case True
      obtain a z ms me where ar: "align_range (?s, ?e) = ((a, z), (ms, me))" by (metis surj_pair)
      have "unat ?e + 512 \<le> 2 ^ 64" using ij assms(1,4) ue True by simp
      then have c: "unat a + ms = unat rs + i" "unat a + me = unat rs + j" "unat rs + j \<le> unat z" "512 dvd unat a" "512 dvd unat z"
        using align_range_covers [of "(?s, ?e)" a z ms me] ar us ue ij by simp_all
      have z: "unat z = (unat ?e + 511) div 512 * 512"
        using ar \<open>unat ?e + 512 \<le> 2 ^ 64\<close> unat_align_up [of DIRECT_IO_ALIGNMENT ?e]
        by (auto simp: align_range_def Let_def DIRECT_IO_ALIGNMENT_def)
      have zl: "unat z \<le> length file"
      proof -
        have "(unat ?e + 511) div 512 * 512 \<le> (unat re + 511) div 512 * 512"
          using ij assms(1) ue by (intro mult_le_mono1 div_le_mono) simp
        then show ?thesis using z assms(4) True by simp
      qed
      have az: "unat (z - a) = unat z - unat a" using c ij by (simp add: unat_sub word_le_nat_alt)
      have rd: "file_read_exact_at file (unat a) (unat (z - a)) = Some (take (unat z - unat a) (drop (unat a) file))"
        using zl c ij az by (intro trans [OF file_read_slice]) simp_all
      have "ms + unat a = unat rs + i" "me - ms = j - i" "ms \<le> me" "me \<le> unat z - unat a" using c ij by simp_all
      then have "slice_r (take (unat z - unat a) (drop (unat a) file)) ms me = Inr (take (j - i) (drop (unat rs + i) file))"
        using zl by (simp add: slice_r_def drop_take min.absorb1 diff_le_mono)
      then show ?thesis using True ar rd sl by (simp add: read_exact_at_def)
    qed
    then show ?thesis using cr n by simp
  qed
  then show ?thesis using len by (simp add: reads_as_def)
qed

section \<open>The next entry of a sorted map\<close>

definition next_of :: "direction \<Rightarrow> 'k::linorder option \<Rightarrow> ('k \<times> 'v) list \<Rightarrow> ('k \<times> 'v) option" where
  "next_of d prev m = (case d of Forward \<Rightarrow> first_of (sm_after prev m) | Backward \<Rightarrow> last_of (sm_before prev m))"

text \<open>Its index.\<close>

definition next_index :: "direction \<Rightarrow> 'k::linorder option \<Rightarrow> ('k \<times> 'v) list \<Rightarrow> nat option" where
  "next_index d prev m =
     (let i = (case prev of None \<Rightarrow> (case d of Forward \<Rightarrow> 0 | Backward \<Rightarrow> length m)
               | Some k \<Rightarrow> (case d of Forward \<Rightarrow> length (takeWhile (\<lambda>e. fst e \<le> k) m)
                            | Backward \<Rightarrow> length (takeWhile (\<lambda>e. fst e < k) m)))
      in case d of Forward \<Rightarrow> if i < length m then Some i else None
         | Backward \<Rightarrow> if 0 < i then Some (i - 1) else None)"

lemma next_of_index:
  assumes "sm_wf m"
  shows "next_of d prev m = map_option (\<lambda>i. m ! i) (next_index d prev m)"
    and "next_index d prev m = Some i \<Longrightarrow> i < length m"
proof -
  have le: "length (takeWhile P m) \<le> length m" for P by (rule length_takeWhile_le)
  show "next_of d prev m = map_option (\<lambda>i. m ! i) (next_index d prev m)"
  proof (cases prev)
    case None
    show ?thesis
      using first_of_drop [of 0 m] last_of_take [of "length m" m]
      by (cases d) (auto simp: next_of_def next_index_def None sm_after_def sm_before_def)
  next
    case (Some k)
    show ?thesis
      using first_of_drop [of "length (takeWhile (\<lambda>e. fst e \<le> k) m)" m] sm_after_drop(1) [OF assms, of k]
        last_of_take [OF le [of "\<lambda>e. fst e < k"]] sm_after_drop(2) [OF assms, of k]
      by (cases d) (auto simp: next_of_def next_index_def Some Let_def)
  qed
  show "i < length m" if "next_index d prev m = Some i"
    using that le [of "\<lambda>e. fst e < the prev"]
    by (cases d; cases prev) (auto simp: next_index_def Let_def simp flip: length_greater_0_conv split: if_splits)
qed

text \<open>Levels stacked on each other, the first one on top.\<close>

definition stacked :: "('k::linorder, 'v) smap list \<Rightarrow> ('k, 'v) smap" where
  "stacked levels = foldr (\<lambda>l deeper. merge_over deeper l) levels []"

lemma stacked_wf: "list_all sm_wf levels \<Longrightarrow> sm_wf (stacked levels)"
  by (induction levels) (simp_all add: stacked_def sm_wf_merge_over)

lemma map_of_stacked:
  "list_all sm_wf levels \<Longrightarrow> map_of (stacked levels) k = foldr (\<lambda>l deeper. case map_of l k of None \<Rightarrow> deeper | Some v \<Rightarrow> Some v) levels None"
proof (induction levels)
  case (Cons l levels)
  then have "sm_wf (foldr (\<lambda>l deeper. merge_over deeper l) levels [])" using stacked_wf [of levels] by (simp add: stacked_def)
  then show ?case using Cons by (simp add: stacked_def map_of_merge_over map_add_def split: option.split)
qed (simp add: stacked_def)

lemma map_of_stacked_Cons:
  "list_all sm_wf (l # levels) \<Longrightarrow> map_of (stacked (l # levels)) k = (case map_of l k of None \<Rightarrow> map_of (stacked levels) k | Some v \<Rightarrow> Some v)"
  using map_of_stacked [of "l # levels" k] map_of_stacked [of levels k] by (simp split: option.split)

lemma merge_over_assoc:
  assumes "sm_wf a" "sm_wf b" "sm_wf c"
  shows "merge_over (merge_over a b) c = merge_over a (merge_over b c)"
  using assms by (intro sm_eqI) (simp_all add: sm_wf_merge_over map_of_merge_over)

definition nearer :: "direction \<Rightarrow> (bytes \<times> wal_position) option \<Rightarrow> (bytes \<times> wal_position) option \<Rightarrow> (bytes \<times> wal_position) option" where
  "nearer d c w = (case d of Forward \<Rightarrow> pick_first c w | Backward \<Rightarrow> pick_last c w)"

lemma pick_winner_Cons: "pick_winner d w (c # cs) = pick_winner d (nearer d c w) cs"
  by (cases c; cases w; cases d) (auto simp: nearer_def pick_first_def pick_last_def)

lemma next_of_merge:
  "sm_wf xs \<Longrightarrow> sm_wf ys \<Longrightarrow> next_of d prev (merge_over xs ys) = nearer d (next_of d prev xs) (next_of d prev ys)"
  by (cases d) (simp_all add: next_of_def nearer_def sm_after_merge first_of_merge last_of_merge sm_wf_before)

lemma pick_winner_stacked:
  "list_all sm_wf levels \<Longrightarrow> sm_wf m \<Longrightarrow>
     pick_winner d (next_of d prev m) (map (next_of d prev) levels) = next_of d prev (merge_over (stacked levels) m)"
proof (induction levels arbitrary: m)
  case (Cons l levels)
  have wf: "sm_wf l" "list_all sm_wf levels" "sm_wf (merge_over l m)" using Cons.prems by (simp_all add: sm_wf_merge_over)
  have "pick_winner d (next_of d prev m) (map (next_of d prev) (l # levels)) = next_of d prev (merge_over (stacked levels) (merge_over l m))"
    using Cons.IH [OF wf(2,3)] next_of_merge [OF wf(1) Cons.prems(2)] by (simp only: list.map pick_winner_Cons)
  also have "merge_over (stacked levels) (merge_over l m) = merge_over (stacked (l # levels)) m"
    using merge_over_assoc [OF stacked_wf [OF wf(2)] wf(1) Cons.prems(2)] by (simp add: stacked_def)
  finally show ?case .
qed (simp add: stacked_def)

section \<open>Fixed-size sections\<close>

definition fixed_elem :: "bytes \<times> wal_position \<Rightarrow> bytes" where
  "fixed_elem e = fst e @ wp_write_to_buf (snd e)"

definition fixed_section :: "usize \<Rightarrow> bytes \<Rightarrow> (bytes \<times> wal_position) list \<Rightarrow> bool" where
  "fixed_section n buf es \<longleftrightarrow> buf = concat (map fixed_elem es) \<and> list_all (\<lambda>e. length (fst e) = n) es"

lemma fixed_section_elems: "fixed_section n buf es \<Longrightarrow> \<forall>x \<in> set (map fixed_elem es). length x = n + 12"
  by (simp add: fixed_section_def fixed_elem_def list_all_iff WAL_POSITION_LENGTH_def)

lemma fixed_section_length:
  assumes "fixed_section n buf es"
  shows "length buf = length es * (n + 12)"
proof -
  have "length (concat (map fixed_elem es)) = length (map fixed_elem es) * (n + 12)"
    by (rule length_concat_fixed [OF fixed_section_elems [OF assms]])
  then show ?thesis using assms by (simp only: fixed_section_def length_map)
qed

lemma fixed_section_at:
  assumes "fixed_section n buf es" "i < length es"
  shows "slice_r buf (i * (n + 12)) (i * (n + 12) + n) = Inr (fst (es ! i))"
    and "slice_r buf (i * (n + 12) + n) (i * (n + 12) + (n + 12)) = Inr (wp_write_to_buf (snd (es ! i)))"
proof -
  let ?xs = "map fixed_elem es"
  have i: "i < length ?xs" using assms(2) by simp
  have len: "length (fst (es ! i)) = n" using assms by (auto simp: fixed_section_def list_all_iff)
  have "\<forall>x \<in> set (take i ?xs). length x = n + 12"
    using fixed_section_elems [OF assms(1)] set_take_subset [of i ?xs] by blast
  then have pre: "length (concat (take i ?xs)) = i * (n + 12)" using length_concat_fixed [of "take i ?xs"] assms(2) by simp
  have buf: "buf = concat (take i ?xs) @ fst (es ! i) @ wp_write_to_buf (snd (es ! i)) @ concat (drop (Suc i) ?xs)"
    using concat_split [OF i] assms by (simp add: fixed_section_def fixed_elem_def)
  show "slice_r buf (i * (n + 12)) (i * (n + 12) + n) = Inr (fst (es ! i))"
    unfolding buf using slice_r_middle [of "i * (n + 12)" "concat (take i ?xs)" "i * (n + 12) + n" "fst (es ! i)"] pre len by simp
  show "slice_r buf (i * (n + 12) + n) (i * (n + 12) + (n + 12)) = Inr (wp_write_to_buf (snd (es ! i)))"
    unfolding buf append_assoc [symmetric]
    using slice_r_middle [of "i * (n + 12) + n" "concat (take i ?xs) @ fst (es ! i)" "i * (n + 12) + (n + 12)" "wp_write_to_buf (snd (es ! i))"] pre len
    by (simp add: WAL_POSITION_LENGTH_def)
qed

abbreviation lower :: "'k::linorder \<Rightarrow> ('k \<times> 'v) list \<Rightarrow> nat" where
  "lower key es \<equiv> length (takeWhile (\<lambda>e. fst e < key) es)"

lemma bs_step:
  assumes "left \<le> right" "slice_r buf ((left + (right - left) div 2) * sz) ((left + (right - left) div 2) * sz + n) = Inr k"
    "m = left + (right - left) div 2"
  shows "bs_loop buf key sz n left right =
    (if k = key then Inr (Some m, left)
     else if k < key then bs_loop buf key sz n (m + 1) right
     else if m = 0 then Inr (None, left)
     else bs_loop buf key sz n left (m - 1))"
  unfolding bs_loop.simps [of buf key sz n left right] Let_def assms(2,3) by (simp add: assms(1))

lemma bs_loop_eq:
  assumes "fixed_section n buf es" "\<And>i. i < length es \<Longrightarrow> fst (es ! i) < key \<longleftrightarrow> i < r"
    "\<And>i. i < length es \<Longrightarrow> fst (es ! i) = key \<Longrightarrow> i = r"
  shows "left \<le> r \<Longrightarrow> r \<le> right + 1 \<Longrightarrow> right < length es \<Longrightarrow>
    (if r < length es \<and> fst (es ! r) = key
     then r \<le> right \<longrightarrow> (\<exists>l. bs_loop buf key (n + 12) n left right = Inr (Some r, l))
     else bs_loop buf key (n + 12) n left right = Inr (None, r))"
proof (induction "right + 1 - left" arbitrary: left right rule: less_induct)
  case less
  show ?case
  proof (cases "left \<le> right")
    case False
    then have "bs_loop buf key (n + 12) n left right = Inr (None, r)" "\<not> r \<le> right"
      using less.prems by (simp_all add: bs_loop.simps [of buf key "n + 12" n left right])
    then show ?thesis by simp
  next
    case True
    define m where "m = left + (right - left) div 2"
    have m: "left \<le> m" "m \<le> right" "m < length es" using True less.prems by (auto simp: m_def)
    note step = bs_step [OF True fixed_section_at(1) [OF assms(1) m(3), unfolded m_def], OF refl, of key, folded m_def]
    consider (eq) "fst (es ! m) = key" | (lt) "fst (es ! m) < key" | (gr) "key < fst (es ! m)" by fastforce
    then show ?thesis
    proof cases
      case eq
      then show ?thesis using assms(3) [OF m(3) eq] step m(3) by auto
    next
      case lt
      have "bs_loop buf key (n + 12) n left right = bs_loop buf key (n + 12) n (m + 1) right" unfolding step using lt by auto
      moreover have "m < r" using assms(2) [OF m(3)] lt by simp
      moreover have "right + 1 - (m + 1) < right + 1 - left" using m by simp
      ultimately show ?thesis using less.hyps [of right "m + 1"] less.prems by auto
    next
      case gr
      then have r: "r \<le> m" "fst (es ! m) \<noteq> key" "\<not> fst (es ! m) < key" using assms(2) [OF m(3)] by auto
      have st: "bs_loop buf key (n + 12) n left right =
          (if m = 0 then Inr (None, left) else bs_loop buf key (n + 12) n left (m - 1))" using step r by simp
      show ?thesis
      proof (cases "m = 0")
        case True
        then have "r = 0" "left = 0" using r(1) less.prems(1) by simp_all
        then show ?thesis using st r True by auto
      next
        case False
        have "m - 1 + 1 - left < right + 1 - left" "left \<le> r" "r \<le> m - 1 + 1" "m - 1 < length es"
          using less.prems m r False by auto
        note ih = less.hyps [OF this]
        have "fst (es ! r) = key \<Longrightarrow> r \<le> m - 1" using r(1,2) by (cases "r = m") auto
        then show ?thesis using ih st False by (auto split: if_splits)
      qed
    qed
  qed
qed

lemma key_at_lower:
  assumes "sm_wf es" "i < length es" "fst (es ! i) = key"
  shows "i = lower key es"
proof -
  obtain r where r: "r = lower key es" by simp
  have "(key, snd (es ! i)) \<in> set es" using assms(2,3) nth_mem by fastforce
  then have "map_of es key = Some (snd (es ! i))" using sm_wf_distinct [OF assms(1)] by simp
  then have "fst (es ! r) = key" "r < length es"
    using lookup_at_lower_bound [OF assms(1) r] by (auto split: if_splits)
  then have "i = r"
    using assms nth_eq_iff_index_eq [of "map fst es" i r] by (simp add: sm_wf_def strict_sorted_iff)
  then show ?thesis using r by simp
qed

lemma binary_search_eq:
  assumes "fixed_section n buf es" "sm_wf es" "r = lower key es"
  shows "\<exists>ins. binary_search buf key (n + 12) n = Inr (case map_of es key of None \<Rightarrow> (None, r, None) | Some p \<Rightarrow> (Some r, ins, Some p))"
proof (cases "es = []")
  case True
  then show ?thesis using assms by (simp add: fixed_section_def binary_search_def)
next
  case False
  note len = fixed_section_length [OF assms(1)]
  have c: "length buf div (n + 12) = length es" using len by simp
  have ne: "buf \<noteq> []" "0 < length es" using len False by auto
  have r: "r \<le> length es" unfolding assms(3) by (rule length_takeWhile_le)
  note look = lookup_at_lower_bound [OF assms(2,3)]
  have lt: "fst (es ! i) < key \<longleftrightarrow> i < r" if "i < length es" for i
    unfolding assms(3) by (rule key_index(1) [OF assms(2) that])
  have eq: "i = r" if "i < length es" "fst (es ! i) = key" for i
    unfolding assms(3) by (rule key_at_lower [OF assms(2) that])
  have loop: "if r < length es \<and> fst (es ! r) = key
     then r \<le> length es - 1 \<longrightarrow> (\<exists>l. bs_loop buf key (n + 12) n 0 (length es - 1) = Inr (Some r, l))
     else bs_loop buf key (n + 12) n 0 (length es - 1) = Inr (None, r)"
    using r ne(2) by (intro bs_loop_eq [OF assms(1)]) (simp_all add: lt eq)
  show ?thesis
  proof (cases "r < length es \<and> fst (es ! r) = key")
    case True
    then obtain l where "bs_loop buf key (n + 12) n 0 (length es - 1) = Inr (Some r, l)" using loop by auto
    moreover have "wp_from_slice (wp_write_to_buf (snd (es ! r))) = Inr (snd (es ! r))" by (rule wp_from_slice_write)
    ultimately show ?thesis
      using look ne c True fixed_section_at(2) [OF assms(1), of r] by (simp add: binary_search_def add.assoc)
  next
    case nf: False
    then have "bs_loop buf key (n + 12) n 0 (length es - 1) = Inr (None, r)" using loop by (simp only: if_False)
    then show ?thesis using look ne c nf by (simp add: binary_search_def)
  qed
qed

lemma merge_levels_stacked:
  assumes "list_all sm_wf levels"
  shows "merge_levels_next_entry (map (next_of d prev) levels) d =
    (case next_of d prev (stacked levels) of
       None \<Rightarrow> NotFound
     | Some (k, p) \<Rightarrow> if is_valid p then Found k p else SkipDeleted k)"
proof -
  have "pick_winner d None (map (next_of d prev) levels) = next_of d prev (stacked levels)"
    using pick_winner_stacked [OF assms, of "[]" d prev]
    by (cases d; cases prev; cases "stacked levels") (simp_all add: next_of_def sm_after_def sm_before_def)
  then show ?thesis by (simp add: merge_levels_next_entry_def)
qed

section \<open>Property\<close>

text \<open>C26. Scanning several levels at once: choosing the nearest of the levels' next entries, the shallowest
  level winning ties, gives the next entry of the stacked levels, so a tombstone of a shallow level
  hides the deeper entry of its key and nothing else.\<close>

theorem merge_levels_scan:
  assumes "list_all sm_wf levels"
  shows "merge_levels_next_entry (map (next_of d prev) levels) d =
    (case next_of d prev (stacked levels) of
       None \<Rightarrow> NotFound
     | Some (k, p) \<Rightarrow> if is_valid p then Found k p else SkipDeleted k)"
  by (rule merge_levels_stacked [OF assms])

theorem merge_levels_scan_witness:
  "merge_levels_next_entry
     (map (next_of Forward (Some [2])) [[([3 :: byte], WAL_INVALID)], [([3], WalPosition 8 9), ([5], WalPosition 24 9)]]) Forward
   = SkipDeleted [3]"
proof -
  have "list_all sm_wf [[([3 :: byte], WAL_INVALID)], [([3], WalPosition 8 9), ([5], WalPosition 24 9)]]" by simp
  from merge_levels_scan [OF this, of Forward "Some [2]"] show ?thesis
    by (simp add: stacked_def next_of_def sm_after_def is_valid_def)
qed

end
