(* ===== verification/Lookup_Header.thy ===== *)
theory Lookup_Header
  imports Index_Format
begin

text \<open>
  The header format of on-disk indices (\<open>tidehunter/src/index/lookup_header.rs\<close>): a table of 128
  micro-cells in front of the entries, each naming the byte range of the entries whose key prefix
  falls in that part of the cell. A lookup reads one header element and one section; a scan walks
  the micro-cells and keeps the section it is in. The two walks of the source, over fixed-size and
  over variable-length sections, differ only in how a section is read, and are instances of one
  definition here; the contract \<open>section_buffer\<close> is what the walk relies on.
\<close>

section \<open>Micro-cells\<close>

definition key_micro_cell :: "key_space_desc \<Rightarrow> bytes \<Rightarrow> usize res" where
  "key_micro_cell ks key =
     bindr (index_prefix_u32 ks key) (\<lambda>prefix.
     bindr (cell_id_of ks key) (\<lambda>cell.
     bindr (index_prefix_range ks cell) (\<lambda>(range_start, range_end).
       let start = ucast range_start :: u32 in
       if prefix < start then Inl UnwrapFailed
       else
         let cell_offset = prefix - start; cell_size = range_end - range_start in
         bindr (rescale_u32 cell_offset cell_size (of_nat HEADER_ELEMENTS)) (\<lambda>micro_cell.
           Inr (unat micro_cell)))))"

definition read_micro_cell_section :: "random_read \<Rightarrow> usize \<Rightarrow> bytes option res" where
  "read_micro_cell_section reader micro_cell =
     bindr (rr_read reader (micro_cell * HEADER_ELEMENT_SIZE) ((micro_cell + 1) * HEADER_ELEMENT_SIZE)) (\<lambda>header_element.
     bindr (get_u32 header_element) (\<lambda>(from_offset, header_element).
     bindr (get_u32 header_element) (\<lambda>(to_offset, _).
       if from_offset = 0 \<and> to_offset = 0 then Inr None
       else bindr (rr_read reader (unat from_offset) (unat to_offset)) (\<lambda>buffer. Inr (Some buffer)))))"

section \<open>Searching a section\<close>

definition checked_pred :: "usize \<Rightarrow> usize option" where
  "checked_pred n = (if n = 0 then None else Some (n - 1))"

definition fixed_key_at :: "usize \<Rightarrow> usize \<Rightarrow> bytes \<Rightarrow> usize \<Rightarrow> bytes res" where
  "fixed_key_at ksz element_size buffer i = slice_r buffer (i * element_size) (i * element_size + ksz)"

definition fixed_entry_at :: "usize \<Rightarrow> usize \<Rightarrow> bytes \<Rightarrow> usize \<Rightarrow> (bytes \<times> wal_position) res" where
  "fixed_entry_at ksz element_size buffer i =
     (let entry_start = i * element_size in
      bindr (slice_r buffer entry_start (entry_start + ksz)) (\<lambda>key.
      bindr (slice_r buffer (entry_start + ksz) (entry_start + element_size)) (\<lambda>value_bytes.
      bindr (wp_from_slice value_bytes) (\<lambda>pos. Inr (key, pos)))))"

definition search_in_micro_cell_buffer ::
    "key_space_desc \<Rightarrow> bytes \<Rightarrow> bytes option \<Rightarrow> direction \<Rightarrow> (bytes \<times> wal_position \<times> usize) option res" where
  "search_in_micro_cell_buffer ks buffer prev d =
     bindr (expectr (index_key_element_size ks)) (\<lambda>(ksz, element_size).
       if buffer = [] then Inr None
       else
         let entry_count = length buffer div element_size in
         if entry_count = 0 then Inr None
         else
           bindr (case prev of
                    None \<Rightarrow> Inr (Some (first_in_range d 0 entry_count))
                  | Some prev_key \<Rightarrow>
                      bindr (binary_search buffer prev_key element_size ksz) (\<lambda>(found_pos, insertion_point, _).
                        Inr (case d of
                               Forward \<Rightarrow> (case found_pos of Some pos \<Rightarrow> Some (pos + 1) | None \<Rightarrow> Some insertion_point)
                             | Backward \<Rightarrow> (case found_pos of Some pos \<Rightarrow> checked_pred pos | None \<Rightarrow> checked_pred insertion_point))))
             (\<lambda>start. case start of
                 None \<Rightarrow> Inr None
               | Some start_pos \<Rightarrow>
                   if entry_count \<le> start_pos then Inr None
                   else bindr (fixed_entry_at ksz element_size buffer start_pos) (\<lambda>(key, pos).
                          Inr (Some (key, pos, start_pos)))))"

text \<open>The wrappers over the packed buffer format for variable-length sections.\<close>

definition flat_varlen_count :: "bytes \<Rightarrow> usize res" where
  "flat_varlen_count buffer = flat_count buffer None"

definition flat_varlen_entry_at :: "bytes \<Rightarrow> usize \<Rightarrow> (bytes \<times> wal_position) res" where
  "flat_varlen_entry_at buffer idx =
     bindr (flat_entry_at buffer None idx) (\<lambda>(key, iwp). Inr (key, into_update_position iwp))"

definition flat_varlen_lower_bound :: "bytes \<Rightarrow> bytes \<Rightarrow> usize res" where
  "flat_varlen_lower_bound buffer key = flat_lower_bound buffer None key"

definition flat_varlen_lookup :: "bytes \<Rightarrow> bytes \<Rightarrow> wal_position option res" where
  "flat_varlen_lookup buffer key =
     bindr (flat_lower_bound buffer None key) (\<lambda>idx.
     bindr (flat_count buffer None) (\<lambda>n.
       if n \<le> idx then Inr None
       else bindr (flat_entry_at buffer None idx) (\<lambda>(found_key, iwp).
              Inr (if found_key = key then Some (into_update_position iwp) else None))))"

definition append_flat_varlen_section :: "(bytes \<times> wal_position) list \<Rightarrow> bytes \<Rightarrow> bytes res" where
  "append_flat_varlen_section entries out =
     append_flat_varlen (map (\<lambda>(k, pos). (k, from_disk pos)) entries) out"

definition search_in_varlen_micro_cell_buffer ::
    "bytes \<Rightarrow> bytes option \<Rightarrow> direction \<Rightarrow> (bytes \<times> wal_position \<times> usize) option res" where
  "search_in_varlen_micro_cell_buffer buffer prev d =
     bindr (flat_varlen_count buffer) (\<lambda>count.
       if count = 0 then Inr None
       else
         bindr (case prev of
                  None \<Rightarrow> Inr (Some (first_in_range d 0 count))
                | Some prev_key \<Rightarrow>
                    bindr (flat_varlen_lower_bound buffer prev_key) (\<lambda>lb.
                      case d of
                        Forward \<Rightarrow>
                          bindr (if lb < count
                                 then bindr (flat_varlen_entry_at buffer lb) (\<lambda>(k, _). Inr (k = prev_key))
                                 else Inr False) (\<lambda>exact. Inr (Some (if exact then lb + 1 else lb)))
                      | Backward \<Rightarrow> Inr (checked_pred lb)))
           (\<lambda>start. case start of
               None \<Rightarrow> Inr None
             | Some start_pos \<Rightarrow>
                 if count \<le> start_pos then Inr None
                 else bindr (flat_varlen_entry_at buffer start_pos) (\<lambda>(key, pos).
                        Inr (Some (key, pos, start_pos)))))"

definition binary_search_varlen :: "bytes \<Rightarrow> bytes \<Rightarrow> wal_position option res" where
  "binary_search_varlen buffer key = flat_varlen_lookup buffer key"

section \<open>The walk over micro-cells\<close>

text \<open>One round of the loop: \<open>None\<close> when the micro-cell is exhausted (the cache is dropped then),
  otherwise the entry found and the cache to keep. The parameters read a section.\<close>

definition mc_round ::
    "(bytes \<Rightarrow> usize res) \<Rightarrow> (bytes \<Rightarrow> usize \<Rightarrow> bytes res) \<Rightarrow> (bytes \<Rightarrow> usize \<Rightarrow> (bytes \<times> wal_position) res)
     \<Rightarrow> (bytes \<Rightarrow> bytes option \<Rightarrow> direction \<Rightarrow> (bytes \<times> wal_position \<times> usize) option res)
     \<Rightarrow> random_read \<Rightarrow> bytes option \<Rightarrow> direction \<Rightarrow> wal_position \<Rightarrow> index_iter_cache option \<Rightarrow> usize
     \<Rightarrow> ((bytes \<times> wal_position) \<times> index_iter_cache) option res" where
  "mc_round count key_at entry_at search reader prev d position cache mc =
     (let cache_hit = (case cache of
            Some (LookupHeaderCache cpos cached_mc buffer last_returned_pos) \<Rightarrow>
              if cached_mc = mc then Some (cpos, buffer, last_returned_pos) else None
          | _ \<Rightarrow> None);
          found = (\<lambda>cpos buffer. map_option (\<lambda>(key, val, entry_pos). ((key, val), LookupHeaderCache cpos mc buffer entry_pos)))
      in case cache_hit of
           Some (cpos, buffer, last_pos) \<Rightarrow>
             bindr (count buffer) (\<lambda>entry_count.
               case prev of
                 None \<Rightarrow> bindr (search buffer prev d) (\<lambda>r. Inr (found cpos buffer r))
               | Some prev_key \<Rightarrow>
                   bindr (key_at buffer last_pos) (\<lambda>key_at_last.
                     if key_at_last = prev_key then
                       (case (case d of Forward \<Rightarrow> if last_pos + 1 < entry_count then Some (last_pos + 1) else None
                              | Backward \<Rightarrow> checked_pred last_pos) of
                          None \<Rightarrow> Inr None
                        | Some next_pos \<Rightarrow>
                            bindr (entry_at buffer next_pos) (\<lambda>(key, val). Inr (found cpos buffer (Some (key, val, next_pos)))))
                     else bindr (search buffer prev d) (\<lambda>r. Inr (found cpos buffer r))))
         | None \<Rightarrow>
             bindr (read_micro_cell_section reader mc) (\<lambda>section.
               case section of
                 None \<Rightarrow> Inr None
               | Some buffer \<Rightarrow> bindr (search buffer prev d) (\<lambda>r. Inr (found position buffer r))))"

function mc_walk ::
    "(index_iter_cache option \<Rightarrow> usize \<Rightarrow> ((bytes \<times> wal_position) \<times> index_iter_cache) option res)
     \<Rightarrow> direction \<Rightarrow> index_iter_cache option \<Rightarrow> usize \<Rightarrow> ((bytes \<times> wal_position) option \<times> index_iter_cache option) res" where
  "mc_walk round d cache mc =
     (case round cache mc of
        Inl p \<Rightarrow> Inl p
      | Inr (Some (e, cache')) \<Rightarrow> Inr (Some e, Some cache')
      | Inr None \<Rightarrow>
          (case next_bounded mc HEADER_ELEMENTS (d = Backward) of
             None \<Rightarrow> Inr (None, None)
           | Some mc' \<Rightarrow> mc_walk round d None mc'))"
  by auto
termination
  by (relation "measure (\<lambda>(_, d, _, mc). if d = Backward then mc else HEADER_ELEMENTS - mc)")
    (auto simp: next_bounded_def HEADER_ELEMENTS_def split: if_splits)

declare mc_walk.simps [simp del]

definition next_entry_unloaded_varlen ::
    "random_read \<Rightarrow> bytes option \<Rightarrow> direction \<Rightarrow> wal_position \<Rightarrow> index_iter_cache option \<Rightarrow> usize
     \<Rightarrow> ((bytes \<times> wal_position) option \<times> index_iter_cache option) res" where
  "next_entry_unloaded_varlen reader prev d position cache start_micro_cell =
     mc_walk (mc_round flat_varlen_count (\<lambda>b i. bindr (flat_varlen_entry_at b i) (\<lambda>(k, _). Inr k))
                flat_varlen_entry_at search_in_varlen_micro_cell_buffer reader prev d position)
       d cache start_micro_cell"

definition header_next_entry_unloaded ::
    "key_space_desc \<Rightarrow> random_read \<Rightarrow> bytes option \<Rightarrow> direction \<Rightarrow> wal_position \<Rightarrow> index_iter_cache option
     \<Rightarrow> ((bytes \<times> wal_position) option \<times> index_iter_cache option) res" where
  "header_next_entry_unloaded ks reader prev d position cache0 =
     (let cache = (case cache0 of
            Some c \<Rightarrow> if cache_position c \<noteq> position then None else Some c
          | None \<Rightarrow> None) in
      bindr (case prev of
               None \<Rightarrow> Inr (first_in_range d 0 HEADER_ELEMENTS)
             | Some prev_key \<Rightarrow>
                 bindr (case index_key_size ks of
                          Some ksz \<Rightarrow> assertr (length prev_key = ksz) (Inr ())
                        | None \<Rightarrow> Inr ()) (\<lambda>_. key_micro_cell ks prev_key)) (\<lambda>start_micro_cell.
        case index_key_element_size ks of
          None \<Rightarrow> next_entry_unloaded_varlen reader prev d position cache start_micro_cell
        | Some (ksz, element_size) \<Rightarrow>
            mc_walk (mc_round (\<lambda>b. Inr (length b div element_size)) (fixed_key_at ksz element_size)
                       (fixed_entry_at ksz element_size) (search_in_micro_cell_buffer ks) reader prev d position)
              d cache start_micro_cell))"

definition header_lookup_unloaded :: "key_space_desc \<Rightarrow> random_read \<Rightarrow> bytes \<Rightarrow> wal_position option res" where
  "header_lookup_unloaded ks reader key =
     bindr (case index_key_size ks of
              Some ksz \<Rightarrow> assertr (length key = ksz) (Inr ())
            | None \<Rightarrow> Inr ()) (\<lambda>_.
     bindr (key_micro_cell ks key) (\<lambda>micro_cell.
     bindr (read_micro_cell_section reader micro_cell) (\<lambda>section.
       case section of
         None \<Rightarrow> Inr None
       | Some buffer \<Rightarrow>
           (case index_key_element_size ks of
              Some (ksz, element_size) \<Rightarrow>
                bindr (binary_search buffer key element_size ksz) (\<lambda>(_, _, pos). Inr pos)
            | None \<Rightarrow> binary_search_varlen buffer key))))"

section \<open>Writing\<close>

record index_table_header_builder =
  hb_header :: "(u32 \<times> u32) list"
  last_micro_cell :: "usize option"

definition header_builder_new :: index_table_header_builder where
  "header_builder_new = \<lparr>hb_header = replicate HEADER_ELEMENTS (0, 0), last_micro_cell = None\<rparr>"

definition check_offset :: "usize \<Rightarrow> u32 res" where
  "check_offset off = assertr (off < unat u32_MAX) (Inr (of_nat off))"

definition set_end :: "usize \<Rightarrow> u32 \<Rightarrow> (u32 \<times> u32) list \<Rightarrow> (u32 \<times> u32) list res" where
  "set_end i v header = bindr (index_r header i) (\<lambda>h. Inr (header[i := (fst h, v)]))"

definition set_start :: "usize \<Rightarrow> u32 \<Rightarrow> (u32 \<times> u32) list \<Rightarrow> (u32 \<times> u32) list res" where
  "set_start i v header = bindr (index_r header i) (\<lambda>h. Inr (header[i := (v, snd h)]))"

definition header_add_key :: "key_space_desc \<Rightarrow> index_table_header_builder \<Rightarrow> bytes \<Rightarrow> usize
    \<Rightarrow> index_table_header_builder res" where
  "header_add_key ks hb key off0 =
     bindr (check_offset off0) (\<lambda>off.
     bindr (key_micro_cell ks key) (\<lambda>micro_cell.
       let start = (\<lambda>header. bindr (set_start micro_cell off header) (\<lambda>header.
              Inr \<lparr>hb_header = header, last_micro_cell = Some micro_cell\<rparr>)) in
       case last_micro_cell hb of
         None \<Rightarrow> start (hb_header hb)
       | Some last_mc \<Rightarrow>
           if last_mc = micro_cell then Inr hb
           else bindr (set_end last_mc off (hb_header hb)) start))"

definition write_header :: "index_table_header_builder \<Rightarrow> usize \<Rightarrow> bytes res" where
  "write_header hb end_offset0 =
     bindr (check_offset end_offset0) (\<lambda>end_offset.
     bindr (case last_micro_cell hb of
              None \<Rightarrow> Inr (hb_header hb)
            | Some last_mc \<Rightarrow> set_end last_mc end_offset (hb_header hb)) (\<lambda>header.
       Inr (concat (map (\<lambda>(s, e). put_u32 s @ put_u32 e) header))))"

text \<open>The entries of a variable-length index grouped by micro-cell.\<close>

fun group_entries :: "key_space_desc \<Rightarrow> (bytes \<times> wal_position) list \<Rightarrow> (usize, (bytes \<times> wal_position) list) smap
    \<Rightarrow> (usize, (bytes \<times> wal_position) list) smap res" where
  "group_entries ks [] mc_entries = Inr mc_entries"
| "group_entries ks ((key, pos) # es) mc_entries =
     bindr (key_micro_cell ks key) (\<lambda>mc.
       group_entries ks es
         (sm_insert mc ((case map_of mc_entries mc of None \<Rightarrow> [] | Some l \<Rightarrow> l) @ [(key, pos)]) mc_entries))"

fun write_sections :: "(usize \<times> (bytes \<times> wal_position) list) list \<Rightarrow> bytes \<times> (u32 \<times> u32) list
    \<Rightarrow> (bytes \<times> (u32 \<times> u32) list) res" where
  "write_sections [] acc = Inr acc"
| "write_sections ((mc, entries) # gs) (out, header) =
     (let from_off = of_nat (length out) in
      bindr (append_flat_varlen_section entries out) (\<lambda>out'.
        if mc < length header
        then write_sections gs (out', header[mc := (from_off, of_nat (length out'))])
        else Inl OutOfRange))"

fun copy_header :: "usize \<Rightarrow> (u32 \<times> u32) list \<Rightarrow> bytes \<Rightarrow> bytes res" where
  "copy_header i [] out = Inr out"
| "copy_header i ((from_off, to_off) # hs) out =
     bindr (copy_at_r (i * HEADER_ELEMENT_SIZE) (put_u32 from_off) out) (\<lambda>out.
     bindr (copy_at_r (i * HEADER_ELEMENT_SIZE + 4) (put_u32 to_off) out) (\<lambda>out.
       copy_header (i + 1) hs out))"

definition header_serialize_index :: "index_table \<Rightarrow> key_space_desc \<Rightarrow> bytes res" where
  "header_serialize_index t ks =
     (case index_key_size ks of
        Some _ \<Rightarrow>
          bindr (serialize_index_entries_with_visitor t ks (header_add_key ks)
                   (replicate HEADER_SIZE 0, header_builder_new)) (\<lambda>(out, header).
          bindr (write_header header (length out)) (\<lambda>h. copy_at_r 0 h out))
      | None \<Rightarrow>
          bindr (iter_with_tombstones t) (\<lambda>es.
          bindr (group_entries ks es []) (\<lambda>mc_entries.
          bindr (write_sections mc_entries (replicate HEADER_SIZE 0, replicate HEADER_ELEMENTS (0, 0))) (\<lambda>(out, header).
            copy_header 0 header out))))"

section \<open>Reading a whole index\<close>

text \<open>The pass over the header of a variable-length index: the sections that hold entries, with
  their entry counts.\<close>

fun gather_sections :: "bytes \<Rightarrow> usize list \<Rightarrow> (usize \<times> usize \<times> usize) list res" where
  "gather_sections b [] = Inr []"
| "gather_sections b (mc # mcs) =
     (let hs = mc * HEADER_ELEMENT_SIZE in
      bindr (from_be_at 4 b hs) (\<lambda>from_off :: u32.
      bindr (from_be_at 4 b (hs + 4)) (\<lambda>to_off :: u32.
        if from_off = 0 \<and> to_off = 0 then gather_sections b mcs
        else
          bindr (slice_r b (unat from_off) (unat to_off)) (\<lambda>section.
          bindr (from_be_at 4 section 0) (\<lambda>count :: u32.
            if count = 0 then gather_sections b mcs
            else bindr (gather_sections b mcs) (\<lambda>rest. Inr ((unat from_off, unat to_off, unat count) # rest)))))))"

text \<open>The offset tables, shifted by the entry bytes of the sections before.\<close>

fun splice_offsets :: "bytes \<Rightarrow> (usize \<times> usize \<times> usize) list \<Rightarrow> u32 \<Rightarrow> bytes res" where
  "splice_offsets b [] cum = Inr []"
| "splice_offsets b ((from_off, to_off, count) # ss) cum =
     bindr (slice_r b from_off to_off) (\<lambda>section.
     bindr (traverse (\<lambda>i. bindr (from_be_at 4 section (4 + 4 * i)) (\<lambda>off_local :: u32. Inr (put_u32 (off_local + cum)))) [0..<count]) (\<lambda>offs.
     bindr (splice_offsets b ss (cum + of_nat ((to_off - from_off) - (4 + 4 * count)))) (\<lambda>rest.
       Inr (concat offs @ rest))))"

definition deserialize_varlen_index :: "bytes \<Rightarrow> index_table res" where
  "deserialize_varlen_index b =
     bindr (gather_sections b [0..<HEADER_ELEMENTS]) (\<lambda>sections.
       let total_count = sum_list (map (\<lambda>(_, _, count). count) sections) in
       if total_count = 0 then Inr (from_varlen_flat_bytes [])
       else
         bindr (splice_offsets b sections 0) (\<lambda>offs.
         bindr (traverse (\<lambda>(from_off, to_off, count). slice_r b (from_off + (4 + 4 * count)) to_off) sections) (\<lambda>entries.
           Inr (from_varlen_flat_bytes (put_u32 (of_nat total_count) @ offs @ concat entries)))))"

definition header_deserialize_index :: "key_space_desc \<Rightarrow> bytes \<Rightarrow> index_table res" where
  "header_deserialize_index ks b =
     (case index_key_size ks of
        Some _ \<Rightarrow> bindr (slice_r b HEADER_SIZE (length b)) (\<lambda>s. deserialize_index_entries ks s)
      | None \<Rightarrow> deserialize_varlen_index b)"

section \<open>The next entry, cell by cell\<close>

abbreviation past :: "direction \<Rightarrow> bytes option \<Rightarrow> bytes \<Rightarrow> bool" where
  "past d prev k \<equiv> beyond (d = Backward) prev k"

lemma set_after: "set (sm_after prev es) = {e \<in> set es. beyond False prev (fst e)}"
  "set (sm_before prev es) = {e \<in> set es. beyond True prev (fst e)}"
  by (auto simp: sm_after_def sm_before_def beyond_def split: option.splits)

lemma next_of_None: "next_of d prev es = None \<longleftrightarrow> (\<forall>e \<in> set es. \<not> past d prev (fst e))"
  supply split_paired_All [simp del]
proof (cases d)
  case Forward
  have "next_of d prev es = None \<longleftrightarrow> set (sm_after prev es) = {}"
    using Forward by (cases "sm_after prev es") (simp_all add: next_of_def)
  then show ?thesis using Forward unfolding set_after by auto
next
  case Backward
  have "next_of d prev es = None \<longleftrightarrow> set (sm_before prev es) = {}"
    using Backward by (simp add: next_of_def last_of_def)
  then show ?thesis using Backward unfolding set_after by auto
qed

lemma next_of_Some:
  assumes "sm_wf es"
  shows "next_of d prev es = Some (k, v) \<longleftrightarrow> (k, v) \<in> set es \<and> past d prev k
    \<and> (\<forall>e \<in> set es. past d prev (fst e) \<longrightarrow> (if d = Backward then fst e \<le> k else k \<le> fst e))"
  using first_of_sm_iff [OF sm_wf_after [OF assms], of prev k v] last_of_sm_iff [OF sm_wf_before [OF assms], of prev k v]
  unfolding set_after by (cases d) (simp_all add: next_of_def conj_assoc Ball_def imp_conjL del: split_paired_All)

definition cell_entries :: "(bytes \<Rightarrow> nat) \<Rightarrow> (bytes \<times> 'v) list \<Rightarrow> nat \<Rightarrow> (bytes \<times> 'v) list" where
  "cell_entries f es m = filter (\<lambda>e. f (fst e) = m) es"

text \<open>Cells visited in the direction of the walk.\<close>

definition ahead :: "direction \<Rightarrow> nat \<Rightarrow> nat \<Rightarrow> bool" where
  "ahead d m n \<longleftrightarrow> (if d = Backward then n \<le> m else m \<le> n)"

definition cells_in_order :: "(bytes \<Rightarrow> nat) \<Rightarrow> (bytes \<times> 'v) list \<Rightarrow> bool" where
  "cells_in_order f es \<longleftrightarrow> sm_wf es
     \<and> (\<forall>a \<in> set es. f (fst a) < HEADER_ELEMENTS \<and> (\<forall>b \<in> set es. fst a \<le> fst b \<longrightarrow> f (fst a) \<le> f (fst b)))"

lemma cells_in_orderD:
  assumes "cells_in_order f es"
  shows "sm_wf es" "a \<in> set es \<Longrightarrow> f (fst a) < HEADER_ELEMENTS"
    and "a \<in> set es \<Longrightarrow> b \<in> set es \<Longrightarrow> fst a \<le> fst b \<Longrightarrow> f (fst a) \<le> f (fst b)"
  using assms unfolding cells_in_order_def by blast+

lemma next_in_cell:
  assumes "cells_in_order f es"
    and "\<And>e. e \<in> set es \<Longrightarrow> past d prev (fst e) \<Longrightarrow> ahead d m (f (fst e))"
    and "next_of d prev (cell_entries f es m) = Some x"
  shows "next_of d prev es = Some x"
proof -
  note ordered = cells_in_orderD(1) [OF assms(1)] and cell_mono = cells_in_orderD(3) [OF assms(1)]
  obtain k v where x: "x = (k, v)" by (cases x)
  have wf: "sm_wf (cell_entries f es m)" using ordered by (simp add: cell_entries_def sm_wf_filter)
  have c: "(k, v) \<in> set es" "f k = m" "past d prev k"
      "\<forall>e \<in> set es. f (fst e) = m \<longrightarrow> past d prev (fst e) \<longrightarrow> (if d = Backward then fst e \<le> k else k \<le> fst e)"
    using assms(3) unfolding x next_of_Some [OF wf] by (simp_all add: cell_entries_def Ball_def del: split_paired_All)
  have "if d = Backward then fst e \<le> k else k \<le> fst e" if e: "e \<in> set es" "past d prev (fst e)" for e
  proof (cases "f (fst e) = m")
    case False
    then have "ahead d m (f (fst e))" "f (fst e) \<noteq> m" using assms(2) e by auto
    then show ?thesis
      using cell_mono [OF e(1) c(1)] cell_mono [OF c(1) e(1)] c(2) linear [of "fst e" k] by (auto simp: ahead_def split: if_splits)
  qed (use c(4) e in blast)
  then show ?thesis unfolding x next_of_Some [OF ordered] using c by blast
qed

lemma next_cell:
  assumes "cells_in_order f es"
    and "\<And>e. e \<in> set es \<Longrightarrow> past d prev (fst e) \<Longrightarrow> ahead d m (f (fst e))" "m < HEADER_ELEMENTS"
    and "next_of d prev (cell_entries f es m) = None"
  shows "case next_bounded m HEADER_ELEMENTS (d = Backward) of
      None \<Rightarrow> next_of d prev es = None
    | Some m' \<Rightarrow> m' < HEADER_ELEMENTS \<and> (\<forall>e \<in> set es. past d prev (fst e) \<longrightarrow> ahead d m' (f (fst e)))"
proof -
  have ne: "f (fst e) \<noteq> m" if "e \<in> set es" "past d prev (fst e)" for e
    using assms(4) that unfolding next_of_None by (simp add: cell_entries_def Ball_def del: split_paired_All) blast
  show ?thesis
  proof (cases d)
    case Forward
    have "m + 1 \<le> f (fst e)" if "e \<in> set es" "past d prev (fst e)" for e
      using ne [OF that] assms(2) [OF that] Forward by (simp add: ahead_def)
    then show ?thesis
      using next_bounded_forward [OF assms(3)] cells_in_orderD(2) [OF assms(1)] Forward unfolding next_of_None by (fastforce simp: ahead_def)
  next
    case Backward
    have "f (fst e) < m" if "e \<in> set es" "past d prev (fst e)" for e
      using ne [OF that] assms(2) [OF that] Backward by (simp add: ahead_def)
    then show ?thesis
      using assms(3) next_bounded_backward [of m] Backward unfolding next_of_None by (fastforce simp: ahead_def)
  qed
qed

section \<open>The contract of a section\<close>

lemma index_of_key:
  assumes "sm_wf es" "i < length es" "fst (es ! i) = k"
  shows "next_index Forward (Some k) es = (if i + 1 < length es then Some (i + 1) else None)"
    and "next_index Backward (Some k) es = checked_pred i"
proof -
  obtain u where u: "u = length (takeWhile (\<lambda>e. fst e \<le> k) es)" by simp
  note le = key_index(2) [OF assms(1), of _ k, folded u]
  have "u \<le> length es" unfolding u by (rule length_takeWhile_le)
  moreover have "i < u" using le [OF assms(2)] assms(3) by simp
  moreover have "\<not> i + 1 < u" if "i + 1 < length es"
  proof -
    have "fst (es ! i) < fst (es ! (i + 1))" using assms(1) that by (auto simp: sm_wf_def sorted_wrt_iff_nth_less)
    then show ?thesis using le [OF that] assms(3) by (simp add: not_le [symmetric])
  qed
  ultimately have "u = i + 1 \<or> i + 1 = length es \<and> u = length es" by auto
  then show "next_index Forward (Some k) es = (if i + 1 < length es then Some (i + 1) else None)"
    unfolding next_index_def Let_def option.case direction.case u [symmetric] by auto
  show "next_index Backward (Some k) es = checked_pred i"
    unfolding next_index_def Let_def option.case direction.case key_at_lower [OF assms, symmetric] by (auto simp: checked_pred_def)
qed

text \<open>A cache holds a section of the blob and points at one of its entries.\<close>

definition cached :: "wal_position \<Rightarrow> (bytes \<Rightarrow> (bytes \<times> wal_position) list \<Rightarrow> bool) \<Rightarrow> (nat \<Rightarrow> bytes)
    \<Rightarrow> (nat \<Rightarrow> (bytes \<times> wal_position) list) \<Rightarrow> index_iter_cache option \<Rightarrow> bool" where
  "cached position holds buf sec c \<longleftrightarrow> (\<forall>p m b i. c = Some (LookupHeaderCache p m b i) \<longrightarrow>
     p = position \<and> m < HEADER_ELEMENTS \<and> b = buf m \<and> holds b (sec m) \<and> i < length (sec m))"

text \<open>The readers of a section, against the entries it holds.\<close>

locale section_buffer =
  fixes holds :: "bytes \<Rightarrow> (bytes \<times> wal_position) list \<Rightarrow> bool"
    and count :: "bytes \<Rightarrow> usize res"
    and key_at :: "bytes \<Rightarrow> usize \<Rightarrow> bytes res"
    and entry_at :: "bytes \<Rightarrow> usize \<Rightarrow> (bytes \<times> wal_position) res"
    and search :: "bytes \<Rightarrow> bytes option \<Rightarrow> direction \<Rightarrow> (bytes \<times> wal_position \<times> usize) option res"
  assumes sorted_holds: "holds b xs \<Longrightarrow> sm_wf xs"
    and count_holds: "holds b xs \<Longrightarrow> count b = Inr (length xs)"
    and key_holds: "holds b xs \<Longrightarrow> i < length xs \<Longrightarrow> key_at b i = Inr (fst (xs ! i))"
    and entry_holds: "holds b xs \<Longrightarrow> i < length xs \<Longrightarrow> entry_at b i = Inr (xs ! i)"
    and search_holds: "holds b xs \<Longrightarrow>
      search b prev d = Inr (map_option (\<lambda>i. (fst (xs ! i), snd (xs ! i), i)) (next_index d prev xs))"
begin

lemma found_in_section:
  assumes "holds b xs"
  shows "bindr (search b prev d) (\<lambda>r. Inr (map_option (\<lambda>(key, val, entry_pos). ((key, val), LookupHeaderCache p m b entry_pos)) r))
    = Inr (map_option (\<lambda>i. (xs ! i, LookupHeaderCache p m b i)) (next_index d prev xs))"
  using search_holds [OF assms, of prev d] by (cases "next_index d prev xs") simp_all

lemma round_eq:
  assumes "read_micro_cell_section reader m = Inr (if sec m = [] then None else Some (buf m))"
    and "sec m \<noteq> [] \<Longrightarrow> holds (buf m) (sec m)" "cached position holds buf sec c"
  shows "mc_round count key_at entry_at search reader prev d position c m
    = Inr (map_option (\<lambda>i. (sec m ! i, LookupHeaderCache position m (buf m) i)) (next_index d prev (sec m)))"
proof (cases "\<exists>p b i. c = Some (LookupHeaderCache p m b i)")
  case True
  then obtain p b i where "c = Some (LookupHeaderCache p m b i)" by blast
  then have c: "c = Some (LookupHeaderCache position m b i)"
    and h: "b = buf m" "holds (buf m) (sec m)" "i < length (sec m)" using assms(3) by (auto simp: cached_def)
  note found = found_in_section [OF h(2), of prev d position m]
  show ?thesis
  proof (cases "\<exists>k. prev = Some k \<and> fst (sec m ! i) = k")
    case True
    then obtain k where k: "prev = Some k" "fst (sec m ! i) = k" by blast
    note nx = index_of_key [OF sorted_holds [OF h(2)] h(3) k(2)]
    have "entry_at (buf m) j = Inr (sec m ! j)" if "next_index d prev (sec m) = Some j" for j
      using entry_holds [OF h(2)] next_of_index(2) [OF sorted_holds [OF h(2)] that] by simp
    then show ?thesis
      using c h k count_holds [OF h(2)] key_holds [OF h(2,3)] nx
      by (cases d) (auto simp: mc_round_def Let_def checked_pred_def)
  next
    case False
    then show ?thesis
      using c h found count_holds [OF h(2)] key_holds [OF h(2,3)]
      by (cases prev) (auto simp: mc_round_def Let_def)
  qed
next
  case False
  then have miss: "(case c of Some (LookupHeaderCache cpos cached_mc buffer last_returned_pos) \<Rightarrow>
      if cached_mc = m then Some (cpos, buffer, last_returned_pos) else None | _ \<Rightarrow> None) = None"
    by (auto split: option.split index_iter_cache.split)
  show ?thesis
  proof (cases "sec m = []")
    case True
    then show ?thesis using assms(1)
      by (cases d; cases prev) (simp_all add: mc_round_def miss next_index_def)
  next
    case False
    then show ?thesis
      using assms(1) found_in_section [OF assms(2) [OF False], of prev d position m]
      by (auto simp: mc_round_def miss)
  qed
qed

lemma walk_eq:
  assumes "cells_in_order f es"
    and sec: "sec = cell_entries f es"
    and read: "\<And>m. m < HEADER_ELEMENTS \<Longrightarrow> read_micro_cell_section reader m = Inr (if sec m = [] then None else Some (buf m))"
    and hold: "\<And>m. m < HEADER_ELEMENTS \<Longrightarrow> sec m \<noteq> [] \<Longrightarrow> holds (buf m) (sec m)"
  shows "m < HEADER_ELEMENTS \<Longrightarrow> cached position holds buf sec c \<Longrightarrow>
    (\<And>e. e \<in> set es \<Longrightarrow> past d prev (fst e) \<Longrightarrow> ahead d m (f (fst e))) \<Longrightarrow>
    \<exists>c'. mc_walk (mc_round count key_at entry_at search reader prev d position) d c m = Inr (next_of d prev es, c')
      \<and> cached position holds buf sec c'"
proof (induction "if d = Backward then m else HEADER_ELEMENTS - m" arbitrary: c m rule: less_induct)
  case less
  let ?round = "mc_round count key_at entry_at search reader prev d position"
  note step = next_in_cell [OF assms(1)] next_cell [OF assms(1)]
  have wf: "sm_wf (sec m)"
    using cells_in_orderD(1) [OF assms(1)] by (simp add: sec cell_entries_def sm_wf_filter)
  have r: "?round c m
      = Inr (map_option (\<lambda>i. (sec m ! i, LookupHeaderCache position m (buf m) i)) (next_index d prev (sec m)))"
    using round_eq [of reader m sec buf position c prev d] read hold less.prems by blast
  show ?case
  proof (cases "next_index d prev (sec m)")
    case (Some i)
    then have i: "i < length (sec m)" "next_of d prev (sec m) = Some (sec m ! i)"
      using next_of_index [OF wf] by simp_all
    then have "next_of d prev es = Some (sec m ! i)" using step(1) [of d prev m] less.prems(3) by (simp add: sec)
    moreover have "sec m \<noteq> []" using i(1) by auto
    ultimately show ?thesis
      using r Some i hold [OF less.prems(1)] less.prems(1) by (subst mc_walk.simps) (auto simp: cached_def)
  next
    case None
    then have "next_of d prev (cell_entries f es m) = None" using next_of_index(1) [OF wf, of d prev] by (simp add: sec)
    note nc = step(2) [OF less.prems(3,1) this]
    show ?thesis
    proof (cases "next_bounded m HEADER_ELEMENTS (d = Backward)")
      case last: None
      then show ?thesis using r None nc by (subst mc_walk.simps) (simp add: cached_def)
    next
      case (Some m')
      have "(if d = Backward then m' else HEADER_ELEMENTS - m') < (if d = Backward then m else HEADER_ELEMENTS - m)"
        using Some less.prems(1) by (auto simp: next_bounded_def split: if_splits)
      moreover have "cached position holds buf sec None" by (simp add: cached_def)
      ultimately show ?thesis
        using less.hyps [of m' None] nc r None Some by (subst mc_walk.simps) simp
    qed
  qed
qed

end

subsection \<open>Fixed-size sections\<close>

lemma fixed_reads:
  assumes "fixed_section n b xs" "i < length xs"
  shows "fixed_key_at n (n + 12) b i = Inr (fst (xs ! i))" "fixed_entry_at n (n + 12) b i = Inr (xs ! i)"
  using fixed_section_at [OF assms] by (simp_all add: fixed_key_at_def fixed_entry_at_def wp_from_slice_write)

lemma upper_lower:
  assumes "sm_wf xs"
  shows "length (takeWhile (\<lambda>e. fst e \<le> k) xs) = (if map_of xs k = None then lower k xs else lower k xs + 1)"
proof -
  obtain r u where r: "r = lower k xs" and u: "u = length (takeWhile (\<lambda>e. fst e \<le> k) xs)" by simp
  have le: "r \<le> length xs" "u \<le> length xs" unfolding r u by (rule length_takeWhile_le)+
  note kr = key_index(1) [OF assms, of _ k, folded r] and ku = key_index(2) [OF assms, of _ k, folded u]
  have "u = (if map_of xs k = None then r else r + 1)"
  proof (cases "map_of xs k = None")
    case True
    then have ne: "fst (xs ! i) \<noteq> k" if "i < length xs" for i
      using nth_mem [OF that] by (metis map_of_eq_None_iff image_eqI)
    have "i < u \<longleftrightarrow> i < r" if "i < length xs" for i
      using kr [OF that] ku [OF that] ne [OF that] by (simp add: order.strict_iff_order)
    then have "\<not> u < r" "\<not> r < u" using le by (metis less_irrefl less_le_trans)+
    then show ?thesis using True by simp
  next
    case False
    then have at: "r < length xs" "fst (xs ! r) = k" using lookup_at_lower_bound [OF assms r] by (auto split: if_splits)
    have "next_index Forward (Some k) xs = (if r + 1 < length xs then Some (r + 1) else None)"
      by (rule index_of_key(1) [OF assms at])
    moreover have "r < u" using ku [OF at(1)] at(2) by simp
    ultimately show ?thesis
      using False le unfolding next_index_def Let_def option.case direction.case u [symmetric] by (auto split: if_splits)
  qed
  then show ?thesis using r u by simp
qed

lemma fixed_search:
  assumes "index_key_size ks = Some n" "fixed_section n b xs" "sm_wf xs"
  shows "search_in_micro_cell_buffer ks b prev d
    = Inr (map_option (\<lambda>i. (fst (xs ! i), snd (xs ! i), i)) (next_index d prev xs))"
proof (cases "xs = []")
  case True
  then show ?thesis
    using assms by (cases d; cases prev)
      (simp_all add: search_in_micro_cell_buffer_def index_key_element_size_def fixed_section_def next_index_def)
next
  case False
  have c: "b \<noteq> []" "length b div (n + 12) = length xs" using fixed_section_length [OF assms(2)] False by auto
  have es: "index_key_element_size ks = Some (n, n + 12)"
    using assms(1) by (simp add: index_key_element_size_def index_element_size_def)
  have fin: "(if length xs \<le> i then Inr None else bindr (fixed_entry_at n (n + 12) b i) (\<lambda>(key, pos). Inr (Some (key, pos, i))))
      = Inr (if i < length xs then Some (fst (xs ! i), snd (xs ! i), i) else None)" for i
    using fixed_reads(2) [OF assms(2), of i] by (simp add: case_prod_beta)
  show ?thesis
  proof (cases prev)
    case None
    show ?thesis
      using False c fin by (cases d) (simp_all add: search_in_micro_cell_buffer_def es None next_index_def first_in_range_def Let_def)
  next
    case (Some k)
    obtain r where r: "r = lower k xs" by simp
    have rl: "r \<le> length xs" unfolding r by (rule length_takeWhile_le)
    obtain ins where bs: "binary_search b k (n + 12) n
        = Inr (case map_of xs k of None \<Rightarrow> (None, r, None) | Some p \<Rightarrow> (Some r, ins, Some p))"
      using binary_search_eq [OF assms(2,3) r] by blast
    have "search_in_micro_cell_buffer ks b prev d =
        (case (case d of Forward \<Rightarrow> Some (if map_of xs k = None then r else r + 1) | Backward \<Rightarrow> checked_pred r) of
           None \<Rightarrow> Inr None
         | Some i \<Rightarrow> Inr (if i < length xs then Some (fst (xs ! i), snd (xs ! i), i) else None))"
      using c False bs unfolding search_in_micro_cell_buffer_def es Some
      by (cases d; cases "map_of xs k") (simp_all add: fin cong: option.case_cong)
    then show ?thesis
      unfolding Some next_index_def Let_def option.case upper_lower [OF assms(3)] r [symmetric]
      using rl by (cases d) (auto simp: checked_pred_def)
  qed
qed

interpretation fixed: section_buffer "\<lambda>b xs. index_key_size ks = Some n \<and> fixed_section n b xs \<and> sm_wf xs"
  "\<lambda>b. Inr (length b div (n + 12))" "fixed_key_at n (n + 12)" "fixed_entry_at n (n + 12)" "search_in_micro_cell_buffer ks"
  for ks n
  by unfold_locales (auto simp: fixed_reads fixed_search fixed_section_length)

subsection \<open>Variable-length sections\<close>

text \<open>What the readers report for an entry of a packed section.\<close>

definition reported :: "entry \<Rightarrow> bytes \<times> wal_position" where
  "reported e = (fst e, into_update_position (snd e))"

definition varlen_section_holds :: "bytes \<Rightarrow> (bytes \<times> wal_position) list \<Rightarrow> bool" where
  "varlen_section_holds b xs \<longleftrightarrow> (\<exists>es. flat_view None b es \<and> sm_wf es \<and> xs = map reported es)"

lemma varlen_reads:
  assumes "flat_view None b es"
  shows "flat_varlen_count b = Inr (length es)"
    and "i < length es \<Longrightarrow> flat_varlen_entry_at b i = Inr (reported (es ! i))"
  using assms by (simp_all add: flat_view_def flat_varlen_count_def flat_varlen_entry_at_def reported_def case_prod_beta)

lemma next_index_keys: "map fst xs = map fst ys \<Longrightarrow> next_index d prev xs = next_index d prev ys"
proof -
  assume eq: "map fst xs = map fst ys"
  have "length (takeWhile (\<lambda>e. P (fst e)) xs) = length (takeWhile (\<lambda>e. P (fst e)) ys)" for P
    using arg_cong [OF eq, of "\<lambda>l. length (takeWhile P l)"] by (simp add: takeWhile_map comp_def)
  from this [of "\<lambda>k. k \<le> the prev"] this [of "\<lambda>k. k < the prev"] show ?thesis
    using map_eq_imp_length_eq [OF eq] by (cases d; cases prev) (simp_all add: next_index_def Let_def)
qed

lemma varlen_search:
  assumes "flat_view None b es" "sm_wf es"
  shows "search_in_varlen_micro_cell_buffer b prev d
    = Inr (map_option (\<lambda>i. (fst (es ! i), into_update_position (snd (es ! i)), i)) (next_index d prev es))"
proof (cases "es = []")
  case True
  then show ?thesis
    using varlen_reads(1) [OF assms(1)] by (cases d; cases prev)
      (simp_all add: search_in_varlen_micro_cell_buffer_def next_index_def)
next
  case False
  note rd = varlen_reads [OF assms(1)]
  have fin: "(if length es \<le> i then Inr None else bindr (flat_varlen_entry_at b i) (\<lambda>(key, pos). Inr (Some (key, pos, i))))
      = Inr (if i < length es then Some (fst (es ! i), into_update_position (snd (es ! i)), i) else None)" for i
    using rd(2) [of i] by (simp add: reported_def)
  show ?thesis
  proof (cases prev)
    case None
    show ?thesis
      using False rd(1) fin by (cases d) (simp_all add: search_in_varlen_micro_cell_buffer_def None next_index_def first_in_range_def)
  next
    case (Some k)
    obtain r where r: "r = lower k es" by simp
    have rl: "r \<le> length es" unfolding r by (rule length_takeWhile_le)
    have lb: "flat_varlen_lower_bound b k = Inr r"
      unfolding flat_varlen_lower_bound_def r by (rule flat_bounds_eq(1) [OF assms])
    have ex: "(if r < length es then bindr (flat_varlen_entry_at b r) (\<lambda>(q, _). Inr (q = k)) else Inr False)
        = Inr (map_of es k \<noteq> None)"
      using rd(2) [of r] lookup_at_lower_bound [OF assms(2) r] by (simp add: reported_def)
    have "search_in_varlen_micro_cell_buffer b prev d =
        (case (case d of Forward \<Rightarrow> Some (if map_of es k = None then r else r + 1) | Backward \<Rightarrow> checked_pred r) of
           None \<Rightarrow> Inr None
         | Some i \<Rightarrow> Inr (if i < length es then Some (fst (es ! i), into_update_position (snd (es ! i)), i) else None))"
      using rd(1) False lb unfolding search_in_varlen_micro_cell_buffer_def Some
      by (cases d) (simp_all add: fin ex cong: option.case_cong)
    then show ?thesis
      unfolding Some next_index_def Let_def option.case upper_lower [OF assms(2)] r [symmetric]
      using rl by (cases d) (auto simp: checked_pred_def)
  qed
qed

interpretation varlen: section_buffer varlen_section_holds flat_varlen_count
  "\<lambda>b i. bindr (flat_varlen_entry_at b i) (\<lambda>(k, _). Inr k)" flat_varlen_entry_at search_in_varlen_micro_cell_buffer
proof
  fix b xs
  assume "varlen_section_holds b xs"
  then obtain es where es: "flat_view None b es" "sm_wf es" "xs = map reported es" by (auto simp: varlen_section_holds_def)
  have keys: "map fst xs = map fst es" using es(3) by (simp add: reported_def)
  show "sm_wf xs" using es(2) sm_wf_map_keys [OF keys] by simp
  show "flat_varlen_count b = Inr (length xs)" using varlen_reads(1) [OF es(1)] es(3) by simp
  show "flat_varlen_entry_at b i = Inr (xs ! i)" "bindr (flat_varlen_entry_at b i) (\<lambda>(k, _). Inr k) = Inr (fst (xs ! i))"
    if "i < length xs" for i
    using varlen_reads(2) [OF es(1), of i] that es(3) by (simp_all add: case_prod_beta)
  show "search_in_varlen_micro_cell_buffer b prev d = Inr (map_option (\<lambda>i. (fst (xs ! i), snd (xs ! i), i)) (next_index d prev xs))" for prev d
    using varlen_search [OF es(1,2), of prev d] next_index_keys [OF keys, of d prev] next_of_index(2) [OF es(2), of d prev] es(3)
    by (cases "next_index d prev es") (simp_all add: reported_def)
qed

section \<open>Micro-cells follow the key order\<close>

definition mcell :: "key_space_desc \<Rightarrow> bytes \<Rightarrow> nat" where
  "mcell ks k = (case key_micro_cell ks k of Inr m \<Rightarrow> m | Inl _ \<Rightarrow> 0)"

lemma key_micro_cell_eq:
  assumes "index_prefix_range ks c = Inr (lo, hi)" "cell_id_of ks k = Inr c" "index_prefix_u32 ks k = Inr p"
    and "unat lo \<le> unat p" "unat p < unat hi" "unat hi \<le> 2 ^ 32"
  shows "key_micro_cell ks k = Inr ((unat p - unat lo) * 128 div (unat hi - unat lo))"
    and "(unat p - unat lo) * 128 div (unat hi - unat lo) < 128"
proof -
  let ?start = "ucast lo :: u32"
  have s: "unat ?start = unat lo" using assms(4-6) by (simp add: unsigned_ucast_eq take_bit_nat_eq_self)
  have o: "unat (p - ?start) = unat p - unat lo" using s assms(4) by (simp add: unat_sub word_le_nat_alt)
  have h: "unat (hi - lo) = unat hi - unat lo" using assms(4,5) by (simp add: unat_sub word_le_nat_alt)
  have "unat (p - ?start) < unat (hi - lo)" using o h assms(4,5) by simp
  from rescale_u32_eq [OF this, of 128] have
      r: "rescale_u32 (p - ?start) (hi - lo) 128 = Inr (of_nat ((unat p - unat lo) * 128 div (unat hi - unat lo)))"
      and lt: "(unat p - unat lo) * 128 div (unat hi - unat lo) < 128" by (simp_all add: o h)
  have "\<not> p < ?start" using s assms(4) by (simp add: word_less_nat_alt)
  then show "key_micro_cell ks k = Inr ((unat p - unat lo) * 128 div (unat hi - unat lo))"
    using assms(1-3) r less_trans [OF lt, of "2 ^ 32"]
    by (simp add: key_micro_cell_def HEADER_ELEMENTS_def unat_of_nat)
  show "(unat p - unat lo) * 128 div (unat hi - unat lo) < 128" by (rule lt)
qed

lemma key_micro_cell_in:
  assumes "ks_ok ks" "cell_id_of ks k = Inr c"
  shows "key_micro_cell ks k = Inr (mcell ks k)" "mcell ks k < HEADER_ELEMENTS"
proof -
  obtain lo hi p where "index_prefix_range ks c = Inr (lo, hi)" "index_prefix_u32 ks k = Inr p"
      "unat lo \<le> unat p" "unat p < unat hi" "unat hi \<le> 2 ^ 32" using prefix_in_cell [OF assms] by blast
  note e = key_micro_cell_eq [OF this(1) assms(2) this(2-5)]
  then show "key_micro_cell ks k = Inr (mcell ks k)" "mcell ks k < HEADER_ELEMENTS"
    by (simp_all add: mcell_def HEADER_ELEMENTS_def)
qed

lemma prefix_mono:
  assumes "ks_ok ks" "cell_id_of ks k = Inr c" "cell_id_of ks k' = Inr c" "k \<le> k'"
    and "index_prefix_u32 ks k = Inr p" "index_prefix_u32 ks k' = Inr p'"
  shows "p \<le> p'"
proof (cases "ks_type ks")
  case (Uniform u)
  then show ?thesis using assms(5,6) starting_u32_mono [OF assms(4)] by (simp add: index_prefix_u32_def index_prefix_def)
next
  case (PrefixedUniform u)
  let ?n = "prefix_len_bytes u - 1" and ?d = "discard_prefix_bytes u"
  have pos: "0 < prefix_len_bytes u" using assms(1) PrefixedUniform by (simp add: ks_ok_def)
  have len: "prefix_len_bytes u \<le> length k" "prefix_len_bytes u \<le> length k'"
    and c: "take ?n k = take ?n k'" "cluster_bits u (k ! ?n) = cluster_bits u (k' ! ?n)"
    using assms(2,3) prefixed_cell_id [OF PrefixedUniform pos] by (auto split: if_splits)
  have t: "take (prefix_len_bytes u) x = take ?n x @ [x ! ?n]" if "prefix_len_bytes u \<le> length x" for x
    using that pos take_Suc_conv_app_nth [of ?n x] by simp
  have eq: "take ?d k = take ?d k'"
  proof (cases "has_cluster_bits u")
    case False
    then have "k ! ?n = k' ! ?n" using c(2) cluster_byte(5) [OF assms(1) PrefixedUniform] by simp
    then show ?thesis using False c(1) t [OF len(1)] t [OF len(2)] by (simp add: discard_prefix_bytes_def)
  qed (use c(1) in \<open>simp add: discard_prefix_bytes_def\<close>)
  have dl: "?d \<le> length k" "?d \<le> length k'" using len by (auto simp: discard_prefix_bytes_def)
  then have "take ?d k @ drop ?d k \<le> take ?d k' @ drop ?d k'" using assms(4) by simp
  then have "drop ?d k \<le> drop ?d k'"
    using append_le_iff [of "take ?d k" "take ?d k'" "drop ?d k" "drop ?d k'"] dl by (simp add: eq del: append_take_drop_id)
  then show ?thesis
    using assms(5,6) PrefixedUniform dl starting_u32_mono [of "drop ?d k" "drop ?d k'"]
    by (simp add: index_prefix_u32_def index_prefix_def slice_r_def)
qed

lemma mcell_mono:
  assumes "ks_ok ks" "cell_id_of ks k = Inr c" "cell_id_of ks k' = Inr c" "k \<le> k'"
  shows "mcell ks k \<le> mcell ks k'"
proof -
  obtain lo hi p where p: "index_prefix_range ks c = Inr (lo, hi)" "index_prefix_u32 ks k = Inr p"
      "unat lo \<le> unat p" "unat p < unat hi" "unat hi \<le> 2 ^ 32" using prefix_in_cell [OF assms(1,2)] by blast
  obtain p' where p': "index_prefix_u32 ks k' = Inr p'" "unat lo \<le> unat p'" "unat p' < unat hi"
    using prefix_in_cell [OF assms(1,3)] p(1) by auto
  have "unat p \<le> unat p'" using prefix_mono [OF assms p(2) p'(1)] by (simp add: word_le_nat_alt)
  then have "(unat p - unat lo) * 128 div (unat hi - unat lo) \<le> (unat p' - unat lo) * 128 div (unat hi - unat lo)"
    by (intro div_le_mono mult_le_mono1 diff_le_mono)
  then show ?thesis
    using key_micro_cell_eq(1) [OF p(1) assms(2) p(2-5)] key_micro_cell_eq(1) [OF p(1) assms(3) p' p(5)] by (simp add: mcell_def)
qed

text \<open>The entries of one cell of the key space.\<close>

definition in_cell :: "key_space_desc \<Rightarrow> cell_id \<Rightarrow> (bytes \<times> 'v) list \<Rightarrow> bool" where
  "in_cell ks c es \<longleftrightarrow> list_all (\<lambda>e. cell_id_of ks (fst e) = Inr c) es"

lemma in_cell_keys: "in_cell ks c xs \<longleftrightarrow> (\<forall>k \<in> set (map fst xs). cell_id_of ks k = Inr c)"
  by (simp add: in_cell_def list_all_iff)

lemma micro_cells_in_order:
  assumes "ks_ok ks" "sm_wf es" "in_cell ks c es"
  shows "cells_in_order (mcell ks) es"
  using assms mcell_mono [OF assms(1)] key_micro_cell_in(2) [OF assms(1)]
  unfolding cells_in_order_def in_cell_def list_all_iff by blast

section \<open>The layout of a blob\<close>

text \<open>Sections in micro-cell order behind the header that locates them.\<close>

definition sec_from :: "(nat \<Rightarrow> bytes) \<Rightarrow> nat \<Rightarrow> nat" where
  "sec_from sec m = HEADER_SIZE + length (concat (map sec [0..<m]))"

definition header_pair :: "(nat \<Rightarrow> bytes) \<Rightarrow> nat \<Rightarrow> u32 \<times> u32" where
  "header_pair sec m = (if sec m = [] then (0, 0) else (of_nat (sec_from sec m), of_nat (sec_from sec (Suc m))))"

definition pair_bytes :: "u32 \<times> u32 \<Rightarrow> bytes" where
  "pair_bytes h = put_u32 (fst h) @ put_u32 (snd h)"

definition layout :: "(nat \<Rightarrow> bytes) \<Rightarrow> bytes" where
  "layout sec = concat (map (\<lambda>m. pair_bytes (header_pair sec m)) [0..<HEADER_ELEMENTS])
     @ concat (map sec [0..<HEADER_ELEMENTS])"

lemma length_pair_bytes [simp]: "length (pair_bytes h) = 8"
  by (simp add: pair_bytes_def)

lemma length_pairs: "length (concat (map (\<lambda>m. pair_bytes (h m)) ms)) = 8 * length ms"
  by (induction ms) simp_all

lemma length_layout: "length (layout sec) = sec_from sec HEADER_ELEMENTS"
  by (simp add: layout_def sec_from_def length_pairs HEADER_SIZE_def HEADER_ELEMENT_SIZE_def)

lemma upt_concat_split:
  "m < n \<Longrightarrow> concat (map g [0..<n]) = concat (map g [0..<m]) @ g m @ concat (map g [Suc m..<n])"
  using upt_add_eq_append [of 0 m "n - m"] upt_conv_Cons [of m n] by simp

lemma layout_header_at:
  assumes "m < HEADER_ELEMENTS"
  shows "take 8 (drop (m * 8) (layout sec)) = pair_bytes (header_pair sec m)"
  using upt_concat_split [OF assms, of "\<lambda>m. pair_bytes (header_pair sec m)"] length_pairs [of "header_pair sec" "[0..<m]"]
  by (simp add: layout_def)

lemma layout_section_at:
  assumes "m < HEADER_ELEMENTS"
  shows "take (sec_from sec (Suc m) - sec_from sec m) (drop (sec_from sec m) (layout sec)) = sec m"
  using upt_concat_split [OF assms, of sec] length_pairs [of "header_pair sec" "[0..<HEADER_ELEMENTS]"]
  by (simp add: layout_def sec_from_def HEADER_SIZE_def HEADER_ELEMENT_SIZE_def)

lemma sec_from_mono:
  assumes "m < HEADER_ELEMENTS"
  shows "sec_from sec (Suc m) = sec_from sec m + length (sec m)" "sec_from sec (Suc m) \<le> sec_from sec HEADER_ELEMENTS"
  using upt_concat_split [OF assms, of sec] by (simp_all add: sec_from_def)

lemma read_layout:
  assumes "reads_as r (layout sec)" "length (layout sec) < 2 ^ 32" "m < HEADER_ELEMENTS"
  shows "read_micro_cell_section r m = Inr (if sec m = [] then None else Some (sec m))"
proof -
  have le: "sec_from sec (Suc m) \<le> length (layout sec)" "1024 \<le> sec_from sec m" "(m + 1) * 8 \<le> length (layout sec)"
    using sec_from_mono(2) [OF assms(3)] assms(3)
    by (simp_all add: length_layout sec_from_def HEADER_SIZE_def HEADER_ELEMENT_SIZE_def HEADER_ELEMENTS_def)
  have "rr_read r (m * 8) ((m + 1) * 8) = Inr (take 8 (drop (m * 8) (layout sec)))"
    using assms(1) le(3) unfolding reads_as_def by simp
  then have hd: "rr_read r (m * HEADER_ELEMENT_SIZE) ((m + 1) * HEADER_ELEMENT_SIZE) = Inr (pair_bytes (header_pair sec m))"
    unfolding layout_header_at [OF assms(3)] HEADER_ELEMENT_SIZE_def .
  have split: "read_micro_cell_section r m = (if header_pair sec m = (0, 0) then Inr None
      else bindr (rr_read r (unat (fst (header_pair sec m))) (unat (snd (header_pair sec m)))) (\<lambda>b. Inr (Some b)))"
    unfolding read_micro_cell_section_def hd using get_put(2) [of "snd (header_pair sec m)" "[]"]
    by (cases "header_pair sec m") (simp add: pair_bytes_def)
  show ?thesis
  proof (cases "sec m = []")
    case False
    have lt: "sec_from sec m < sec_from sec (Suc m)" using sec_from_mono(1) [OF assms(3), of sec] False by simp
    have u: "unat (of_nat (sec_from sec m) :: u32) = sec_from sec m" "unat (of_nat (sec_from sec (Suc m)) :: u32) = sec_from sec (Suc m)"
      using lt le(1) assms(2) by (intro unat_of_pow, simp)+
    then have "(of_nat (sec_from sec m) :: u32) \<noteq> 0" using le(2) by (metis unat_0 not_numeral_le_zero)
    moreover have "rr_read r (sec_from sec m) (sec_from sec (Suc m)) = Inr (sec m)"
      using assms(1) lt le(1) layout_section_at [OF assms(3), of sec] unfolding reads_as_def by simp
    ultimately show ?thesis using False u unfolding split by (simp add: header_pair_def)
  qed (simp add: split header_pair_def)
qed

section \<open>Cutting entries into cells\<close>

lemma filter_less_Suc:
  "sorted (map g xs) \<Longrightarrow> filter (\<lambda>x. g x < Suc m) xs = filter (\<lambda>x. g x < m) xs @ filter (\<lambda>x. g x = m) xs"
proof (induction xs)
  case (Cons x xs)
  show ?case
  proof (cases "g x < m")
    case False
    then have "filter (\<lambda>x. g x < m) xs = []" using Cons.prems by (auto simp: filter_empty_conv)
    then show ?thesis using False Cons by auto
  qed (use Cons in auto)
qed simp

lemma cells_below: "sorted (map g xs) \<Longrightarrow> concat (map (\<lambda>m. filter (\<lambda>x. g x = m) xs) [0..<n]) = filter (\<lambda>x. g x < n) xs"
  by (induction n) (simp_all add: filter_less_Suc)

lemma cells_sorted: "cells_in_order f es \<Longrightarrow> sorted (map (\<lambda>e. f (fst e)) es)"
  unfolding sorted_map
  by (rule sorted_wrt_mono_rel [where P = "\<lambda>x y. fst x < fst y"])
    (auto simp: cells_in_order_def sm_wf_def sorted_wrt_map less_imp_le)

lemma cells_concat: "cells_in_order f es \<Longrightarrow> concat (map (cell_entries f es) [0..<HEADER_ELEMENTS]) = es"
  using cells_below [OF cells_sorted, of f es HEADER_ELEMENTS] cells_in_orderD(2) [of f es]
  by (simp add: cell_entries_def [abs_def] filter_id_conv)

section \<open>Writing fixed-size entries\<close>

text \<open>The builder after the entries \<open>xs\<close> of size \<open>z\<close>.\<close>

definition pos_of :: "(bytes \<Rightarrow> nat) \<Rightarrow> nat \<Rightarrow> (bytes \<times> 'v) list \<Rightarrow> nat \<Rightarrow> nat" where
  "pos_of f z xs m = HEADER_SIZE + z * length (filter (\<lambda>e. f (fst e) < m) xs)"

definition built_pair :: "(bytes \<Rightarrow> nat) \<Rightarrow> nat \<Rightarrow> (bytes \<times> 'v) list \<Rightarrow> nat \<Rightarrow> u32 \<times> u32" where
  "built_pair f z xs m = (if cell_entries f xs m = [] then (0, 0)
     else (of_nat (pos_of f z xs m), if m = f (fst (last xs)) then 0 else of_nat (pos_of f z xs (Suc m))))"

definition built :: "(bytes \<Rightarrow> nat) \<Rightarrow> nat \<Rightarrow> (bytes \<times> 'v) list \<Rightarrow> index_table_header_builder" where
  "built f z xs = \<lparr>hb_header = map (built_pair f z xs) [0..<HEADER_ELEMENTS],
     last_micro_cell = (if xs = [] then None else Some (f (fst (last xs))))\<rparr>"

lemma concat_map_concat: "concat (map g (concat xss)) = concat (map (\<lambda>xs. concat (map g xs)) xss)"
  by (induction xss) simp_all

lemma all_below: "\<forall>x \<in> set xs. P x \<Longrightarrow> length (filter P xs) = length xs"
  by (simp add: filter_id_conv [THEN iffD2])

lemma map_upt_update: "i < n \<Longrightarrow> (map g [0..<n])[i := v] = map (g(i := v)) [0..<n]"
  by (rule nth_equalityI) (auto simp: nth_list_update)

lemma add_key_built:
  assumes "key_micro_cell ks (fst e) = Inr (f (fst e))" "HEADER_SIZE + z * length xs < unat u32_MAX"
    and "\<forall>x \<in> set (xs @ [e]). f (fst x) \<le> f (fst e)" "f (fst e) < HEADER_ELEMENTS"
    and "sorted (map (\<lambda>e. f (fst e)) xs)"
  shows "header_add_key ks (built f z xs) (fst e) (HEADER_SIZE + z * length xs) = Inr (built f z (xs @ [e]))"
proof -
  let ?m = "f (fst e)" and ?o = "of_nat (HEADER_SIZE + z * length xs) :: u32"
  have co: "check_offset (HEADER_SIZE + z * length xs) = Inr ?o" using assms(2) by (simp add: check_offset_def)
  have pos: "pos_of f z (xs @ [e]) m = pos_of f z xs m" if "m \<le> ?m" for m using that by (simp add: pos_of_def)
  show ?thesis
  proof (cases "xs \<noteq> [] \<and> f (fst (last xs)) = ?m")
    case True
    have "built_pair f z (xs @ [e]) m = built_pair f z xs m" for m
    proof (cases "m \<le> ?m")
      case le: True
      then show ?thesis using True pos [of m] pos [of "Suc m"] last_in_set [of xs]
        by (cases "m = ?m") (auto simp: built_pair_def cell_entries_def filter_empty_conv)
    next
      case False
      then show ?thesis using assms(3) by (auto simp: built_pair_def cell_entries_def filter_empty_conv)
    qed
    then have "built f z (xs @ [e]) = built f z xs" using True by (simp add: built_def)
    then show ?thesis using True co assms(1) by (simp add: header_add_key_def built_def)
  next
    case new: False
    have below: "f (fst x) < ?m" if "x \<in> set xs" for x
    proof -
      have "f (fst x) \<le> f (fst (last xs))"
        using assms(5) that by (cases xs rule: rev_cases) (auto simp: sorted_append)
      moreover have "xs \<noteq> []" using that by auto
      moreover from this have "f (fst (last xs)) \<le> ?m" using assms(3) by simp
      ultimately show ?thesis using new by simp
    qed
    have emp: "cell_entries f xs ?m = []" unfolding cell_entries_def filter_empty_conv using below by (metis less_irrefl)
    have om: "?o = of_nat (pos_of f z (xs @ [e]) ?m)" using below by (simp add: pos_of_def all_below)
    show ?thesis
    proof (cases "xs = []")
      case True
      have "(built_pair f z xs)(?m := (?o, 0)) = built_pair f z [e]"
        using om True by (auto simp: fun_eq_iff built_pair_def cell_entries_def)
      moreover have "built_pair f z xs ?m = (0, 0)" using emp by (simp add: built_pair_def)
      ultimately show ?thesis
        using True co assms(1,4) by (simp add: header_add_key_def built_def set_start_def index_r_def map_upt_update)
    next
      case False
      let ?l = "f (fst (last xs))"
      have l: "?l < ?m" using below False by simp
      have "\<forall>x \<in> set xs. f (fst x) \<le> ?l"
        using assms(5) by (cases xs rule: rev_cases) (auto simp: sorted_append)
      then have ol: "?o = of_nat (pos_of f z xs (Suc ?l))" by (simp add: pos_of_def all_below less_Suc_eq_le)
      have "cell_entries f xs ?l \<noteq> []" using False by (auto simp: cell_entries_def filter_empty_conv intro: last_in_set)
      then have "(((built_pair f z xs)(?l := (fst (built_pair f z xs ?l), ?o)))(?m := (?o, 0))) m = built_pair f z (xs @ [e]) m" for m
        using l om ol emp pos [of m] pos [of "Suc m"] below
        by (cases "m < ?m") (auto simp: built_pair_def cell_entries_def filter_empty_conv)
      then have fin: "((built_pair f z xs)(?l := (fst (built_pair f z xs ?l), ?o)))(?m := (?o, 0)) = built_pair f z (xs @ [e])"
        by (simp add: fun_eq_iff)
      have "built_pair f z xs ?m = (0, 0)" using emp by (simp add: built_pair_def)
      then show ?thesis
        using False new l co assms(1,4) fin
        by (simp add: header_add_key_def built_def set_start_def set_end_def index_r_def map_upt_update)
    qed
  qed
qed

lemma visit_built:
  assumes "\<And>e. e \<in> set es \<Longrightarrow> key_micro_cell ks (fst e) = Inr (f (fst e)) \<and> f (fst e) < HEADER_ELEMENTS \<and> length (disk_bytes ks e) = z"
    and "HEADER_SIZE + z * length (xs @ es) < unat u32_MAX" "sorted (map (\<lambda>e. f (fst e)) (xs @ es))"
  shows "visit ks (header_add_key ks) es (HEADER_SIZE + z * length xs) (built f z xs) = Inr (built f z (xs @ es))"
  using assms
proof (induction es arbitrary: xs)
  case (Cons e es)
  have "header_add_key ks (built f z xs) (fst e) (HEADER_SIZE + z * length xs) = Inr (built f z (xs @ [e]))"
    using Cons.prems by (intro add_key_built) (auto simp: sorted_append algebra_simps)
  moreover have "visit ks (header_add_key ks) es (HEADER_SIZE + z * length (xs @ [e])) (built f z (xs @ [e])) = Inr (built f z ((xs @ [e]) @ es))"
    using Cons.prems by (intro Cons.IH) auto
  ultimately show ?case using Cons.prems(1) [of e] by (simp add: algebra_simps)
qed simp

lemma fixed_elem_ne [simp]: "fixed_elem e \<noteq> []"
  by (simp add: fixed_elem_def)

abbreviation fixed_sec :: "(bytes \<Rightarrow> nat) \<Rightarrow> (bytes \<times> wal_position) list \<Rightarrow> nat \<Rightarrow> bytes" where
  "fixed_sec f es m \<equiv> concat (map fixed_elem (cell_entries f es m))"

lemma length_cells_below:
  "sorted (map (\<lambda>e. f (fst e)) es) \<Longrightarrow> \<forall>e \<in> set es. length (fixed_elem e) = z \<Longrightarrow>
     sec_from (fixed_sec f es) m = pos_of f z es m"
proof (induction m)
  case (Suc m)
  have "length (fixed_sec f es m) = z * length (cell_entries f es m)"
    using Suc.prems(2) length_concat_fixed [of "map fixed_elem (cell_entries f es m)" z] by (simp add: cell_entries_def)
  then show ?case
    using Suc filter_less_Suc [OF Suc.prems(1), of m] by (simp add: sec_from_def pos_of_def cell_entries_def algebra_simps)
qed (simp add: sec_from_def pos_of_def)

lemma write_header_built:
  assumes "cells_in_order f es" "\<forall>e \<in> set es. length (fixed_elem e) = z" "HEADER_SIZE + z * length es < unat u32_MAX"
  shows "write_header (built f z es) (HEADER_SIZE + z * length es)
    = Inr (concat (map (\<lambda>m. pair_bytes (header_pair (fixed_sec f es) m)) [0..<HEADER_ELEMENTS]))"
proof -
  let ?o = "of_nat (HEADER_SIZE + z * length es) :: u32"
  have co: "check_offset (HEADER_SIZE + z * length es) = Inr ?o" using assms(3) by (simp add: check_offset_def)
  note pos = length_cells_below [OF cells_sorted [OF assms(1)] assms(2)]
  have sec: "fixed_sec f es m = [] \<longleftrightarrow> cell_entries f es m = []" for m
    by (cases "cell_entries f es m") (simp_all add: fixed_elem_def)
  have hp: "header_pair (fixed_sec f es) m = (if cell_entries f es m = [] then (0, 0)
      else (of_nat (pos_of f z es m), of_nat (pos_of f z es (Suc m))))" for m
    unfolding header_pair_def sec pos by (rule refl)
  have pb: "(\<lambda>(s, e). put_u32 s @ put_u32 e) = pair_bytes" by (simp add: pair_bytes_def fun_eq_iff)
  show ?thesis
  proof (cases "es = []")
    case True
    then show ?thesis using co
      by (simp add: write_header_def built_def pb built_pair_def header_pair_def cell_entries_def comp_def)
  next
    case False
    let ?l = "f (fst (last es))"
    have l: "?l < HEADER_ELEMENTS" using cells_in_orderD(2) [OF assms(1)] False by simp
    have "\<forall>x \<in> set es. f (fst x) \<le> ?l"
      using cells_sorted [OF assms(1)] by (cases es rule: rev_cases) (auto simp: sorted_append)
    then have ol: "?o = of_nat (pos_of f z es (Suc ?l))" by (simp add: pos_of_def all_below less_Suc_eq_le)
    have "cell_entries f es ?l \<noteq> []" using False by (auto simp: cell_entries_def filter_empty_conv intro: last_in_set)
    then have "((built_pair f z es)(?l := (fst (built_pair f z es ?l), ?o))) m = header_pair (fixed_sec f es) m" for m
      using ol by (auto simp: built_pair_def hp)
    then have "(built_pair f z es)(?l := (fst (built_pair f z es ?l), ?o)) = header_pair (fixed_sec f es)" by blast
    then show ?thesis
      using False l co by (simp add: write_header_def built_def set_end_def index_r_def map_upt_update pb comp_def del: fun_upd_apply)
  qed
qed

lemma cells_body:
  assumes "cells_in_order f es"
  shows "concat (map (\<lambda>m. concat (map g (cell_entries f es m))) [0..<HEADER_ELEMENTS]) = concat (map g es)"
  using arg_cong [OF cells_concat [OF assms], of "\<lambda>l. concat (map g l)"] by (simp add: concat_map_concat comp_def)

lemma serialize_fixed:
  assumes "table_wf t" "index_key_size ks = Some n" "storable ks t" "ks_ok ks" "in_cell ks c (combined t)"
    and "HEADER_SIZE + (n + 12) * length (combined t) < unat u32_MAX"
  shows "header_serialize_index t ks = Inr (layout (fixed_sec (mcell ks) (map observed (combined t))))"
proof -
  let ?es = "map observed (combined t)" and ?f = "mcell ks"
  have wf: "sm_wf ?es" using sm_wf_combined [OF assms(1)] by simp
  have ic: "in_cell ks c ?es" using assms(5) by (simp add: in_cell_def list_all_iff observed_def)
  have ord: "cells_in_order ?f ?es" by (rule micro_cells_in_order [OF assms(4) wf ic])
  have fit: "list_all (\<lambda>e. key_fits ks (fst e)) (combined t)" using assms(3) by (simp add: storable_def)
  then have len: "\<forall>e \<in> set ?es. length (fst e) = n" using assms(2) by (auto simp: list_all_iff key_fits_def observed_def)
  have db: "disk_bytes ks = fixed_elem" using assms(2) by (simp add: disk_bytes_def fixed_elem_def fun_eq_iff)
  have z: "\<forall>e \<in> set ?es. length (fixed_elem e) = n + 12" using len by (simp add: fixed_elem_def WAL_POSITION_LENGTH_def)
  have mc: "key_micro_cell ks (fst e) = Inr (?f (fst e)) \<and> ?f (fst e) < HEADER_ELEMENTS \<and> length (disk_bytes ks e) = n + 12"
    if "e \<in> set ?es" for e
    using ic z that key_micro_cell_in [OF assms(4)] unfolding db in_cell_def list_all_iff by blast
  have new: "header_builder_new = built ?f (n + 12) ([] :: (bytes \<times> wal_position) list)"
    by (simp add: header_builder_new_def built_def built_pair_def [abs_def] cell_entries_def map_replicate_const)
  let ?out = "replicate HEADER_SIZE 0 @ concat (map fixed_elem ?es)"
  have lo: "length ?out = HEADER_SIZE + (n + 12) * length ?es" using length_concat_fixed [of "map fixed_elem ?es" "n + 12"] z by simp
  have ser: "serialize_index_entries_with_visitor t ks (header_add_key ks) (replicate HEADER_SIZE 0, header_builder_new)
      = Inr (?out, built ?f (n + 12) ?es)"
    using visit_built [where es = ?es and xs = "[]", OF mc] assms(6) cells_sorted [OF ord]
    unfolding serialize_eq [OF assms(1) fit] new db by (simp del: map_map)
  have "header_serialize_index t ks
      = copy_at_r 0 (concat (map (\<lambda>m. pair_bytes (header_pair (fixed_sec ?f ?es) m)) [0..<HEADER_ELEMENTS])) ?out"
    using assms(2,6) write_header_built [OF ord z] lo unfolding header_serialize_index_def ser by (simp del: map_map)
  also have "concat (map fixed_elem ?es) = concat (map (fixed_sec ?f ?es) [0..<HEADER_ELEMENTS])"
    by (rule cells_body [OF ord, symmetric])
  finally show ?thesis
    by (simp add: copy_at_r_def overwrite_def layout_def length_pairs HEADER_SIZE_def HEADER_ELEMENT_SIZE_def)
qed

section \<open>Writing variable-length entries\<close>

definition groups :: "(bytes \<Rightarrow> nat) \<Rightarrow> (bytes \<times> wal_position) list \<Rightarrow> (usize, (bytes \<times> wal_position) list) smap" where
  "groups f xs = map (\<lambda>m. (m, cell_entries f xs m)) (filter (\<lambda>m. cell_entries f xs m \<noteq> []) [0..<HEADER_ELEMENTS])"

lemma groups_wf: "sm_wf (groups f xs)"
  by (simp add: groups_def sm_wf_def comp_def sorted_wrt_filter)

lemma map_of_groups:
  "map_of (groups f xs) m = (if m < HEADER_ELEMENTS \<and> cell_entries f xs m \<noteq> [] then Some (cell_entries f xs m) else None)"
proof -
  have "map_of (map (\<lambda>m. (m, g m)) ms) m = (if m \<in> set ms then Some (g m) else None)" for g :: "nat \<Rightarrow> (bytes \<times> wal_position) list" and ms
    by (induction ms) auto
  then show ?thesis by (simp add: groups_def)
qed

lemma group_entries_eq:
  "(\<And>e. e \<in> set es \<Longrightarrow> key_micro_cell ks (fst e) = Inr (f (fst e)) \<and> f (fst e) < HEADER_ELEMENTS) \<Longrightarrow>
     group_entries ks es (groups f xs) = Inr (groups f (xs @ es))"
proof (induction es arbitrary: xs)
  case (Cons e es)
  obtain k p where e: "e = (k, p)" by (cases e)
  have mc: "key_micro_cell ks k = Inr (f k)" "f k < HEADER_ELEMENTS" using Cons.prems [of e] e by simp_all
  have "(case map_of (groups f xs) (f k) of None \<Rightarrow> [] | Some l \<Rightarrow> l) = cell_entries f xs (f k)"
    using mc(2) by (simp add: map_of_groups)
  moreover have "sm_insert (f k) (cell_entries f xs (f k) @ [(k, p)]) (groups f xs) = groups f (xs @ [(k, p)])"
    using mc(2) by (intro sm_eqI sm_wf_insert groups_wf) (auto simp: map_of_sm_insert map_of_groups cell_entries_def fun_eq_iff)
  ultimately show ?case using Cons.IH [of "xs @ [(k, p)]"] Cons.prems mc by (simp add: e)
qed simp

definition varlen_sec :: "(bytes \<Rightarrow> nat) \<Rightarrow> (bytes \<times> wal_position) list \<Rightarrow> nat \<Rightarrow> bytes" where
  "varlen_sec f es m = (if cell_entries f es m = [] then [] else varlen_bytes (map reload (cell_entries f es m)))"

lemma varlen_bytes_ne [simp]: "varlen_bytes es \<noteq> []"
  by (simp add: varlen_bytes_def flip: length_0_conv)

lemma varlen_sec_empty: "varlen_sec f es m = [] \<longleftrightarrow> cell_entries f es m = []"
  by (simp add: varlen_sec_def)

lemma length_concat_filter: "length (concat (map g (filter P xs))) \<le> length (concat (map g xs))"
  by (induction xs) auto

lemma cell_flat_ok:
  assumes "flat_ok None (map reload es)"
  shows "flat_ok None (map reload (cell_entries f es m))"
proof -
  have "length (concat (map var_bytes (map reload (cell_entries f es m)))) \<le> length (concat (map var_bytes (map reload es)))"
    unfolding cell_entries_def map_map by (rule length_concat_filter)
  moreover have "length (concat (map var_bytes (map reload es))) < 2 ^ 32" using assms by (simp add: flat_ok_def)
  ultimately have "length (concat (map var_bytes (map reload (cell_entries f es m)))) < 2 ^ 32" by (rule le_less_trans)
  then show ?thesis using assms by (simp add: flat_ok_def cell_entries_def list_all_iff)
qed

lemma write_sections_eq:
  assumes "flat_ok None (map reload es)" "sec = varlen_sec f es"
  shows "m \<le> HEADER_ELEMENTS \<Longrightarrow>
    write_sections (map (\<lambda>m. (m, cell_entries f es m)) (filter (\<lambda>m. cell_entries f es m \<noteq> []) [m..<HEADER_ELEMENTS]))
      (replicate HEADER_SIZE 0 @ concat (map sec [0..<m]), map (\<lambda>j. if j < m then header_pair sec j else (0, 0)) [0..<HEADER_ELEMENTS])
    = Inr (replicate HEADER_SIZE 0 @ concat (map sec [0..<HEADER_ELEMENTS]), map (header_pair sec) [0..<HEADER_ELEMENTS])"
proof (induction rule: inc_induct)
  case base
  then show ?case by (simp cong: map_cong)
next
  case (step m)
  let ?out = "\<lambda>m. replicate HEADER_SIZE 0 @ concat (map sec [0..<m])"
  have u: "[m..<HEADER_ELEMENTS] = m # [Suc m..<HEADER_ELEMENTS]" using step.hyps by (simp add: upt_conv_Cons)
  have len: "length (?out j) = sec_from sec j" for j by (simp add: sec_from_def)
  show ?case
  proof (cases "cell_entries f es m = []")
    case True
    then have "sec m = []" by (simp add: assms(2) varlen_sec_def)
    moreover from this have "(if j < Suc m then header_pair sec j else (0, 0)) = (if j < m then header_pair sec j else (0, 0))" for j
      by (auto simp: header_pair_def less_Suc_eq)
    ultimately show ?thesis using step.IH True u by simp
  next
    case False
    have sm: "sec m = varlen_bytes (map reload (cell_entries f es m))" using False by (simp add: assms(2) varlen_sec_def)
    have "append_flat_varlen_section (cell_entries f es m) (?out m) = Inr (?out (Suc m))"
      using append_flat_varlen_eq [OF cell_flat_ok [OF assms(1)], of f m "?out m"] False sm
      by (simp add: append_flat_varlen_section_def reload_def [abs_def] case_prod_beta' )
    moreover have "(map (\<lambda>j. if j < m then header_pair sec j else (0, 0)) [0..<HEADER_ELEMENTS])
          [m := (of_nat (sec_from sec m), of_nat (sec_from sec (Suc m)))]
        = map (\<lambda>j. if j < Suc m then header_pair sec j else (0, 0)) [0..<HEADER_ELEMENTS]"
      using step.hyps False unfolding map_upt_update [OF step.hyps(2)]
      by (intro map_cong) (auto simp: header_pair_def assms(2) varlen_sec_empty)
    ultimately show ?thesis
      using step.IH step.hyps(2) False u len [of m] len [of "Suc m"] by simp
  qed
qed

lemma copy_header_eq:
  "length pre = 8 * i \<Longrightarrow> length z = 8 * length hs \<Longrightarrow>
     copy_header i hs (pre @ z @ body) = Inr (pre @ concat (map pair_bytes hs) @ body)"
proof (induction hs arbitrary: i pre z)
  case (Cons h hs)
  obtain a b where h: "h = (a, b)" by (cases h)
  obtain z1 z2 z3 where z: "z = z1 @ z2 @ z3" "length z1 = 4" "length z2 = 4" "length z3 = 8 * length hs"
    using Cons.prems(2) that [of "take 4 z" "take 4 (drop 4 z)" "drop 8 z"] append_take_drop_id [of 4 z] append_take_drop_id [of 4 "drop 4 z"]
    by (simp add: min_def)
  have "copy_at_r (i * HEADER_ELEMENT_SIZE) (put_u32 a) (pre @ z @ body) = Inr ((pre @ put_u32 a) @ z2 @ z3 @ body)"
    "copy_at_r (i * HEADER_ELEMENT_SIZE + 4) (put_u32 b) ((pre @ put_u32 a) @ z2 @ z3 @ body) = Inr ((pre @ put_u32 a @ put_u32 b) @ z3 @ body)"
    using Cons.prems(1) z by (simp_all add: copy_at_r_def overwrite_def HEADER_ELEMENT_SIZE_def)
  moreover have "copy_header (i + 1) hs ((pre @ put_u32 a @ put_u32 b) @ z3 @ body)
      = Inr ((pre @ put_u32 a @ put_u32 b) @ concat (map pair_bytes hs) @ body)"
    using Cons.prems(1) z(4) by (intro Cons.IH) simp_all
  ultimately show ?case by (simp add: h pair_bytes_def [of "(a, b)"])
qed simp

lemma serialize_varlen:
  assumes "table_wf t" "index_key_size ks = None" "storable ks t" "ks_ok ks" "in_cell ks c (combined t)"
  shows "header_serialize_index t ks = Inr (layout (varlen_sec (mcell ks) (map observed (combined t))))"
proof -
  obtain es where es: "es = map observed (combined t)" by simp
  let ?f = "mcell ks" and ?sec = "varlen_sec (mcell ks) es"
  have "in_cell ks c es" using assms(5) by (simp add: es in_cell_def list_all_iff observed_def)
  then have mc: "key_micro_cell ks (fst e) = Inr (?f (fst e)) \<and> ?f (fst e) < HEADER_ELEMENTS" if "e \<in> set es" for e
    using key_micro_cell_in [OF assms(4)] that by (auto simp: in_cell_def list_all_iff)
  have ok: "flat_ok None (map reload es)" using assms(2,3) by (simp add: storable_def es del: map_map)
  have "groups ?f [] = []" by (simp add: groups_def cell_entries_def)
  then have g: "group_entries ks es [] = Inr (groups ?f es)" using group_entries_eq [of es ks ?f "[]", OF mc] by simp
  have w: "write_sections (groups ?f es) (replicate HEADER_SIZE 0, replicate HEADER_ELEMENTS (0, 0))
      = Inr (replicate HEADER_SIZE 0 @ concat (map ?sec [0..<HEADER_ELEMENTS]), map (header_pair ?sec) [0..<HEADER_ELEMENTS])"
    using write_sections_eq [OF ok refl, of 0 ?f] by (simp add: groups_def map_replicate_const)
  have "copy_header 0 (map (header_pair ?sec) [0..<HEADER_ELEMENTS]) (replicate HEADER_SIZE 0 @ concat (map ?sec [0..<HEADER_ELEMENTS]))
      = Inr (layout ?sec)"
    using copy_header_eq [of "[]" 0 "replicate HEADER_SIZE 0" "map (header_pair ?sec) [0..<HEADER_ELEMENTS]"]
    by (simp add: layout_def HEADER_SIZE_def HEADER_ELEMENT_SIZE_def comp_def)
  then show ?thesis
    using assms(2) g w iter_eq(2) [OF assms(1)] by (simp add: header_serialize_index_def es)
qed

section \<open>Loading a variable-length index\<close>

lemma offs_from_shift: "offs_from (b + c) es = map (\<lambda>o'. o' + of_nat b) (offs_from c es)"
proof (induction es arbitrary: c)
  case (Cons e es)
  show ?case using Cons [of "c + length (var_bytes e)"] by (simp add: add.assoc)
qed simp

lemma offs_from_append: "offs_from b (xs @ ys) = offs_from b xs @ offs_from (b + length (concat (map var_bytes xs))) ys"
  by (induction xs arbitrary: b) (simp_all add: add.assoc)

lemma varlen_offset_at:
  assumes "i < length es"
  shows "from_be_at 4 (varlen_bytes es) (4 + 4 * i) = Inr (offs_from 0 es ! i)"
proof -
  let ?os = "map put_u32 (offs_from 0 es)"
  have "varlen_bytes es = (put_u32 (of_nat (length es)) @ concat (take i ?os)) @ put_u32 (offs_from 0 es ! i)
      @ (concat (drop (Suc i) ?os) @ concat (map var_bytes es))"
    using concat_split [of i ?os] assms by (simp add: varlen_bytes_def)
  moreover have "length (put_u32 (of_nat (length es)) @ concat (take i ?os)) = 4 + 4 * i"
    using assms by (simp add: take_map)
  ultimately show ?thesis using from_be_at_put(2) by metis
qed

lemma section_offsets:
  "traverse (\<lambda>i. bindr (from_be_at 4 (varlen_bytes es) (4 + 4 * i)) (\<lambda>o' :: u32. Inr (put_u32 (o' + of_nat c)))) [0..<length es]
     = Inr (map put_u32 (offs_from c es))"
proof -
  have "traverse (\<lambda>i. bindr (from_be_at 4 (varlen_bytes es) (4 + 4 * i)) (\<lambda>o' :: u32. Inr (put_u32 (o' + of_nat c)))) [0..<length es]
      = Inr (map (\<lambda>i. put_u32 (offs_from 0 es ! i + of_nat c)) [0..<length es])"
    by (rule traverse_Inr) (simp add: varlen_offset_at)
  also have "map (\<lambda>i. put_u32 (offs_from 0 es ! i + of_nat c)) [0..<length es] = map put_u32 (offs_from c es)"
    using offs_from_shift [of c 0 es] by (intro nth_equalityI) simp_all
  finally show ?thesis .
qed

lemma length_varlen_bytes: "length (varlen_bytes es) = 4 + 4 * length es + length (concat (map var_bytes es))"
  by (simp add: varlen_bytes_def)

lemma slice_layout:
  assumes "m < HEADER_ELEMENTS"
  shows "slice_r (layout sec) (sec_from sec m) (sec_from sec (Suc m)) = Inr (sec m)"
  using layout_section_at [OF assms, of sec] sec_from_mono [OF assms, of sec] by (simp add: slice_r_def length_layout)

lemma slice_inner:
  assumes "slice_r b i j = Inr (xs @ ys)"
  shows "slice_r b (i + length xs) j = Inr ys"
proof -
  have l: "i \<le> j" "j \<le> length b" "take (j - i) (drop i b) = xs @ ys" using assms by (auto simp: slice_r_def split: if_splits)
  then have "length xs \<le> j - i" by (metis le_add1 length_append length_take min.bounded_iff)
  moreover have "ys = drop (length xs) (take (j - i) (drop i b))" using l(3) by simp
  then have "ys = take (j - (i + length xs)) (drop (i + length xs) b)" by (simp add: drop_take add.commute)
  ultimately show ?thesis using l(1,2) by (simp add: slice_r_def)
qed

lemma layout_words:
  assumes "m < HEADER_ELEMENTS"
  shows "from_be_at 4 (layout sec) (m * 8) = Inr (fst (header_pair sec m))"
    "from_be_at 4 (layout sec) (m * 8 + 4) = Inr (snd (header_pair sec m))"
proof -
  obtain pre post where l: "layout sec = pre @ pair_bytes (header_pair sec m) @ post" "length pre = m * 8"
    using upt_concat_split [OF assms, of "\<lambda>m. pair_bytes (header_pair sec m)"] length_pairs [of "header_pair sec" "[0..<m]"]
    unfolding layout_def by (metis (no_types, lifting) append.assoc length_upt minus_nat.diff_0 mult.commute)
  show "from_be_at 4 (layout sec) (m * 8) = Inr (fst (header_pair sec m))"
    using from_be_at_put(2) [of "m * 8" pre "fst (header_pair sec m)" "put_u32 (snd (header_pair sec m)) @ post"] l
    by (simp add: pair_bytes_def)
  show "from_be_at 4 (layout sec) (m * 8 + 4) = Inr (snd (header_pair sec m))"
    using from_be_at_put(2) [of "m * 8 + 4" "pre @ put_u32 (fst (header_pair sec m))" "snd (header_pair sec m)" post] l
    by (simp add: pair_bytes_def)
qed

definition section_triple :: "(bytes \<Rightarrow> nat) \<Rightarrow> (bytes \<times> wal_position) list \<Rightarrow> nat \<Rightarrow> usize \<times> usize \<times> usize" where
  "section_triple f es j = (sec_from (varlen_sec f es) j, sec_from (varlen_sec f es) (Suc j), length (cell_entries f es j))"

lemma gather_eq:
  assumes "sec = varlen_sec f es" "flat_ok None (map reload es)" "length (layout sec) < 2 ^ 32"
  shows "\<forall>j \<in> set ms. j < HEADER_ELEMENTS \<Longrightarrow>
    gather_sections (layout sec) ms = Inr (map (section_triple f es) (filter (\<lambda>j. cell_entries f es j \<noteq> []) ms))"
proof (induction ms)
  case (Cons m ms)
  then have m: "m < HEADER_ELEMENTS" by simp
  note w = layout_words [OF m, of sec]
  show ?case
  proof (cases "cell_entries f es m = []")
    case True
    then have "header_pair sec m = (0, 0)" by (simp add: header_pair_def assms(1) varlen_sec_empty)
    then show ?thesis using Cons w True by (simp add: HEADER_ELEMENT_SIZE_def)
  next
    case False
    then have sm: "sec m = varlen_bytes (map reload (cell_entries f es m))" by (simp add: assms(1) varlen_sec_def)
    have le: "sec_from sec m < sec_from sec (Suc m)" "sec_from sec (Suc m) \<le> length (layout sec)" "1024 \<le> sec_from sec m"
      using sec_from_mono [OF m, of sec] sm varlen_bytes_ne
      by (auto simp: length_layout sec_from_def HEADER_SIZE_def HEADER_ELEMENTS_def HEADER_ELEMENT_SIZE_def)
    have u: "unat (of_nat (sec_from sec m) :: u32) = sec_from sec m" "unat (of_nat (sec_from sec (Suc m)) :: u32) = sec_from sec (Suc m)"
      using le(1,2) assms(3) by (intro unat_of_pow, simp)+
    then have nz: "(of_nat (sec_from sec m) :: u32) \<noteq> 0" using le(3) by (metis unat_0 not_numeral_le_zero)
    have hp: "header_pair sec m = (of_nat (sec_from sec m), of_nat (sec_from sec (Suc m)))"
      using False by (simp add: header_pair_def assms(1) varlen_sec_empty)
    have ok: "flat_ok None (map reload (cell_entries f es m))" by (rule cell_flat_ok [OF assms(2)])
    have "length (cell_entries f es m) < 2 ^ 32"
      using length_le_concat_var [of "map reload (cell_entries f es m)"] ok by (simp add: flat_ok_def)
    then have c: "unat (of_nat (length (cell_entries f es m)) :: u32) = length (cell_entries f es m)" by (simp add: unat_of_nat)
    then have cz: "(of_nat (length (cell_entries f es m)) :: u32) \<noteq> 0" using False by (metis unat_0 length_0_conv)
    have "from_be_at 4 (sec m) 0 = Inr (of_nat (length (cell_entries f es m)) :: u32)"
      using from_be_at_put(2) [of 0 "[]"] unfolding sm varlen_bytes_def by simp
    then show ?thesis
      using Cons w u nz c cz False slice_layout [OF m, of sec]
      by (simp add: hp HEADER_ELEMENT_SIZE_def section_triple_def assms(1) [symmetric])
  qed
qed simp

lemma splice_eq:
  assumes "sec = varlen_sec f es"
  shows "\<forall>j \<in> set ms. j < HEADER_ELEMENTS \<and> cell_entries f es j \<noteq> [] \<Longrightarrow>
    splice_offsets (layout sec) (map (section_triple f es) ms) (of_nat c)
      = Inr (concat (map put_u32 (offs_from c (map reload (concat (map (cell_entries f es) ms))))))"
proof (induction ms arbitrary: c)
  case (Cons m ms)
  let ?es = "map reload (cell_entries f es m)" and ?n = "length (cell_entries f es m)"
  have m: "m < HEADER_ELEMENTS" "sec m = varlen_bytes ?es" using Cons.prems by (simp_all add: assms varlen_sec_def)
  have "sec_from sec (Suc m) - sec_from sec m - (4 + 4 * ?n) = length (concat (map var_bytes ?es))"
    using sec_from_mono(1) [OF m(1), of sec] m(2) by (simp add: length_varlen_bytes)
  then have "(of_nat c + of_nat (sec_from sec (Suc m) - sec_from sec m - (4 + 4 * ?n)) :: u32) = of_nat (c + length (concat (map var_bytes ?es)))"
    by simp
  then show ?case
    using slice_layout [OF m(1), of sec] m(2) section_offsets [of ?es c] Cons
    by (simp add: section_triple_def assms [symmetric] offs_from_append del: of_nat_add)
qed simp

lemma entries_eq:
  assumes "sec = varlen_sec f es" "\<forall>j \<in> set ms. j < HEADER_ELEMENTS \<and> cell_entries f es j \<noteq> []"
  shows "traverse (\<lambda>(from_off, to_off, count). slice_r (layout sec) (from_off + (4 + 4 * count)) to_off) (map (section_triple f es) ms)
    = Inr (map (\<lambda>j. concat (map var_bytes (map reload (cell_entries f es j)))) ms)"
  using assms(2)
proof (induction ms)
  case (Cons m ms)
  let ?es = "map reload (cell_entries f es m)"
  have m: "m < HEADER_ELEMENTS" "sec m = varlen_bytes ?es" using Cons.prems by (simp_all add: assms(1) varlen_sec_def)
  let ?h = "put_u32 (of_nat (length ?es)) @ concat (map put_u32 (offs_from 0 ?es))"
  have "slice_r (layout sec) (sec_from sec m + length ?h) (sec_from sec (Suc m)) = Inr (concat (map var_bytes ?es))"
    using slice_layout [OF m(1), of sec] m(2) by (intro slice_inner) (simp add: varlen_bytes_def)
  then show ?case using Cons by (simp add: section_triple_def assms(1) [symmetric])
qed simp

lemma load_varlen:
  assumes "cells_in_order f es" "flat_ok None (map reload es)" "length (layout (varlen_sec f es)) < 2 ^ 32"
  shows "deserialize_varlen_index (layout (varlen_sec f es)) = Inr (loaded_table (if es = [] then [] else varlen_bytes (map reload es)) None)"
proof -
  let ?ms = "filter (\<lambda>j. cell_entries f es j \<noteq> []) [0..<HEADER_ELEMENTS]"
  have "concat (map (cell_entries f es) ms) = concat (map (cell_entries f es) (filter (\<lambda>j. cell_entries f es j \<noteq> []) ms))" for ms
    by (induction ms) auto
  then have all: "concat (map (cell_entries f es) ?ms) = es" using cells_concat [OF assms(1)] by metis
  have "sum_list (map (\<lambda>(_, _, count). count) (map (section_triple f es) ms)) = length (concat (map (cell_entries f es) ms))" for ms
    by (induction ms) (simp_all add: section_triple_def)
  then have total: "sum_list (map (\<lambda>(_, _, count). count) (map (section_triple f es) ?ms)) = length es" using all by metis
  have body: "concat (map (\<lambda>j. concat (map var_bytes (map reload (cell_entries f es j)))) ?ms) = concat (map var_bytes (map reload es))"
    using arg_cong [OF all, of "\<lambda>l. concat (map (var_bytes \<circ> reload) l)"] by (simp add: concat_map_concat comp_def)
  have g: "gather_sections (layout (varlen_sec f es)) [0..<HEADER_ELEMENTS] = Inr (map (section_triple f es) ?ms)"
    by (rule gather_eq [OF refl assms(2,3)]) simp
  have sp: "splice_offsets (layout (varlen_sec f es)) (map (section_triple f es) ?ms) 0 = Inr (concat (map put_u32 (offs_from 0 (map reload es))))"
    using splice_eq [OF refl, of ?ms f es 0] all by simp
  have en: "traverse (\<lambda>(from_off, to_off, count). slice_r (layout (varlen_sec f es)) (from_off + (4 + 4 * count)) to_off) (map (section_triple f es) ?ms)
      = Inr (map (\<lambda>j. concat (map var_bytes (map reload (cell_entries f es j)))) ?ms)"
    by (rule entries_eq [OF refl]) simp
  show ?thesis
    unfolding deserialize_varlen_index_def g bindr_simps Let_def total sp en body
    by (simp add: from_varlen_flat_bytes_def loaded_table_def varlen_bytes_def)
qed

section \<open>Stored indices\<close>

text \<open>The tables of one cell that the format can hold, with a blob that 32-bit offsets can address.\<close>

definition header_storable :: "key_space_desc \<Rightarrow> cell_id \<Rightarrow> index_table \<Rightarrow> bool" where
  "header_storable ks c t \<longleftrightarrow> ks_ok ks \<and> table_wf t \<and> storable ks t \<and> in_cell ks c (combined t)
     \<and> HEADER_SIZE + 4 * HEADER_ELEMENTS + sum_list (map (\<lambda>e. length (fst e) + 18) (combined t)) < unat u32_MAX"

text \<open>What the readers of the blob see.\<close>

definition header_view :: "key_space_desc \<Rightarrow> index_table \<Rightarrow> (bytes \<times> wal_position) list" where
  "header_view ks t = (case index_key_size ks of
     Some _ \<Rightarrow> map observed (combined t)
   | None \<Rightarrow> map reported (map reload (map observed (combined t))))"

definition section_holds :: "key_space_desc \<Rightarrow> bytes \<Rightarrow> (bytes \<times> wal_position) list \<Rightarrow> bool" where
  "section_holds ks = (case index_key_size ks of
     Some n \<Rightarrow> (\<lambda>b xs. index_key_size ks = Some n \<and> fixed_section n b xs \<and> sm_wf xs)
   | None \<Rightarrow> varlen_section_holds)"

lemma header_view_keys: "map fst (header_view ks t) = map fst (combined t)"
  by (auto simp: header_view_def observed_def reported_def reload_def split: option.splits)

lemma fixed_blob_length:
  assumes "list_all (\<lambda>e. length (fst e) = n) es"
  shows "(n + 12) * length es \<le> sum_list (map (\<lambda>e. length (fst e) + 18) es)"
  using assms by (induction es) auto

lemma varlen_blob_length:
  assumes "cells_in_order f es"
  shows "length (layout (varlen_sec f es)) \<le> HEADER_SIZE + 4 * HEADER_ELEMENTS + sum_list (map (\<lambda>e. length (fst e) + 18) es)"
proof -
  let ?g = "\<lambda>e :: bytes \<times> wal_position. length (fst e) + 18"
  have v: "length (concat (map var_bytes (map reload xs))) + 4 * length xs = sum_list (map ?g xs)" for xs
    by (induction xs) (simp_all add: reload_def)
  have one: "length (varlen_sec f es m) \<le> 4 + sum_list (map ?g (cell_entries f es m))" for m
    using v [of "cell_entries f es m"] by (simp add: varlen_sec_def length_varlen_bytes)
  have "length (concat (map (varlen_sec f es) ms)) \<le> 4 * length ms + sum_list (map ?g (concat (map (cell_entries f es) ms)))" for ms
  proof (induction ms)
    case (Cons m ms)
    then show ?case using one [of m] by simp
  qed simp
  from this [of "[0..<HEADER_ELEMENTS]"] show ?thesis
    unfolding length_layout cells_concat [OF assms] sec_from_def by simp
qed

lemma fixed_bound:
  assumes "header_storable ks c t" "index_key_size ks = Some n"
  shows "HEADER_SIZE + (n + 12) * length (combined t) < unat u32_MAX"
proof -
  have "list_all (\<lambda>e. length (fst e) = n) (combined t)"
    using assms by (auto simp: header_storable_def storable_def list_all_iff key_fits_def)
  from fixed_blob_length [OF this] show ?thesis using assms(1) by (simp add: header_storable_def)
qed

lemma varlen_bound:
  assumes "header_storable ks c t"
  shows "length (layout (varlen_sec (mcell ks) (map observed (combined t)))) < 2 ^ 32"
proof -
  let ?es = "map observed (combined t)"
  have "sm_wf ?es" "in_cell ks c ?es" "ks_ok ks"
    using assms sm_wf_combined [of t] by (simp_all add: header_storable_def in_cell_def list_all_iff observed_def)
  from varlen_blob_length [OF micro_cells_in_order [OF this(3,1,2)]] show ?thesis
    using assms by (simp add: header_storable_def observed_def comp_def)
qed

text \<open>The blob of a table, section by section.\<close>

definition stored_as :: "key_space_desc \<Rightarrow> index_table \<Rightarrow> (nat \<Rightarrow> bytes) \<Rightarrow> bool" where
  "stored_as ks t sec \<longleftrightarrow> length (layout sec) < 2 ^ 32
     \<and> (\<forall>m. sec m = [] \<longleftrightarrow> cell_entries (mcell ks) (header_view ks t) m = [])
     \<and> (\<forall>m. sec m \<noteq> [] \<longrightarrow> section_holds ks (sec m) (cell_entries (mcell ks) (header_view ks t) m))
     \<and> cells_in_order (mcell ks) (header_view ks t)"

lemma stored_asD:
  assumes "stored_as ks t sec"
  shows "length (layout sec) < 2 ^ 32" "sec m = [] \<longleftrightarrow> cell_entries (mcell ks) (header_view ks t) m = []"
    and "sec m \<noteq> [] \<Longrightarrow> section_holds ks (sec m) (cell_entries (mcell ks) (header_view ks t) m)"
    and "cells_in_order (mcell ks) (header_view ks t)"
  using assms unfolding stored_as_def by blast+

lemma header_blob:
  assumes "header_storable ks c t"
  shows "\<exists>sec. header_serialize_index t ks = Inr (layout sec) \<and> stored_as ks t sec"
proof -
  have st: "ks_ok ks" "table_wf t" "storable ks t" "in_cell ks c (combined t)"
    using assms by (simp_all add: header_storable_def)
  obtain es where es: "es = map observed (combined t)" by simp
  let ?f = "mcell ks"
  have wf: "sm_wf es" using sm_wf_combined [OF st(2)] by (simp add: es)
  have ic: "in_cell ks c es" using st(4) by (simp add: es in_cell_def list_all_iff observed_def)
  have ord: "cells_in_order ?f es" by (rule micro_cells_in_order [OF st(1) wf ic])
  show ?thesis
  proof (cases "index_key_size ks")
    case (Some n)
    have len: "list_all (\<lambda>e. length (fst e) = n) es"
      using st(3) Some by (auto simp: es storable_def list_all_iff key_fits_def observed_def)
    have v: "header_view ks t = es" using Some by (simp add: header_view_def es)
    note bound = fixed_bound [OF assms Some]
    have "length (layout (fixed_sec ?f es)) = HEADER_SIZE + (n + 12) * length es"
      using length_concat_fixed [of "map fixed_elem es" "n + 12"] len
      unfolding length_layout sec_from_def cells_body [OF ord] by (simp add: list_all_iff fixed_elem_def WAL_POSITION_LENGTH_def)
    then have "length (layout (fixed_sec ?f es)) < 2 ^ 32" using bound by (simp add: es)
    moreover have "fixed_sec ?f es m = [] \<longleftrightarrow> cell_entries ?f es m = []" for m
      by (cases "cell_entries ?f es m") simp_all
    moreover have "section_holds ks (fixed_sec ?f es m) (cell_entries ?f es m)" for m
      using wf len Some by (simp add: section_holds_def fixed_section_def cell_entries_def sm_wf_filter list_all_iff)
    ultimately have "stored_as ks t (fixed_sec ?f es)" using ord unfolding stored_as_def v by blast
    then show ?thesis using serialize_fixed [OF st(2) Some st(3,1,4) bound] unfolding es by blast
  next
    case None
    have ok: "flat_ok None (map reload es)" using st(3) None by (simp add: storable_def es del: map_map)
    have v: "header_view ks t = map (reported \<circ> reload) es" using None by (simp add: header_view_def es)
    have cv: "cell_entries ?f (header_view ks t) m = map reported (map reload (cell_entries ?f es m))" for m
      unfolding v by (simp add: cell_entries_def filter_map comp_def reported_def reload_def)
    have keys: "map fst (header_view ks t) = map fst es" unfolding header_view_keys es by (simp add: observed_def)
    then have "cells_in_order ?f (header_view ks t)"
      using st(1,4) wf sm_wf_map_keys [OF keys] unfolding in_cell_keys
      by (intro micro_cells_in_order [of ks _ c]) (simp_all only: in_cell_keys header_view_keys)
    moreover have "length (layout (varlen_sec ?f es)) < 2 ^ 32" using varlen_bound [OF assms] by (simp add: es)
    moreover have "varlen_sec ?f es m = [] \<longleftrightarrow> cell_entries ?f (header_view ks t) m = []" for m
      by (simp add: cv varlen_sec_empty)
    moreover have "section_holds ks (varlen_sec ?f es m) (cell_entries ?f (header_view ks t) m)" if "varlen_sec ?f es m \<noteq> []" for m
    proof -
      have ne: "cell_entries ?f es m \<noteq> []" using that varlen_sec_empty [of ?f es m] by blast
      then have "flat_view None (varlen_sec ?f es m) (map reload (cell_entries ?f es m))"
        using varlen_view [OF cell_flat_ok [OF ok], of ?f m] by (simp add: varlen_sec_def)
      moreover have "sm_wf (map reload (cell_entries ?f es m))" using wf by (simp add: cell_entries_def sm_wf_filter)
      ultimately show ?thesis using None cv [of m] unfolding section_holds_def varlen_section_holds_def option.case None by blast
    qed
    ultimately have "stored_as ks t (varlen_sec ?f es)" unfolding stored_as_def by blast
    then show ?thesis using serialize_varlen [OF st(2) None st(3,1,4)] unfolding es by blast
  qed
qed

lemma map_of_cell: "map_of (cell_entries f es (f k)) k = map_of es k"
  unfolding cell_entries_def using map_of_filter_key [of "\<lambda>k'. f k' = f k" es k] by simp

lemma map_of_reported: "map_of (map reported es) k = map_option into_update_position (map_of es k)"
  by (induction es) (auto simp: reported_def)

lemma varlen_lookup_eq:
  assumes "flat_view None b es" "sm_wf es"
  shows "flat_varlen_lookup b k = Inr (map_option into_update_position (map_of es k))"
proof -
  obtain r where r: "r = lower k es" by simp
  have "flat_lower_bound b None k = Inr r" unfolding r by (rule flat_bounds_eq(1) [OF assms])
  then show ?thesis
    using assms(1) lookup_at_lower_bound [OF assms(2) r]
    by (auto simp: flat_varlen_lookup_def flat_view_def case_prod_beta)
qed

definition key_ok :: "key_space_desc \<Rightarrow> cell_id \<Rightarrow> bytes \<Rightarrow> bool" where
  "key_ok ks c k \<longleftrightarrow> cell_id_of ks k = Inr c \<and> (case index_key_size ks of Some n \<Rightarrow> length k = n | None \<Rightarrow> True)"

lemma key_size_assert:
  "key_ok ks c k \<Longrightarrow> (case index_key_size ks of Some ksz \<Rightarrow> assertr (length k = ksz) (Inr ()) | None \<Rightarrow> Inr ()) = Inr ()"
  by (auto simp: key_ok_def split: option.splits)

lemma header_lookup_view:
  assumes "header_storable ks c t" "key_ok ks c k" "header_serialize_index t ks = Inr b" "reads_as r b"
  shows "header_lookup_unloaded ks r k = Inr (map_of (header_view ks t) k)"
proof -
  obtain sec where ser: "header_serialize_index t ks = Inr (layout sec)" and st_as: "stored_as ks t sec"
    using header_blob [OF assms(1)] by blast
  note sec = stored_asD [OF st_as]
  let ?m = "mcell ks k" and ?xs = "cell_entries (mcell ks) (header_view ks t) (mcell ks k)"
  have ks: "ks_ok ks" and k: "cell_id_of ks k = Inr c" using assms(1,2) by (simp_all add: header_storable_def key_ok_def)
  note mc = key_micro_cell_in [OF ks k]
  have rd: "read_micro_cell_section r ?m = Inr (if sec ?m = [] then None else Some (sec ?m))"
    using assms(3,4) ser sec(1) mc(2) by (intro read_layout) simp_all
  have look: "map_of ?xs k = map_of (header_view ks t) k" by (rule map_of_cell)
  show ?thesis
  proof (cases "sec ?m = []")
    case True
    then have "map_of (header_view ks t) k = None" using look sec(2) [of ?m] by simp
    then show ?thesis using True mc rd key_size_assert [OF assms(2)] by (simp add: header_lookup_unloaded_def)
  next
    case False
    note h = sec(3) [OF False]
    have step: "header_lookup_unloaded ks r k = (case index_key_element_size ks of
          Some (ksz, element_size) \<Rightarrow> bindr (binary_search (sec ?m) k element_size ksz) (\<lambda>(_, _, pos). Inr pos)
        | None \<Rightarrow> binary_search_varlen (sec ?m) k)"
      using False mc rd key_size_assert [OF assms(2)] by (simp add: header_lookup_unloaded_def)
    show ?thesis
    proof (cases "index_key_size ks")
      case (Some n)
      then have fx: "fixed_section n (sec ?m) ?xs" "sm_wf ?xs" using h by (simp_all add: section_holds_def)
      from binary_search_eq [OF fx refl, of k] show ?thesis
        using Some unfolding step look
        by (cases "map_of (header_view ks t) k") (auto simp: index_key_element_size_def index_element_size_def)
    next
      case None
      then obtain es where "flat_view None (sec ?m) es" "sm_wf es" "?xs = map reported es"
        using h by (auto simp: section_holds_def varlen_section_holds_def)
      then show ?thesis
        using None look varlen_lookup_eq [of "sec ?m" es k] unfolding step
        by (simp add: index_key_element_size_def binary_search_varlen_def map_of_reported)
    qed
  qed
qed

lemma header_view_lookup:
  assumes "table_wf t"
  shows "map_of (header_view ks t) k = (case index_key_size ks of
      Some _ \<Rightarrow> map_option into_wal_position (live t k)
    | None \<Rightarrow> map_option (\<lambda>v. into_update_position (from_disk (into_wal_position v))) (live t k))"
  using live_map_of_combined [OF assms, of k]
  by (cases "index_key_size ks") (simp_all add: header_view_def map_of_observed map_of_reported map_of_reload option.map_comp comp_def del: map_map)

lemma header_view_observed:
  assumes "table_wf t" "\<And>k. index_key_size ks = None \<Longrightarrow> index_get t k \<noteq> Inr (Some WAL_INVALID)"
  shows "header_view ks t = map observed (combined t)"
proof (cases "index_key_size ks")
  case None
  have "reported (reload (observed e)) = observed e" if e: "e \<in> set (combined t)" for e
  proof -
    have "map_of (combined t) (fst e) = Some (snd e)" using e sm_wf_distinct [OF sm_wf_combined [OF assms(1)]] by simp
    then have "into_wal_position (snd e) \<noteq> WAL_INVALID"
      using assms(2) [OF None, of "fst e"] by (simp add: index_get_wf [OF assms(1)] flip: live_map_of_combined [OF assms(1)])
    then show ?thesis
      by (simp add: observed_def reload_def reported_def from_disk_def new_clean_def into_update_position_def)
  qed
  then show ?thesis using None by (simp add: header_view_def)
qed (simp add: header_view_def)

lemma after_observed:
  "first_of (sm_after prev (map observed es)) = map_option observed (first_of (sm_after prev es))"
  "last_of (sm_before prev (map observed es)) = map_option observed (last_of (sm_before prev es))"
proof -
  have m: "sm_after prev (map observed es) = map observed (sm_after prev es)" "sm_before prev (map observed es) = map observed (sm_before prev es)"
    by (cases prev; simp add: sm_after_def sm_before_def filter_map comp_def observed_def)+
  show "first_of (sm_after prev (map observed es)) = map_option observed (first_of (sm_after prev es))"
    unfolding m by (cases "sm_after prev es") simp_all
  show "last_of (sm_before prev (map observed es)) = map_option observed (last_of (sm_before prev es))"
    unfolding m by (simp add: last_of_def last_map)
qed

lemma header_reload:
  assumes "header_storable ks c t"
  shows "\<exists>b t'. header_serialize_index t ks = Inr b \<and> header_deserialize_index ks b = Inr t' \<and> table_wf t'
    \<and> data t' = [] \<and> flat_entries t' = map reload (map observed (combined t))"
proof -
  have st: "ks_ok ks" "table_wf t" "storable ks t" "in_cell ks c (combined t)" using assms by (simp_all add: header_storable_def)
  obtain es where es: "es = map observed (combined t)" by simp
  have wf: "sm_wf es" using sm_wf_combined [OF st(2)] by (simp add: es)
  have "in_cell ks c es" using st(4) by (simp add: es in_cell_def list_all_iff observed_def)
  then have ord: "cells_in_order (mcell ks) es" by (rule micro_cells_in_order [OF st(1) wf])
  have ok: "flat_ok (index_key_size ks) (map reload es)" "list_all (\<lambda>e. key_fits ks (fst e)) es" "list_all (\<lambda>e. pos_ok (snd e)) es"
    using st(3) by (simp_all add: storable_def es list_all_iff observed_def del: map_map)
  show ?thesis
  proof (cases "index_key_size ks")
    case (Some n)
    have db: "disk_bytes ks = fixed_elem" using Some by (simp add: disk_bytes_def fixed_elem_def fun_eq_iff)
    have "slice_r (layout (fixed_sec (mcell ks) es)) HEADER_SIZE (length (layout (fixed_sec (mcell ks) es))) = Inr (concat (map fixed_elem es))"
      unfolding layout_def cells_body [OF ord] by (simp add: slice_r_def length_pairs HEADER_SIZE_def HEADER_ELEMENT_SIZE_def)
    then show ?thesis
      using serialize_fixed [OF st(2) Some st(3,1,4) fixed_bound [OF assms Some]] deserialize_eq [OF wf ok(2,3,1)] Some
      unfolding es [symmetric] by (auto simp: header_deserialize_index_def db)
  next
    case None
    let ?fl = "if es = [] then [] else varlen_bytes (map reload es)"
    have "flat_view None ?fl (map reload es)" using varlen_view [of "map reload es"] ok(1) None by (auto simp: flat_view_def flat_count_def)
    note l = loaded_wf [OF this]
    have "length (layout (varlen_sec (mcell ks) es)) < 2 ^ 32" using varlen_bound [OF assms] unfolding es by simp
    from load_varlen [OF ord _ this] show ?thesis
      using serialize_varlen [OF st(2) None st(3,1,4)] l wf ok(1) None
      unfolding es [symmetric] by (auto simp: header_deserialize_index_def)
  qed
qed

section \<open>Scans\<close>

text \<open>A cache of an earlier call on the same blob: a section of it and the index of one of its entries.
  A cache recorded at another position is stale and is dropped by the call.\<close>

definition header_cache_ok :: "key_space_desc \<Rightarrow> bytes \<Rightarrow> wal_position \<Rightarrow> index_iter_cache option \<Rightarrow> bool" where
  "header_cache_ok ks b position cache = (case cache of
     Some (LookupHeaderCache p m buf i) \<Rightarrow> p = position \<longrightarrow>
       m < HEADER_ELEMENTS \<and> read_micro_cell_section (MemRead b) m = Inr (Some buf)
       \<and> (case index_key_size ks of Some n \<Rightarrow> i < length buf div (n + 12) | None \<Rightarrow> (case flat_varlen_count buf of Inr n \<Rightarrow> i < n | Inl _ \<Rightarrow> False))
   | _ \<Rightarrow> True)"

lemma section_holds_count:
  assumes "section_holds ks b xs"
  shows "case index_key_size ks of Some n \<Rightarrow> length b div (n + 12) = length xs | None \<Rightarrow> flat_varlen_count b = Inr (length xs)"
  using assms varlen.count_holds [of b xs]
  by (cases "index_key_size ks") (auto simp: section_holds_def fixed_section_length)

lemma cache_ok_cached:
  assumes "header_cache_ok ks (layout sec) position cache" "length (layout sec) < 2 ^ 32"
    and "\<And>m. sec m \<noteq> [] \<Longrightarrow> section_holds ks (sec m) (xs m)"
    and "cache' = (case cache of Some c \<Rightarrow> if cache_position c \<noteq> position then None else Some c | None \<Rightarrow> None)"
  shows "cached position (section_holds ks) sec xs cache'"
proof -
  have "p = position \<and> m < HEADER_ELEMENTS \<and> b = sec m \<and> section_holds ks b (xs m) \<and> i < length (xs m)"
    if c: "cache' = Some (LookupHeaderCache p m b i)" for p m b i
  proof -
    have cp: "cache = Some (LookupHeaderCache p m b i)" "p = position" using c assms(4) by (auto split: option.splits if_splits)
    then have m: "m < HEADER_ELEMENTS" and rd: "read_micro_cell_section (MemRead (layout sec)) m = Inr (Some b)"
      using assms(1) by (auto simp: header_cache_ok_def)
    have "sec m \<noteq> []" "b = sec m" using read_layout [OF reads_mem assms(2) m] rd by (auto split: if_splits)
    moreover from this have "section_holds ks b (xs m)" using assms(3) by simp
    moreover from section_holds_count [OF this] have "i < length (xs m)"
      using assms(1) cp by (auto simp: header_cache_ok_def split: option.splits)
    ultimately show ?thesis using cp(2) m by simp
  qed
  then show ?thesis by (simp add: cached_def)
qed

lemma cached_cache_ok:
  assumes "cached position (section_holds ks) sec xs cache" "length (layout sec) < 2 ^ 32"
    and "\<And>m. sec m = [] \<longleftrightarrow> xs m = []"
  shows "header_cache_ok ks (layout sec) position cache"
proof (cases "\<exists>p m b i. cache = Some (LookupHeaderCache p m b i)")
  case True
  then obtain p m b i where c: "cache = Some (LookupHeaderCache p m b i)" by blast
  then have h: "p = position" "m < HEADER_ELEMENTS" "b = sec m" "section_holds ks b (xs m)" "i < length (xs m)"
    using assms(1) by (auto simp: cached_def)
  then have "sec m \<noteq> []" using assms(3) [of m] by auto
  then show ?thesis
    using c h read_layout [OF reads_mem assms(2) h(2)] section_holds_count [OF h(4)]
    by (auto simp: header_cache_ok_def split: option.splits)
qed (auto simp: header_cache_ok_def split: option.splits index_iter_cache.splits)

lemma header_scan_view:
  assumes "header_storable ks c t" "header_serialize_index t ks = Inr b" "reads_as r b" "header_cache_ok ks b position cache"
    and "\<And>k. prev = Some k \<Longrightarrow> key_ok ks c k"
  shows "\<exists>cache'. header_next_entry_unloaded ks r prev d position cache = Inr (next_of d prev (header_view ks t), cache')
    \<and> header_cache_ok ks b position cache'"
proof -
  obtain sec where ser: "header_serialize_index t ks = Inr (layout sec)" and st_as: "stored_as ks t sec"
    using header_blob [OF assms(1)] by blast
  note sec = stored_asD [OF st_as]
  let ?es = "header_view ks t" and ?f = "mcell ks"
  have ks: "ks_ok ks" "in_cell ks c ?es"
    using assms(1) by (simp_all add: header_storable_def in_cell_keys [of ks c] header_view_keys)
  have b: "b = layout sec" using assms(2) ser by simp
  define cache' where "cache' = (case cache of Some c \<Rightarrow> if cache_position c \<noteq> position then None else Some c | None \<Rightarrow> None)"
  have ca: "cached position (section_holds ks) sec (cell_entries ?f ?es) cache'"
    using cache_ok_cached [OF _ sec(1,3) cache'_def] assms(4) b by simp
  have rd: "read_micro_cell_section r m = Inr (if cell_entries ?f ?es m = [] then None else Some (sec m))" if "m < HEADER_ELEMENTS" for m
    using read_layout [OF _ sec(1) that] assms(3) b sec(2) [of m] by simp
  have hold: "section_holds ks (sec m) (cell_entries ?f ?es m)" if "cell_entries ?f ?es m \<noteq> []" for m
    using sec(2,3) [of m] that by simp
  define start where "start = (case prev of None \<Rightarrow> first_in_range d 0 HEADER_ELEMENTS | Some k \<Rightarrow> ?f k)"
  have st: "(case prev of None \<Rightarrow> Inr (first_in_range d 0 HEADER_ELEMENTS)
      | Some prev_key \<Rightarrow> bindr (case index_key_size ks of Some ksz \<Rightarrow> assertr (length prev_key = ksz) (Inr ()) | None \<Rightarrow> Inr ())
          (\<lambda>_. key_micro_cell ks prev_key)) = Inr start" "start < HEADER_ELEMENTS"
    using assms(5) key_size_assert key_micro_cell_in [OF ks(1)]
    by (auto simp: start_def key_ok_def first_in_range_def HEADER_ELEMENTS_def split: option.splits direction.splits)
  have ah: "ahead d start (?f (fst e))" if e: "e \<in> set ?es" "past d prev (fst e)" for e
  proof (cases prev)
    case None
    then show ?thesis
      using cells_in_orderD(2) [OF sec(4) e(1)] by (cases d) (simp_all add: start_def ahead_def first_in_range_def)
  next
    case (Some k)
    have "cell_id_of ks (fst e) = Inr c" "cell_id_of ks k = Inr c"
      using ks(2) e(1) assms(5) [OF Some] by (auto simp: in_cell_def list_all_iff key_ok_def)
    then show ?thesis
      using e(2) Some mcell_mono [OF ks(1)] by (cases d) (auto simp: start_def ahead_def beyond_def less_imp_le)
  qed
  have walk: "\<exists>c'. header_next_entry_unloaded ks r prev d position cache = Inr (next_of d prev ?es, c')
      \<and> cached position (section_holds ks) sec (cell_entries ?f ?es) c'"
  proof (cases "index_key_size ks")
    case (Some n)
    have sh: "section_holds ks = (\<lambda>b xs. index_key_size ks = Some n \<and> fixed_section n b xs \<and> sm_wf xs)"
      using Some by (simp add: section_holds_def)
    show ?thesis
      using fixed.walk_eq [OF sec(4) refl rd hold [unfolded sh] st(2) ca [unfolded sh] ah] Some st(1)
      by (simp add: header_next_entry_unloaded_def cache'_def [symmetric] index_key_element_size_def index_element_size_def sh)
  next
    case None
    have sh: "section_holds ks = varlen_section_holds" using None by (simp add: section_holds_def)
    show ?thesis
      using varlen.walk_eq [OF sec(4) refl rd hold [unfolded sh] st(2) ca [unfolded sh] ah] None st(1)
      by (simp add: header_next_entry_unloaded_def cache'_def [symmetric] index_key_element_size_def next_entry_unloaded_varlen_def sh)
  qed
  then show ?thesis using cached_cache_ok [OF _ sec(1,2)] b by blast
qed

section \<open>Properties\<close>

text \<open>A table of one cell with a live and a removed key, and a key space with keys of any length.\<close>

definition demo_cell_table :: index_table where
  "demo_cell_table = \<lparr>data = [([3, 0, 0, 0, 0, 0], [IWP 8 9 Modified]), ([3, 0, 0, 0, 0, 9], [IWP 16 9 Modified, IWP 32 9 Removed])],
     key_bytes = 12, dirty_count = 2, flat = [], key_size = None\<rparr>"

definition demo_varlen :: key_space_desc where
  "demo_varlen = demo_uniform\<lparr>ks_indexing := VariableLength\<rparr>"

lemma demo_cell_table_inv: "index_inv demo_cell_table"
  by (simp add: index_inv_def overlay_ok_def flat_wf_def stats_ok_def demo_cell_table_def positions_ok_def
      flat_entries_def flat_items_def flat_iter_new_def flat_collect.simps flat_view_def flat_count_def
      flat_ok_def latest_def sum_key_bytes_def count_dirty_def is_clean_def)

lemma demo_sizes: "index_key_size demo_uniform = Some 6" "index_key_size demo_varlen = None"
  by (simp_all add: index_key_size_def demo_uniform_def demo_varlen_def)

lemma demo_cells:
  assumes "k \<in> {[3, 0, 0, 0, 0, 0], [3, 0, 0, 0, 0, 9]}"
  shows "cell_id_of demo_uniform k = Inr (Integer 1)" "cell_id_of demo_varlen k = Inr (Integer 1)"
  using assms uniform_cell_id [of demo_uniform "\<lparr>cells_per_mutex = 8\<rparr>" 7 k] uniform_cell_id [of demo_varlen "\<lparr>cells_per_mutex = 8\<rparr>" 7 k]
  by (auto simp: demo_uniform_def demo_varlen_def num_cells_def unat_starting_u32 zero_padded_def be_decode_Cons take_Cons')

lemma demo_combined: "combined demo_cell_table = [([3, 0, 0, 0, 0, 0], IWP 8 9 Modified), ([3, 0, 0, 0, 0, 9], IWP 32 9 Removed)]"
proof -
  have "flat_entries demo_cell_table = []"
    by (simp add: demo_cell_table_def flat_entries_def flat_items_def flat_iter_new_def flat_collect.simps)
  then show ?thesis by (simp add: combined_def demo_cell_table_def latest_def)
qed

lemma demo_storable:
  "header_storable demo_uniform (Integer 1) demo_cell_table" "header_storable demo_varlen (Integer 1) demo_cell_table"
proof -
  have ok: "ks_ok demo_varlen" using demo_ok(1) by (simp add: demo_varlen_def ks_ok_def num_cells_def cong: key_type.case_cong)
  have "storable demo_uniform demo_cell_table" "storable demo_varlen demo_cell_table"
    unfolding storable_def demo_combined demo_sizes
    by (simp_all add: key_fits_def demo_sizes pos_ok_def into_wal_position_def MAX_U16_VARINT_def
        flat_ok_def reload_def observed_def len_ok_def from_disk_def new_clean_def WAL_INVALID_def)
  then show "header_storable demo_uniform (Integer 1) demo_cell_table" "header_storable demo_varlen (Integer 1) demo_cell_table"
    using demo_ok(1) ok index_inv_wf [OF demo_cell_table_inv] demo_cells
    by (simp_all add: header_storable_def demo_combined in_cell_def HEADER_SIZE_def HEADER_ELEMENTS_def HEADER_ELEMENT_SIZE_def)
qed

lemma demo_key_ok:
  assumes "k \<in> {[3, 0, 0, 0, 0, 0], [3, 0, 0, 0, 0, 9]}"
  shows "key_ok demo_uniform (Integer 1) k" "key_ok demo_varlen (Integer 1) k"
  using demo_cells [OF assms] assms by (auto simp: key_ok_def demo_sizes)

lemma demo_gets:
  "index_get demo_cell_table [3, 0, 0, 0, 0, 0] = Inr (Some (WalPosition 8 9))"
  "index_get demo_cell_table [3, 0, 0, 0, 0, 9] = Inr (Some WAL_INVALID)"
  by code_simp+



text \<open>C30. A removed key of a variable-length key space reads as present from disk: the lookup returns the
  position \<open>(u64::MAX, 0)\<close>, which is not the invalid position that marks a tombstone, so it counts
  as valid, while the table itself reports the tombstone.\<close>

theorem varlen_tombstone_reads_valid:
  assumes "header_storable ks c t" "key_ok ks c k" "index_key_size ks = None" "index_get t k = Inr (Some WAL_INVALID)"
  shows "\<exists>b. header_serialize_index t ks = Inr b
    \<and> (\<forall>r. reads_as r b \<longrightarrow> (\<exists>p. header_lookup_unloaded ks r k = Inr (Some p) \<and> is_valid p))"
proof -
  obtain b where b: "header_serialize_index t ks = Inr b" using header_blob [OF assms(1)] by blast
  have wf: "table_wf t" using assms(1) by (simp add: header_storable_def)
  have "map_of (header_view ks t) k = Some (WalPosition u64_MAX 0)"
    using assms(3,4) unfolding header_view_lookup [OF wf] index_get_wf [OF wf]
    by (cases "live t k") (simp_all add: from_disk_def into_update_position_def WAL_INVALID_def)
  moreover have "is_valid (WalPosition u64_MAX 0)" by (simp add: is_valid_def WAL_INVALID_def)
  ultimately show ?thesis using b header_lookup_view [OF assms(1,2) b] by auto
qed

theorem varlen_tombstone_reads_valid_witness:
  "\<exists>b p. header_serialize_index demo_cell_table demo_varlen = Inr b
     \<and> header_lookup_unloaded demo_varlen (MemRead b) [3, 0, 0, 0, 0, 9] = Inr (Some p) \<and> is_valid p
     \<and> index_get demo_cell_table [3, 0, 0, 0, 0, 9] = Inr (Some WAL_INVALID)"
  using varlen_tombstone_reads_valid [OF demo_storable(2) demo_key_ok(2) demo_sizes(2) demo_gets(2)] reads_mem demo_gets(2) by auto



text \<open>C29. Round trip of a stored index: loading the blob of a table gives a well-formed table with an
  empty overlay and the same lookups, tombstones included, in both key formats.\<close>

theorem header_blob_roundtrip:
  assumes "header_storable ks c t"
  shows "\<exists>b t'. header_serialize_index t ks = Inr b \<and> header_deserialize_index ks b = Inr t'
    \<and> table_wf t' \<and> data t' = [] \<and> (\<forall>k. index_get t' k = index_get t k)"
proof -
  have wf: "table_wf t" using assms by (simp add: header_storable_def)
  obtain b t' where t': "header_serialize_index t ks = Inr b" "header_deserialize_index ks b = Inr t'" "table_wf t'"
      "data t' = []" "flat_entries t' = map reload (map observed (combined t))"
    using header_reload [OF assms] by blast
  have "live t' k = map_option from_disk (map_option into_wal_position (live t k))" for k
    unfolding live_def [of t'] t'(4,5) map_of_reload map_of_observed live_map_of_combined [OF wf] by simp
  then have "index_get t' k = index_get t k" for k
    by (cases "live t k") (simp_all add: index_get_wf [OF wf] index_get_wf [OF t'(3)] from_disk_into)
  then show ?thesis using t' by blast
qed

theorem header_blob_roundtrip_witness:
  "\<exists>b t'. header_serialize_index demo_cell_table demo_varlen = Inr b \<and> header_deserialize_index demo_varlen b = Inr t'
     \<and> index_get t' [3, 0, 0, 0, 0, 9] = Inr (Some WAL_INVALID) \<and> index_get t' [3, 0, 0, 0, 0, 0] = Inr (Some (WalPosition 8 9))"
  using header_blob_roundtrip [OF demo_storable(2)] demo_gets by auto

end
