(* ===== verification/Uniform_Lookup.thy ===== *)
theory Uniform_Lookup
  imports Lookup_Header
begin

text \<open>
  The uniform format of on-disk indices (\<open>tidehunter/src/index/uniform_lookup.rs\<close>): the entries of
  a cell, sorted and of one size, with no header. A lookup guesses where the key should be from its
  64-bit prefix, reads a window of entries around the guess, and moves the window up or down until
  it holds the place of the key. Nothing in the code bounds the number of moves, so the loop is a
  partial function whose result \<open>None\<close> is a run that never ends.
\<close>

definition DEFAULT_WINDOW_SIZE :: usize where "DEFAULT_WINDOW_SIZE = 800"
definition NUM_WINDOW_SIZES :: usize where "NUM_WINDOW_SIZES = 1"

record uniform_lookup_index =
  window_sizes :: "usize list list"

definition uniform_new_with_window_size :: "usize \<Rightarrow> uniform_lookup_index" where
  "uniform_new_with_window_size window_size =
     \<lparr>window_sizes = replicate NUM_WINDOW_SIZES (replicate NUM_WINDOW_SIZES window_size)\<rparr>"

definition uniform_new :: uniform_lookup_index where
  "uniform_new = \<lparr>window_sizes = replicate NUM_WINDOW_SIZES (replicate NUM_WINDOW_SIZES DEFAULT_WINDOW_SIZE)\<rparr>"

definition window_size :: "uniform_lookup_index \<Rightarrow> usize res" where
  "window_size self = bindr (index_r (window_sizes self) 0) (\<lambda>row. index_r row 0)"

section \<open>Windows\<close>

definition saturating_mul_u64 :: "u64 \<Rightarrow> u64 \<Rightarrow> u64" where
  "saturating_mul_u64 a b = (if unat a * unat b < 2 ^ 64 then a * b else u64_MAX)"

definition saturating_sub_u64 :: "u64 \<Rightarrow> u64 \<Rightarrow> u64" where
  "saturating_sub_u64 a b = (if b \<le> a then a - b else 0)"

text \<open>The product is taken in 128 bits. On an empty file \<open>file_length - 1\<close> wraps and the estimate is 0,
  as it is here.\<close>

definition probable_key_offset_and_window_size ::
    "uniform_lookup_index \<Rightarrow> key_space_desc \<Rightarrow> u64 \<times> u64 \<Rightarrow> bytes \<Rightarrow> usize \<Rightarrow> (usize \<times> usize) res" where
  "probable_key_offset_and_window_size self ks cell_prefix_range key file_length =
     (let unit = push_bit ((PREFIX_LENGTH - CELL_PREFIX_LENGTH) * 8) 1;
          long_prefix_range_start = saturating_mul_u64 (fst cell_prefix_range) unit;
          long_prefix_range_end = saturating_mul_u64 (snd cell_prefix_range) unit;
          cell_width = saturating_sub_u64 long_prefix_range_end long_prefix_range_start
      in assertr (CELL_PREFIX_LENGTH \<le> PREFIX_LENGTH) (assertr (PREFIX_LENGTH \<le> 8)
        (bindr (index_prefix_u64 ks key) (\<lambda>prefix.
           if prefix < long_prefix_range_start \<or> long_prefix_range_end < prefix then Inl ExplicitPanic
           else
             let prefix_pos = saturating_sub_u64 prefix long_prefix_range_start in
             if cell_width = 0 then Inl ExplicitPanic
             else
               let estimate = unat prefix_pos * file_length div unat cell_width mod 2 ^ 64;
                   probable_offset = min estimate (file_length - 1)
               in bindr (window_size self) (\<lambda>w. Inr (probable_offset, w div 2))))))"

definition lookup_window :: "usize \<Rightarrow> usize \<Rightarrow> usize \<Rightarrow> usize \<Rightarrow> usize \<times> usize" where
  "lookup_window half_window_size estimated_offset element_size file_length =
     (let estimated_offset = estimated_offset div element_size * element_size;
          from_offset = estimated_offset - half_window_size * element_size;
          to_offset = min (estimated_offset + half_window_size * element_size) file_length
      in (from_offset, to_offset))"

definition move_window_up :: "usize \<Rightarrow> usize \<Rightarrow> usize \<Rightarrow> usize \<Rightarrow> usize \<times> usize" where
  "move_window_up to_offset half_window_size element_size file_length =
     (let window_size = 2 * half_window_size * element_size;
          new_from_offset = min (to_offset - element_size) file_length;
          new_to_offset = min (new_from_offset + window_size) file_length
      in (new_from_offset, new_to_offset))"

definition move_window_down :: "usize \<Rightarrow> usize \<Rightarrow> usize \<Rightarrow> usize \<Rightarrow> usize \<times> usize" where
  "move_window_down from_offset half_window_size element_size file_length =
     (let window_size = 2 * half_window_size * element_size;
          new_to_offset = min (from_offset + element_size) file_length;
          new_from_offset = min (new_to_offset - window_size) file_length
      in (new_from_offset, new_to_offset))"

section \<open>The search loop\<close>

text \<open>What a round of a loop does: return, or go on with another window.\<close>

datatype 'a round = Return 'a | Continue "usize \<times> usize"

partial_function (option) window_loop :: "(usize \<times> usize \<Rightarrow> 'a round res) \<Rightarrow> usize \<times> usize \<Rightarrow> 'a res option" where
  "window_loop f w =
     (case f w of
        Inl p \<Rightarrow> Some (Inl p)
      | Inr (Return r) \<Rightarrow> Some (Inr r)
      | Inr (Continue w') \<Rightarrow> window_loop f w')"

definition uniform_lookup_round ::
    "random_read \<Rightarrow> bytes \<Rightarrow> usize \<Rightarrow> usize \<Rightarrow> usize \<Rightarrow> usize \<Rightarrow> usize \<times> usize \<Rightarrow> wal_position option round res" where
  "uniform_lookup_round reader key ksz element_size half_window_size file_length w =
     (let (from_offset, to_offset) = w in
      if to_offset - from_offset < element_size \<or> file_length \<le> from_offset then Inr (Return None)
      else
        bindr (rr_read reader from_offset to_offset) (\<lambda>buffer.
        bindr (slice_r buffer 0 ksz) (\<lambda>first_element_key.
        bindr (slice_r buffer (length buffer - element_size) (length buffer - element_size + ksz)) (\<lambda>last_element_key.
          if key < first_element_key \<and> from_offset \<noteq> 0
          then Inr (Continue (move_window_down from_offset half_window_size element_size file_length))
          else if last_element_key < key \<and> to_offset \<noteq> file_length
          then Inr (Continue (move_window_up to_offset half_window_size element_size file_length))
          else if length buffer div element_size = 0 then Inr (Return None)
          else bindr (binary_search buffer key element_size ksz) (\<lambda>(_, _, result). Inr (Return result))))))"

definition uniform_lookup_unloaded ::
    "uniform_lookup_index \<Rightarrow> key_space_desc \<Rightarrow> random_read \<Rightarrow> bytes \<Rightarrow> wal_position option res option" where
  "uniform_lookup_unloaded self ks reader key =
     (case bindr (require_index_element_size ks) (\<lambda>element_size.
           bindr (require_index_key_size ks) (\<lambda>ksz.
           assertr (length key = ksz)
           (bindr (cell_id_of ks key) (\<lambda>cell.
            bindr (index_prefix_range ks cell) (\<lambda>cell_prefix_range.
            bindr (probable_key_offset_and_window_size self ks cell_prefix_range key (rr_len reader)) (\<lambda>(probable_offset, half_window_size).
              Inr (ksz, element_size, probable_offset, half_window_size))))))) of
        Inl p \<Rightarrow> Some (Inl p)
      | Inr (ksz, element_size, probable_offset, half_window_size) \<Rightarrow>
          window_loop (uniform_lookup_round reader key ksz element_size half_window_size (rr_len reader))
            (lookup_window half_window_size probable_offset element_size (rr_len reader)))"

section \<open>Scans\<close>

definition next_entry_unloaded_no_prev ::
    "uniform_lookup_index \<Rightarrow> key_space_desc \<Rightarrow> random_read \<Rightarrow> direction \<Rightarrow> (bytes \<times> wal_position) option res" where
  "next_entry_unloaded_no_prev self ks reader d =
     bindr (require_index_element_size ks) (\<lambda>element_size.
     bindr (require_index_key_size ks) (\<lambda>ksz.
     bindr (window_size self) (\<lambda>w.
       let file_length = rr_len reader;
           (from_offset, to_offset) = (case d of
              Forward \<Rightarrow> (0, min (w * element_size) file_length)
            | Backward \<Rightarrow> (file_length - w * element_size, file_length))
       in if to_offset \<le> from_offset \<or> file_length \<le> from_offset then Inr None
          else
            bindr (rr_read reader from_offset to_offset) (\<lambda>buffer.
              if buffer = [] \<or> length buffer < element_size then Inr None
              else
                let entry_count = length buffer div element_size in
                if entry_count = 0 then Inr None
                else bindr (fixed_entry_at ksz element_size buffer (first_in_range d 0 entry_count)) (\<lambda>e. Inr (Some e))))))"

text \<open>The cached window: it ends the scan, serves the next entry, or does not decide.\<close>

datatype cache_outcome = EndOfFile | NextAt usize | FallThrough

definition cached_next :: "bytes \<Rightarrow> usize \<Rightarrow> usize \<Rightarrow> usize \<Rightarrow> direction \<Rightarrow> usize \<Rightarrow> usize \<Rightarrow> bytes \<Rightarrow> usize \<Rightarrow> cache_outcome res" where
  "cached_next prev_key ksz element_size file_length d cached_from cached_to cached_buf last_pos =
     (let entry_count = length cached_buf div element_size;
          forward = (\<lambda>p. if p < entry_count then NextAt p else if cached_to = file_length then EndOfFile else FallThrough);
          backward = (\<lambda>p. if p = 0 then if cached_from = 0 then EndOfFile else FallThrough else NextAt (p - 1))
      in if entry_count = 0 then Inr FallThrough
         else
           bindr (slice_r cached_buf 0 ksz) (\<lambda>first_key.
           bindr (slice_r cached_buf (length cached_buf - element_size) (length cached_buf - element_size + ksz)) (\<lambda>last_key.
             if (first_key \<le> prev_key \<or> cached_from = 0) \<and> (prev_key \<le> last_key \<or> cached_to = file_length)
             then
               bindr (fixed_key_at ksz element_size cached_buf last_pos) (\<lambda>key_at_last.
                 if key_at_last = prev_key
                 then Inr (case d of Forward \<Rightarrow> forward (last_pos + 1) | Backward \<Rightarrow> backward last_pos)
                 else
                   bindr (binary_search cached_buf prev_key element_size ksz) (\<lambda>(found_pos, insertion_point, _).
                     Inr (case d of
                            Forward \<Rightarrow> forward (case found_pos of Some p \<Rightarrow> p + 1 | None \<Rightarrow> insertion_point)
                          | Backward \<Rightarrow> backward (case found_pos of Some p \<Rightarrow> p | None \<Rightarrow> insertion_point))))
             else Inr FallThrough)))"

definition uniform_next_round ::
    "random_read \<Rightarrow> bytes \<Rightarrow> direction \<Rightarrow> wal_position \<Rightarrow> index_iter_cache option \<Rightarrow> usize \<Rightarrow> usize \<Rightarrow> usize \<Rightarrow> usize
     \<Rightarrow> usize \<times> usize \<Rightarrow> ((bytes \<times> wal_position) option \<times> index_iter_cache option) round res" where
  "uniform_next_round reader prev_key d position cache ksz element_size half_window_size file_length w =
     (let (from_offset, to_offset) = w;
          down = Continue (move_window_down from_offset half_window_size element_size file_length);
          up = Continue (move_window_up to_offset half_window_size element_size file_length)
      in
      if to_offset - from_offset < element_size \<or> file_length \<le> from_offset then Inr (Return (None, cache))
      else
        bindr (rr_read reader from_offset to_offset) (\<lambda>buffer.
        bindr (slice_r buffer 0 ksz) (\<lambda>first_element_key.
        bindr (slice_r buffer (length buffer - element_size) (length buffer - element_size + ksz)) (\<lambda>last_element_key.
          if prev_key < first_element_key \<and> from_offset \<noteq> 0 then Inr down
          else if last_element_key < prev_key \<and> to_offset \<noteq> file_length then Inr up
          else if length buffer div element_size = 0 then Inr (Return (None, cache))
          else
            bindr (binary_search buffer prev_key element_size ksz) (\<lambda>(found_pos, insertion_point, _).
              let at = (\<lambda>next_pos.
                    if length buffer div element_size \<le> next_pos then
                      Inr (if to_offset = file_length then Return (None, cache) else up)
                    else
                      bindr (fixed_entry_at ksz element_size buffer next_pos) (\<lambda>e.
                        Inr (Return (Some e, Some (UniformLookupCache position from_offset to_offset buffer next_pos)))));
                  before = (\<lambda>p. if p = 0 then Inr (if from_offset = 0 then Return (None, cache) else down) else at (p - 1))
              in case d of
                   Forward \<Rightarrow> at (case found_pos of Some pos \<Rightarrow> pos + 1 | None \<Rightarrow> insertion_point)
                 | Backward \<Rightarrow> before (case found_pos of Some pos \<Rightarrow> pos | None \<Rightarrow> insertion_point))))))"

definition uniform_next_entry_unloaded ::
    "uniform_lookup_index \<Rightarrow> key_space_desc \<Rightarrow> random_read \<Rightarrow> bytes option \<Rightarrow> direction \<Rightarrow> wal_position \<Rightarrow> index_iter_cache option
     \<Rightarrow> ((bytes \<times> wal_position) option \<times> index_iter_cache option) res option" where
  "uniform_next_entry_unloaded self ks reader prev d position cache0 =
     (let file_length = rr_len reader;
          cache = (case cache0 of
            Some c \<Rightarrow> if cache_position c \<noteq> position then None else Some c
          | None \<Rightarrow> None)
      in case bindr (require_index_element_size ks) (\<lambda>element_size.
              bindr (require_index_key_size ks) (\<lambda>ksz. Inr (element_size, ksz))) of
           Inl p \<Rightarrow> Some (Inl p)
         | Inr (element_size, ksz) \<Rightarrow>
             (case prev of
                None \<Rightarrow> Some (bindr (next_entry_unloaded_no_prev self ks reader d) (\<lambda>e. Inr (e, None)))
              | Some prev_key \<Rightarrow>
                  let disk = (case bindr (cell_id_of ks prev_key) (\<lambda>cell.
                                   bindr (index_prefix_range ks cell) (\<lambda>cell_prefix_range.
                                   probable_key_offset_and_window_size self ks cell_prefix_range prev_key file_length)) of
                          Inl p \<Rightarrow> Some (Inl p)
                        | Inr (probable_offset, half_window_size) \<Rightarrow>
                            window_loop (uniform_next_round reader prev_key d position cache ksz element_size half_window_size file_length)
                              (lookup_window half_window_size probable_offset element_size file_length))
                  in if length prev_key \<noteq> ksz then Some (Inl AssertFailed)
                     else case cache of
                       Some (UniformLookupCache cpos cached_from cached_to cached_buf last_pos) \<Rightarrow>
                         (case cached_next prev_key ksz element_size file_length d cached_from cached_to cached_buf last_pos of
                            Inl p \<Rightarrow> Some (Inl p)
                          | Inr EndOfFile \<Rightarrow> Some (Inr (None, cache))
                          | Inr (NextAt next_pos) \<Rightarrow>
                              Some (bindr (fixed_entry_at ksz element_size cached_buf next_pos) (\<lambda>e.
                                Inr (Some e, Some (UniformLookupCache cpos cached_from cached_to cached_buf next_pos))))
                          | Inr FallThrough \<Rightarrow> disk)
                     | _ \<Rightarrow> disk))"

section \<open>Blobs\<close>

definition uniform_serialize_index :: "index_table \<Rightarrow> key_space_desc \<Rightarrow> bytes res" where
  "uniform_serialize_index t ks =
     bindr (require_index_element_size ks) (\<lambda>_. serialize_index_entries t ks [])"

definition uniform_deserialize_index :: "key_space_desc \<Rightarrow> bytes \<Rightarrow> index_table res" where
  "uniform_deserialize_index ks b = deserialize_index_entries ks b"

section \<open>The place of a key\<close>

text \<open>The number of keys below a key, and of those up to it.\<close>

definition placed :: "(bytes \<times> 'v) list \<Rightarrow> bytes \<Rightarrow> nat \<Rightarrow> nat \<Rightarrow> bool" where
  "placed es k lo up \<longleftrightarrow> lo \<le> up \<and> up \<le> lo + 1 \<and> up \<le> length es
     \<and> (\<forall>i < length es. (fst (es ! i) < k \<longleftrightarrow> i < lo) \<and> (fst (es ! i) \<le> k \<longleftrightarrow> i < up))"

lemma placedD:
  assumes "placed es k lo up"
  shows "lo \<le> up" "up \<le> lo + 1" "up \<le> length es"
    and "i < length es \<Longrightarrow> fst (es ! i) < k \<longleftrightarrow> i < lo" "i < length es \<Longrightarrow> fst (es ! i) \<le> k \<longleftrightarrow> i < up"
  using assms by (simp_all add: placed_def)

lemma placed_exists:
  assumes "sm_wf es"
  obtains lo up where "placed es k lo up"
proof -
  have "placed es k (lower k es) (length (takeWhile (\<lambda>e. fst e \<le> k) es))"
    using key_index [OF assms, of _ k] upper_lower [OF assms, of k] length_takeWhile_le [of "\<lambda>e. fst e \<le> k" es]
    by (auto simp: placed_def)
  then show ?thesis using that by blast
qed

lemma nat_eq_belowI:
  assumes "a \<le> n" "b \<le> n" "\<And>i. i < n \<Longrightarrow> i < a \<longleftrightarrow> i < b"
  shows "a = (b :: nat)"
proof -
  consider "a = b" | "a < b" | "b < a" by linarith
  then show ?thesis using assms(3) [of a] assms(3) [of b] assms(1,2) by cases auto
qed

lemma placed_bounds:
  assumes "sm_wf es" "placed es k lo up"
  shows "lower k es = lo" "length (takeWhile (\<lambda>e. fst e \<le> k) es) = up"
proof -
  note p = placedD [OF assms(2)]
  have "lo \<le> length es" using p(1,3) by simp
  then show "lower k es = lo"
    using key_index(1) [OF assms(1), of _ k] p(4) by (intro nat_eq_belowI [OF length_takeWhile_le]) simp_all
  show "length (takeWhile (\<lambda>e. fst e \<le> k) es) = up"
    using key_index(2) [OF assms(1), of _ k] p(3,5) by (intro nat_eq_belowI [OF length_takeWhile_le]) simp_all
qed

lemma placed_lookup:
  assumes "sm_wf es" "placed es k lo up"
  shows "map_of es k = (if lo < up then Some (snd (es ! lo)) else None)"
proof -
  note p = placedD [OF assms(2)]
  have "lo < up \<longleftrightarrow> lo < length es \<and> fst (es ! lo) = k"
    using p(3) p(4) [of lo] p(5) [of lo] by (auto simp: order.strict_iff_order)
  then show ?thesis using lookup_at_lower_bound [OF assms(1) placed_bounds(1) [OF assms, symmetric]] by simp
qed

lemma placed_next:
  assumes "sm_wf es" "placed es k lo up"
  shows "next_of Forward (Some k) es = (if up < length es then Some (es ! up) else None)"
    and "next_of Backward (Some k) es = (if lo = 0 then None else Some (es ! (lo - 1)))"
  using placed_bounds [OF assms] by (simp_all add: next_of_index [OF assms(1)] next_index_def)

lemma placed_window:
  assumes "placed es k lo up" "j \<le> length es"
  shows "placed (take (j - i) (drop i es)) k (min (j - i) (lo - i)) (min (j - i) (up - i))"
  using placedD [OF assms(1)] assms(2) by (auto simp: placed_def)

section \<open>Windows of a blob\<close>

lemma slice_concat_fixed:
  "\<forall>x \<in> set xs. length x = e \<Longrightarrow> take (m * e) (drop (i * e) (concat xs)) = concat (take m (drop i xs))"
proof (induction xs arbitrary: i m)
  case (Cons x xs)
  then have x: "length x = e" by simp
  show ?case
  proof (cases i)
    case 0
    then show ?thesis using Cons.IH [of _ 0] Cons.prems x by (cases m) simp_all
  next
    case (Suc i')
    then show ?thesis using Cons.IH [of m i'] Cons.prems x by simp
  qed
qed simp

definition blob_window :: "(bytes \<times> wal_position) list \<Rightarrow> nat \<Rightarrow> nat \<Rightarrow> (bytes \<times> wal_position) list" where
  "blob_window es i j = take (j - i) (drop i es)"

lemma blob_window_simps:
  assumes "i < j" "j \<le> length es"
  shows "length (blob_window es i j) = j - i" "x < j - i \<Longrightarrow> blob_window es i j ! x = es ! (i + x)"
  using assms by (simp_all add: blob_window_def)

lemma sm_wf_window: "sm_wf es \<Longrightarrow> sm_wf (blob_window es i j)"
  by (simp add: blob_window_def sm_wf_def sorted_wrt_take sorted_wrt_drop flip: take_map drop_map)

lemma window_read:
  assumes "fixed_section n b es" "reads_as r b" "i < j" "j \<le> length es"
  shows "\<exists>buf. rr_read r (i * (n + 12)) (j * (n + 12)) = Inr buf \<and> fixed_section n buf (blob_window es i j)"
proof -
  let ?e = "n + 12"
  have "length b = length es * ?e" by (rule fixed_section_length [OF assms(1)])
  then have "rr_read r (i * ?e) (j * ?e) = Inr (take ((j - i) * ?e) (drop (i * ?e) b))"
    using assms(2-4) by (simp add: reads_as_def diff_mult_distrib)
  moreover have "take ((j - i) * ?e) (drop (i * ?e) b) = concat (take (j - i) (drop i (map fixed_elem es)))"
    using slice_concat_fixed [OF fixed_section_elems [OF assms(1)], of "j - i" i] assms(1) by (simp add: fixed_section_def)
  moreover have "list_all (\<lambda>e. length (fst e) = n) (take (j - i) (drop i es))"
    using assms(1) by (auto simp: fixed_section_def list_all_iff dest!: in_set_takeD in_set_dropD)
  ultimately show ?thesis by (simp add: fixed_section_def blob_window_def take_map drop_map)
qed

lemma section_ends:
  assumes "fixed_section n buf xs" "xs \<noteq> []"
  shows "slice_r buf 0 n = Inr (fst (xs ! 0))"
    and "slice_r buf (length buf - (n + 12)) (length buf - (n + 12) + n) = Inr (fst (xs ! (length xs - 1)))"
    and "length buf div (n + 12) = length xs" "length buf div (n + 12) \<noteq> 0"
proof -
  have l: "length buf = length xs * (n + 12)" by (rule fixed_section_length [OF assms(1)])
  show "slice_r buf 0 n = Inr (fst (xs ! 0))" using fixed_section_at(1) [OF assms(1), of 0] assms(2) by simp
  have "length buf - (n + 12) = (length xs - 1) * (n + 12)" unfolding l by (simp add: diff_mult_distrib)
  then show "slice_r buf (length buf - (n + 12)) (length buf - (n + 12) + n) = Inr (fst (xs ! (length xs - 1)))"
    using fixed_section_at(1) [OF assms(1), of "length xs - 1"] assms(2) by simp
  show "length buf div (n + 12) = length xs" "length buf div (n + 12) \<noteq> 0" using l assms(2) by simp_all
qed

lemma placed_search:
  assumes "fixed_section n buf xs" "sm_wf xs" "placed xs k lo up"
  shows "\<exists>ins. binary_search buf k (n + 12) n = Inr (if lo < up then (Some lo, ins, Some (snd (xs ! lo))) else (None, lo, None))"
  using binary_search_eq [OF assms(1,2) placed_bounds(1) [OF assms(2,3), symmetric]] placed_lookup [OF assms(2,3)]
  by (auto split: if_splits)

section \<open>Moving the window\<close>

definition scaled :: "nat \<Rightarrow> nat \<times> nat \<Rightarrow> nat \<times> nat" where
  "scaled e w = (fst w * e, snd w * e)"

definition up_from :: "nat \<Rightarrow> nat \<Rightarrow> nat \<Rightarrow> nat \<times> nat" where
  "up_from h N j = (j - 1, min (j - 1 + 2 * h) N)"

definition down_from :: "nat \<Rightarrow> nat \<Rightarrow> nat \<times> nat" where
  "down_from h i = (i + 1 - 2 * h, i + 1)"

lemma move_scaled:
  assumes "0 < e" "i < j" "j \<le> N"
  shows "move_window_up (j * e) h e (N * e) = scaled e (up_from h N j)"
    and "move_window_down (i * e) h e (N * e) = scaled e (down_from h i)"
proof -
  have "(j - 1) * e \<le> N * e" "(i + 1) * e \<le> N * e" using assms by (intro mult_le_mono1, simp)+
  then have "min (j * e - e) (N * e) = (j - 1) * e" "min (i * e + e) (N * e) = (i + 1) * e"
    by (simp_all add: diff_mult_distrib distrib_right)
  moreover have "min ((j - 1) * e + 2 * h * e) (N * e) = min (j - 1 + 2 * h) N * e"
    by (simp add: nat_mult_min_left distrib_right)
  moreover have "(i + 1 - 2 * h) * e \<le> N * e" using assms by (intro mult_le_mono1) simp
  then have "min ((i + 1) * e - 2 * h * e) (N * e) = (i + 1 - 2 * h) * e"
    by (simp only: diff_mult_distrib min.absorb1)
  ultimately show "move_window_up (j * e) h e (N * e) = scaled e (up_from h N j)"
    "move_window_down (i * e) h e (N * e) = scaled e (down_from h i)"
    by (simp_all only: move_window_up_def move_window_down_def scaled_def up_from_def down_from_def Let_def fst_conv snd_conv)
qed

lemma first_window:
  assumes "0 < e" "0 < h" "est < N * e"
  shows "\<exists>i j. lookup_window h est e (N * e) = scaled e (i, j) \<and> i < j \<and> j \<le> N"
proof -
  have "est div e < N" using assms by (simp add: div_less_iff_less_mult)
  moreover have "lookup_window h est e (N * e) = scaled e (est div e - h, min (est div e + h) N)"
    by (simp add: lookup_window_def scaled_def Let_def diff_mult_distrib nat_mult_min_left distrib_right)
  moreover have "est div e - h < min (est div e + h) N" using assms(2) calculation(1) by linarith
  ultimately show ?thesis by (intro exI [of _ "est div e - h"] exI [of _ "min (est div e + h) N"]) simp
qed

text \<open>The search ends. A window that has to move up is followed by one that reaches further up, and a
  window that has to move down is followed by one that starts lower and never has to move up again.\<close>

lemma window_loop_ends:
  assumes "0 < h" and dn: "\<And>i. dn i \<Longrightarrow> t \<le> i"
    and round: "\<And>i j. i < j \<Longrightarrow> j \<le> N \<Longrightarrow> f (scaled e (i, j)) = Inr
      (if dn i \<and> i \<noteq> 0 then Continue (scaled e (down_from h i))
       else if j \<le> t \<and> j \<noteq> N then Continue (scaled e (up_from h N j))
       else Return (res i j))"
  shows "i < j \<Longrightarrow> j \<le> N \<Longrightarrow> \<exists>i' j'. window_loop f (scaled e (i, j)) = Some (Inr (res i' j'))
    \<and> i' < j' \<and> j' \<le> N \<and> (t < j' \<or> j' = N) \<and> (dn i' \<longrightarrow> i' = 0)"
proof (induction "if t < j then i else N + (N - j)" arbitrary: i j rule: less_induct)
  case less
  note step = window_loop.simps [of f "scaled e (i, j)"] round [OF less.prems]
  consider (up) "\<not> (dn i \<and> i \<noteq> 0)" "j \<le> t" "j \<noteq> N" | (down) "dn i" "i \<noteq> 0"
    | (stop) "\<not> (dn i \<and> i \<noteq> 0)" "\<not> (j \<le> t \<and> j \<noteq> N)" by blast
  then show ?case
  proof cases
    case up
    have "\<exists>i' j'. window_loop f (scaled e (j - 1, min (j - 1 + 2 * h) N)) = Some (Inr (res i' j'))
        \<and> i' < j' \<and> j' \<le> N \<and> (t < j' \<or> j' = N) \<and> (dn i' \<longrightarrow> i' = 0)"
      using up less.prems assms(1) by (intro less.hyps) auto
    then show ?thesis using step up by (cases "dn i") (simp_all add: up_from_def)
  next
    case down
    have "\<exists>i' j'. window_loop f (scaled e (i + 1 - 2 * h, i + 1)) = Some (Inr (res i' j'))
        \<and> i' < j' \<and> j' \<le> N \<and> (t < j' \<or> j' = N) \<and> (dn i' \<longrightarrow> i' = 0)"
      using down dn [OF down(1)] less.prems assms(1) by (intro less.hyps) auto
    then show ?thesis using step down by (simp add: down_from_def)
  next
    case stop
    then show ?thesis using step less.prems by (intro exI [of _ i] exI [of _ j]) auto
  qed
qed

lemma offsets_scaled:
  assumes "i < j" "j \<le> N"
  shows "\<not> (j * (n + 12) - i * (n + 12) < n + 12 \<or> N * (n + 12) \<le> i * (n + 12 :: nat))"
    and "i * (n + 12) \<noteq> 0 \<longleftrightarrow> i \<noteq> 0" "j * (n + 12) \<noteq> N * (n + 12) \<longleftrightarrow> j \<noteq> N"
    and "j * (n + 12) = N * (n + 12) \<longleftrightarrow> j = N" "i * (n + 12) = 0 \<longleftrightarrow> i = 0"
proof -
  have "1 * (n + 12) \<le> (j - i) * (n + 12)" using assms(1) by (intro mult_le_mono1) simp
  moreover have "i * (n + 12) < N * (n + 12)" using assms by (intro mult_less_mono1) simp_all
  ultimately show "\<not> (j * (n + 12) - i * (n + 12) < n + 12 \<or> N * (n + 12) \<le> i * (n + 12))" by (simp only: diff_mult_distrib) simp
qed (use assms in \<open>simp_all only: mult_cancel2 mult_is_0, simp_all\<close>)

text \<open>What a round sees of the window it reads.\<close>

lemma window_facts:
  assumes "fixed_section n bl es" "sm_wf es" "reads_as r bl" "placed es k lo up" "i < j" "j \<le> length es"
    and ab: "a = min (j - i) (lo - i)" "b = min (j - i) (up - i)"
  obtains buf ins where "rr_read r (i * (n + 12)) (j * (n + 12)) = Inr buf"
    "fixed_section n buf (blob_window es i j)"
    "slice_r buf 0 n = Inr (fst (es ! i))"
    "slice_r buf (length buf - (n + 12)) (length buf - (n + 12) + n) = Inr (fst (es ! (j - 1)))"
    "length buf div (n + 12) = j - i" "length buf div (n + 12) \<noteq> 0"
    "k < fst (es ! i) \<longleftrightarrow> up \<le> i" "fst (es ! (j - 1)) < k \<longleftrightarrow> j \<le> lo"
    "binary_search buf k (n + 12) n = Inr (if a < b
       then (Some (a), ins, Some (snd (es ! (i + a)))) else (None, a, None))"
    "\<And>x. x < j - i \<Longrightarrow> fixed_entry_at n (n + 12) buf x = Inr (es ! (i + x))"
proof -
  obtain buf where rd: "rr_read r (i * (n + 12)) (j * (n + 12)) = Inr buf" and fx: "fixed_section n buf (blob_window es i j)"
    using window_read [OF assms(1,3,5,6)] by blast
  note ws = blob_window_simps [OF assms(5,6)]
  have ne: "blob_window es i j \<noteq> []" using ws(1) assms(5) by auto
  note se = section_ends [OF fx ne]
  obtain ins where bs: "binary_search buf k (n + 12) n = Inr (if a < b
       then (Some (a), ins, Some (snd (blob_window es i j ! a))) else (None, a, None))"
    using placed_search [OF fx sm_wf_window [OF assms(2)] placed_window [OF assms(4,6), of i, folded blob_window_def ab]] by blast
  have "a < b \<Longrightarrow> blob_window es i j ! a = es ! (i + a)"
    using ws(2) ab by simp
  then have bs: "binary_search buf k (n + 12) n = Inr (if a < b
       then (Some (a), ins, Some (snd (es ! (i + a)))) else (None, a, None))"
    using bs by (simp cong: if_cong)
  have ix: "fst (blob_window es i j ! 0) = fst (es ! i)" "fst (blob_window es i j ! (length (blob_window es i j) - 1)) = fst (es ! (j - 1))"
    using ws assms(5) by simp_all
  have cmp: "k < fst (es ! i) \<longleftrightarrow> up \<le> i" "fst (es ! (j - 1)) < k \<longleftrightarrow> j \<le> lo"
    using placedD(5) [OF assms(4), of i] placedD(4) [OF assms(4), of "j - 1"] assms(5,6) by auto
  have at: "fixed_entry_at n (n + 12) buf x = Inr (es ! (i + x))" if "x < j - i" for x
    using fixed_reads(2) [OF fx, of x] ws that by simp
  from that [OF rd fx _ _ _ _ cmp bs at] show thesis using se ix ws(1) by simp
qed

lemma lookup_round_eq:
  assumes "fixed_section n bl es" "sm_wf es" "reads_as r bl" "placed es k lo up" "i < j" "j \<le> length es"
  shows "uniform_lookup_round r k n (n + 12) h (length es * (n + 12)) (scaled (n + 12) (i, j)) = Inr
      (if up \<le> i \<and> i \<noteq> 0 then Continue (scaled (n + 12) (down_from h i))
       else if j \<le> lo \<and> j \<noteq> length es then Continue (scaled (n + 12) (up_from h (length es) j))
       else Return (if min (j - i) (lo - i) < min (j - i) (up - i) then Some (snd (es ! (i + min (j - i) (lo - i)))) else None))"
proof -
  obtain a b where ab: "a = min (j - i) (lo - i)" "b = min (j - i) (up - i)" by simp
  obtain buf ins where w: "rr_read r (i * (n + 12)) (j * (n + 12)) = Inr buf"
    "slice_r buf 0 n = Inr (fst (es ! i))"
    "slice_r buf (length buf - (n + 12)) (length buf - (n + 12) + n) = Inr (fst (es ! (j - 1)))"
    "length buf div (n + 12) \<noteq> 0"
    "k < fst (es ! i) \<longleftrightarrow> up \<le> i" "fst (es ! (j - 1)) < k \<longleftrightarrow> j \<le> lo"
    "binary_search buf k (n + 12) n = Inr (if a < b then (Some a, ins, Some (snd (es ! (i + a)))) else (None, a, None))"
    using window_facts [OF assms ab] by metis
  have e: "0 < n + 12" by simp
  show ?thesis
    unfolding ab [symmetric] uniform_lookup_round_def scaled_def [of _ "(i, j)"] fst_conv snd_conv prod.case Let_def
      if_not_P [OF offsets_scaled(1) [OF assms(5,6)]] offsets_scaled(2,3) [OF assms(5,6)] w(1) bindr_simps w(2,3,5,6,7)
      move_scaled [OF e assms(5,6)] if_not_P [OF w(4)]
    by (cases "a < b") (simp_all only: if_True if_False bindr_simps prod.case if_distrib [of Inr])
qed

lemma lookup_loop_eq:
  assumes "fixed_section n b es" "sm_wf es" "reads_as r b" "0 < h" "est < length es * (n + 12)"
  shows "window_loop (uniform_lookup_round r k n (n + 12) h (length es * (n + 12)))
      (lookup_window h est (n + 12) (length es * (n + 12))) = Some (Inr (map_of es k))"
proof -
  obtain lo up where p: "placed es k lo up" using placed_exists [OF assms(2)] .
  obtain i j where w: "lookup_window h est (n + 12) (length es * (n + 12)) = scaled (n + 12) (i, j)" "i < j" "j \<le> length es"
    using first_window [OF _ assms(4,5)] by auto
  let ?res = "\<lambda>i j. if min (j - i) (lo - i) < min (j - i) (up - i) then Some (snd (es ! (i + min (j - i) (lo - i)))) else None"
  have "up \<le> i \<Longrightarrow> lo \<le> i" for i using placedD(1) [OF p] by simp
  from window_loop_ends [where dn = "\<lambda>i. up \<le> i" and t = lo and res = ?res, OF assms(4) this lookup_round_eq [OF assms(1-3) p] w(2,3)]
  obtain i' j' where r: "window_loop (uniform_lookup_round r k n (n + 12) h (length es * (n + 12))) (scaled (n + 12) (i, j)) = Some (Inr (?res i' j'))"
      "i' < j'" "j' \<le> length es" "lo < j' \<or> j' = length es" "up \<le> i' \<longrightarrow> i' = 0" by blast
  have "?res i' j' = map_of es k"
  proof (cases "lo < up")
    case True
    then have "i' \<le> lo" "lo < j'" using r(4,5) placedD(2,3) [OF p] by auto
    then have "min (j' - i') (lo - i') = lo - i'" "lo - i' < min (j' - i') (up - i')" "i' + (lo - i') = lo"
      using True by (simp_all add: diff_less_mono)
    then show ?thesis using True placed_lookup [OF assms(2) p] by simp
  next
    case False
    then show ?thesis using placedD(1) [OF p] placed_lookup [OF assms(2) p] by simp
  qed
  then show ?thesis using r(1) w(1) by simp
qed

section \<open>The first guess\<close>

lemma starting_u64_u32: "unat (starting_u64 k) div 2 ^ 32 = unat (starting_u32 k)"
proof -
  have "take 4 (zero_padded 8 k) = zero_padded 4 k" by (auto simp: zero_padded_def min_def)
  then have "zero_padded 8 k = zero_padded 4 k @ drop 4 (zero_padded 8 k)" by (metis append_take_drop_id)
  then obtain ys where ys: "zero_padded 8 k = zero_padded 4 k @ ys" "length ys = 4" by simp
  have "be_decode ys < 2 ^ 32" using be_decode_lt [of ys] ys(2) by simp
  then show ?thesis using ys(2) by (simp add: unat_starting_u64 unat_starting_u32 ys(1) be_decode_append)
qed

lemma long_prefix:
  assumes "unat lo \<le> unat p" "unat p < unat hi" "unat hi \<le> 2 ^ 32" "unat q div 2 ^ 32 = unat (p :: u32)"
  shows "saturating_mul_u64 lo (push_bit 32 1) \<le> q" "q \<le> saturating_mul_u64 hi (push_bit 32 1)"
    and "saturating_sub_u64 (saturating_mul_u64 hi (push_bit 32 1)) (saturating_mul_u64 lo (push_bit 32 1)) \<noteq> 0"
proof -
  have u: "unat (push_bit 32 1 :: u64) = 2 ^ 32" by (simp add: push_bit_eq_mult)
  have q: "unat q < (unat p + 1) * 2 ^ 32" "unat p * 2 ^ 32 \<le> unat q"
    using div_block [of "2 ^ 32" "unat q" "unat p"] assms(4) by simp_all
  have lo: "unat (saturating_mul_u64 lo (push_bit 32 1)) = unat lo * 2 ^ 32"
    using assms(1-3) by (simp add: saturating_mul_u64_def u unat_word_ariths)
  have hi: "unat (saturating_mul_u64 hi (push_bit 32 1)) = (if unat hi * 2 ^ 32 < 2 ^ 64 then unat hi * 2 ^ 32 else 2 ^ 64 - 1)"
    by (simp add: saturating_mul_u64_def u unat_word_ariths)
  show l: "saturating_mul_u64 lo (push_bit 32 1) \<le> q" using lo q(2) assms(1) by (simp add: word_le_nat_alt)
  have "unat q \<le> 2 ^ 64 - 1" using unat_lt [of q] by simp
  then show h: "q \<le> saturating_mul_u64 hi (push_bit 32 1)" using hi q(1) assms(2) by (simp add: word_le_nat_alt)
  have "unat (saturating_mul_u64 lo (push_bit 32 1)) < unat (saturating_mul_u64 hi (push_bit 32 1))"
    using lo hi assms(1-3) by (simp split: if_split)
  then show "saturating_sub_u64 (saturating_mul_u64 hi (push_bit 32 1)) (saturating_mul_u64 lo (push_bit 32 1)) \<noteq> 0"
    by (auto simp: saturating_sub_u64_def word_le_nat_alt)
qed

lemma probable_in_cell:
  assumes "ks_ok ks" "cell_id_of ks k = Inr c" "window_size self = Inr w"
  shows "\<exists>range est. index_prefix_range ks c = Inr range \<and> est \<le> file_length - 1
    \<and> probable_key_offset_and_window_size self ks range k file_length = Inr (est, w div 2)"
proof -
  obtain lo hi p where r: "index_prefix_range ks c = Inr (lo, hi)" "index_prefix_u32 ks k = Inr p"
      "unat lo \<le> unat p" "unat p < unat hi" "unat hi \<le> 2 ^ 32"
    using prefix_in_cell [OF assms(1,2)] by blast
  then obtain x where x: "index_prefix (ks_type ks) k = Inr x" "p = starting_u32 x"
    by (cases "index_prefix (ks_type ks) k") (simp_all add: index_prefix_u32_def)
  note lp = long_prefix [OF r(3-5), of "starting_u64 x", unfolded x(2), OF starting_u64_u32]
  have len: "(PREFIX_LENGTH - CELL_PREFIX_LENGTH) * 8 = 32" "CELL_PREFIX_LENGTH \<le> PREFIX_LENGTH" "PREFIX_LENGTH \<le> 8"
    by (simp_all add: PREFIX_LENGTH_def CELL_PREFIX_LENGTH_def)
  have "\<exists>est. probable_key_offset_and_window_size self ks (lo, hi) k file_length = Inr (min est (file_length - 1), w div 2)"
    unfolding probable_key_offset_and_window_size_def Let_def len(1) using lp len(2,3) x assms(3)
    by (simp add: index_prefix_u64_def not_less [symmetric]) (auto simp: not_less)
  then show ?thesis using r(1) by (metis min.cobounded2)
qed

section \<open>Point reads\<close>

lemma empty_window: "lookup_window h 0 e 0 = (0, 0)"
  by (simp add: lookup_window_def)

lemma reads_as_len: "reads_as r b \<Longrightarrow> rr_len r = length b"
  by (simp add: reads_as_def)

lemma uniform_lookup_view:
  assumes "ks_ok ks" "index_key_size ks = Some n" "fixed_section n b es" "sm_wf es" "reads_as r b"
    and "key_ok ks c k" "window_size self = Inr w" "2 \<le> w"
  shows "uniform_lookup_unloaded self ks r k = Some (Inr (map_of es k))"
proof -
  let ?N = "length es" and ?e = "n + 12"
  have len: "rr_len r = ?N * ?e" using reads_as_len [OF assms(5)] fixed_section_length [OF assms(3)] by simp
  have k: "cell_id_of ks k = Inr c" "length k = n" using assms(2,6) by (simp_all add: key_ok_def)
  obtain range est where g: "index_prefix_range ks c = Inr range" "est \<le> ?N * ?e - 1"
      "probable_key_offset_and_window_size self ks range k (?N * ?e) = Inr (est, w div 2)"
    using probable_in_cell [OF assms(1) k(1) assms(7), of "?N * ?e"] by blast
  have "uniform_lookup_unloaded self ks r k = window_loop (uniform_lookup_round r k n ?e (w div 2) (?N * ?e)) (lookup_window (w div 2) est ?e (?N * ?e))"
    using assms(2) k g len by (simp add: uniform_lookup_unloaded_def require_index_element_size_def require_index_key_size_def index_element_size_def)
  also have "\<dots> = Some (Inr (map_of es k))"
  proof (cases "es = []")
    case True
    then show ?thesis using g(2) by (simp add: empty_window window_loop.simps [of _ "(0, 0)"] uniform_lookup_round_def)
  next
    case False
    then have "0 < ?N * ?e" by simp
    then have "est < ?N * ?e" using g(2) by linarith
    then show ?thesis using assms(8) by (intro lookup_loop_eq [OF assms(3-5)]) simp_all
  qed
  finally show ?thesis .
qed

section \<open>Scan rounds\<close>

definition win_buf :: "(bytes \<times> wal_position) list \<Rightarrow> nat \<Rightarrow> nat \<Rightarrow> bytes" where
  "win_buf es i j = concat (map fixed_elem (blob_window es i j))"

text \<open>The index of the next entry, and what a scan returns when the window holds it.\<close>

definition target :: "direction \<Rightarrow> nat \<Rightarrow> nat \<Rightarrow> nat" where
  "target d lo up = (case d of Forward \<Rightarrow> up | Backward \<Rightarrow> lo)"

definition scan_result :: "nat \<Rightarrow> (bytes \<times> wal_position) list \<Rightarrow> wal_position \<Rightarrow> index_iter_cache option \<Rightarrow> direction \<Rightarrow> nat \<Rightarrow> nat \<Rightarrow> nat
    \<Rightarrow> (bytes \<times> wal_position) option \<times> index_iter_cache option" where
  "scan_result n es position cache d t i j =
     (case (case d of Forward \<Rightarrow> if t < length es then Some t else None | Backward \<Rightarrow> if t = 0 then None else Some (t - 1)) of
        None \<Rightarrow> (None, cache)
      | Some x \<Rightarrow> (Some (es ! x), Some (UniformLookupCache position (i * (n + 12)) (j * (n + 12)) (win_buf es i j) (x - i))))"

lemma scan_result_next:
  assumes "sm_wf es" "placed es k lo up"
  shows "fst (scan_result n es position cache d (target d lo up) i j) = next_of d (Some k) es"
  using placed_next [OF assms] by (cases d) (simp_all add: scan_result_def target_def)

lemma next_round_eq:
  assumes "fixed_section n bl es" "sm_wf es" "reads_as r bl" "placed es k lo up" "i < j" "j \<le> length es"
  shows "uniform_next_round r k d position cache n (n + 12) h (length es * (n + 12)) (scaled (n + 12) (i, j)) = Inr
      (if target d lo up \<le> i \<and> i \<noteq> 0 then Continue (scaled (n + 12) (down_from h i))
       else if j \<le> target d lo up \<and> j \<noteq> length es then Continue (scaled (n + 12) (up_from h (length es) j))
       else Return (scan_result n es position cache d (target d lo up) i j))"
proof -
  obtain a b where ab: "a = min (j - i) (lo - i)" "b = min (j - i) (up - i)" by simp
  obtain buf ins where w: "rr_read r (i * (n + 12)) (j * (n + 12)) = Inr buf"
    "slice_r buf 0 n = Inr (fst (es ! i))"
    "slice_r buf (length buf - (n + 12)) (length buf - (n + 12) + n) = Inr (fst (es ! (j - 1)))"
    "length buf div (n + 12) \<noteq> 0" "length buf div (n + 12) = j - i"
    "k < fst (es ! i) \<longleftrightarrow> up \<le> i" "fst (es ! (j - 1)) < k \<longleftrightarrow> j \<le> lo"
    "binary_search buf k (n + 12) n = Inr (if a < b then (Some a, ins, Some (snd (es ! (i + a)))) else (None, a, None))"
    and at: "\<And>x. x < j - i \<Longrightarrow> fixed_entry_at n (n + 12) buf x = Inr (es ! (i + x))"
    and fx: "fixed_section n buf (blob_window es i j)"
    using window_facts [OF assms ab] by metis
  have e: "0 < n + 12" and m: "j - i \<noteq> 0" using assms(5) by simp_all
  have buf: "buf = win_buf es i j" using fx by (simp add: fixed_section_def win_buf_def)
  note p = placedD(1-3) [OF assms(4)]
  let ?res = "scan_result n es position cache d (target d lo up) i j"
  let ?down = "Continue (scaled (n + 12) (down_from h i))" and ?up = "Continue (scaled (n + 12) (up_from h (length es) j))"
  have pos: "(case fst (if a < b then (Some a, ins, Some (snd (es ! (i + a)))) else (None, a, None)) of Some pos \<Rightarrow> pos + 1
      | None \<Rightarrow> fst (snd (if a < b then (Some a, ins, Some (snd (es ! (i + a)))) else (None, a, None)))) = b"
    "(case fst (if a < b then (Some a, ins, Some (snd (es ! (i + a)))) else (None, a, None)) of Some pos \<Rightarrow> pos
      | None \<Rightarrow> fst (snd (if a < b then (Some a, ins, Some (snd (es ! (i + a)))) else (None, a, None)))) = a"
    using p(1,2) by (auto simp: ab)
  have raw: "uniform_next_round r k d position cache n (n + 12) h (length es * (n + 12)) (scaled (n + 12) (i, j)) =
      (let at = (\<lambda>x. if j - i \<le> x then Inr (if j = length es then Return (None, cache) else ?up)
             else bindr (fixed_entry_at n (n + 12) buf x) (\<lambda>e.
               Inr (Return (Some e, Some (UniformLookupCache position (i * (n + 12)) (j * (n + 12)) buf x)))))
       in if up \<le> i \<and> i \<noteq> 0 then Inr ?down
          else if j \<le> lo \<and> j \<noteq> length es then Inr ?up
          else case d of Forward \<Rightarrow> at b
            | Backward \<Rightarrow> if a = 0 then Inr (if i = 0 then Return (None, cache) else ?down) else at (a - 1))"
    unfolding uniform_next_round_def scaled_def [of _ "(i, j)"] fst_conv snd_conv prod.case Let_def
      if_not_P [OF offsets_scaled(1) [OF assms(5,6)]] offsets_scaled(2-5) [OF assms(5,6)] w(1) bindr_simps w(2,3,6,7,8)
      move_scaled [OF e assms(5,6)] w(5) if_not_P [OF m] case_prod_beta pos
    by (rule refl)
  show ?thesis
  proof (cases d)
    case Forward
    consider "up \<le> i" "i \<noteq> 0" | "\<not> (up \<le> i \<and> i \<noteq> 0)" "j \<le> up" "j \<noteq> length es"
      | "\<not> (up \<le> i \<and> i \<noteq> 0)" "j \<le> up" "j = length es" | "\<not> (up \<le> i \<and> i \<noteq> 0)" "up < j" by linarith
    then show ?thesis
    proof cases
      case 4
      then have x: "b = up - i" "b < j - i" "i + b = up" "up < length es" "lo < j" using assms(5,6) p by (auto simp: ab)
      have "scan_result n es position cache Forward up i j =
          (Some (es ! up), Some (UniformLookupCache position (i * (n + 12)) (j * (n + 12)) buf b))"
        using x buf by (simp add: scan_result_def)
      then show ?thesis using 4 x at [OF x(2)] Forward unfolding raw Let_def by (auto simp: target_def)
    qed (use assms(5) p Forward in \<open>unfold raw Let_def, auto simp: target_def scan_result_def ab\<close>)
  next
    case Backward
    consider "lo \<le> i" "i \<noteq> 0" | "lo \<le> i" "i = 0" | "i < lo" "j \<le> lo" "j \<noteq> length es"
      | "i < lo" "lo < j \<or> j = length es" by linarith
    then show ?thesis
    proof cases
      case 4
      then have x: "a = lo - i" "a - 1 < j - i" "a \<noteq> 0" "i + (a - 1) = lo - 1" "i < up" using assms(5,6) p by (auto simp: ab)
      have "scan_result n es position cache Backward lo i j =
          (Some (es ! (lo - 1)), Some (UniformLookupCache position (i * (n + 12)) (j * (n + 12)) buf (a - 1)))"
        using 4 x buf by (simp add: scan_result_def)
      then show ?thesis using 4 x at [OF x(2)] Backward unfolding raw Let_def by (auto simp: target_def)
    qed (use assms(5) p Backward in \<open>unfold raw Let_def, auto simp: target_def scan_result_def ab\<close>)
  qed
qed

section \<open>The cached window\<close>

text \<open>A cache of an earlier call on the same blob: a window of whole entries and the index of one of them.\<close>

definition uniform_cache_ok :: "usize \<Rightarrow> bytes \<Rightarrow> wal_position \<Rightarrow> index_iter_cache option \<Rightarrow> bool" where
  "uniform_cache_ok e b position cache = (case cache of
     Some (UniformLookupCache p f t buf x) \<Rightarrow> p = position \<longrightarrow>
       f < t \<and> t \<le> length b \<and> e dvd f \<and> e dvd t \<and> buf = take (t - f) (drop f b) \<and> x < (t - f) div e
   | _ \<Rightarrow> True)"

lemma win_buf_slice:
  assumes "fixed_section n b es"
  shows "win_buf es i j = take (j * (n + 12) - i * (n + 12)) (drop (i * (n + 12)) b)"
proof -
  have "take ((j - i) * (n + 12)) (drop (i * (n + 12)) b) = concat (take (j - i) (drop i (map fixed_elem es)))"
    using slice_concat_fixed [OF fixed_section_elems [OF assms]] assms by (simp add: fixed_section_def)
  then show ?thesis by (simp add: win_buf_def blob_window_def take_map drop_map flip: diff_mult_distrib)
qed

lemma win_buf_section:
  assumes "fixed_section n b es"
  shows "fixed_section n (win_buf es i j) (blob_window es i j)"
  using assms by (auto simp: fixed_section_def win_buf_def blob_window_def list_all_iff dest!: in_set_takeD in_set_dropD)

lemma cached_window:
  assumes "fixed_section n b es" "uniform_cache_ok (n + 12) b position (Some (UniformLookupCache position f t buf x))"
  obtains i j where "f = i * (n + 12)" "t = j * (n + 12)" "i < j" "j \<le> length es" "buf = win_buf es i j" "x < j - i"
proof -
  let ?e = "n + 12"
  have c: "f < t" "t \<le> length b" "?e dvd f" "?e dvd t" "buf = take (t - f) (drop f b)" "x < (t - f) div ?e"
    using assms(2) by (simp_all add: uniform_cache_ok_def)
  obtain i j where ij: "f = i * ?e" "t = j * ?e" using c(3,4) by (metis dvd_def mult.commute)
  have "i < j" "j \<le> length es" using c(1,2) fixed_section_length [OF assms(1)] unfolding ij by simp_all
  moreover have "x < j - i" using c(6) unfolding ij diff_mult_distrib [symmetric] by simp
  moreover have "buf = win_buf es i j" using win_buf_slice [OF assms(1)] c(5) ij by simp
  ultimately show thesis using that ij by blast
qed

lemma window_cached:
  assumes "fixed_section n b es" "i < j" "j \<le> length es" "x < j - i"
  shows "uniform_cache_ok (n + 12) b position (Some (UniformLookupCache p (i * (n + 12)) (j * (n + 12)) (win_buf es i j) x))"
proof -
  have "i * (n + 12) < j * (n + 12)" "j * (n + 12) \<le> length b"
    using assms fixed_section_length [OF assms(1)] by (simp_all del: add_mult_distrib2)
  moreover have "x < (j * (n + 12) - i * (n + 12)) div (n + 12)" using assms(4) by (simp flip: diff_mult_distrib)
  ultimately show ?thesis using win_buf_slice [OF assms(1), of i j] by (simp add: uniform_cache_ok_def)
qed

definition outcome_ok :: "(bytes \<times> wal_position) list \<Rightarrow> nat \<Rightarrow> nat \<Rightarrow> (bytes \<times> wal_position) option \<Rightarrow> cache_outcome \<Rightarrow> bool" where
  "outcome_ok es i j e out = (case out of
     EndOfFile \<Rightarrow> e = None | NextAt p \<Rightarrow> p < j - i \<and> e = Some (es ! (i + p)) | FallThrough \<Rightarrow> True)"

text \<open>What the cached window decides about the place it computed.\<close>

lemma forward_outcome:
  assumes "sm_wf es" "placed es k lo up" "i < j" "j \<le> length es" "i < up \<or> i = 0"
    and "p = min (j - i) (up - i)"
  shows "outcome_ok es i j (next_of Forward (Some k) es)
    (if p < j - i then NextAt p else if j = length es then EndOfFile else FallThrough)"
proof (cases "up < j")
  case True
  then have "p = up - i" "p < j - i" "i + p = up" using assms(3,5,6) by auto
  then show ?thesis using placed_next(1) [OF assms(1,2)] True assms(4) by (simp add: outcome_ok_def)
next
  case False
  then have "\<not> p < j - i" using assms(6) by simp
  then show ?thesis using placed_next(1) [OF assms(1,2)] False by (simp add: outcome_ok_def)
qed

lemma backward_outcome:
  assumes "sm_wf es" "placed es k lo up" "i < j" "j \<le> length es" "lo < j \<or> j = length es"
    and "p = min (j - i) (lo - i)"
  shows "outcome_ok es i j (next_of Backward (Some k) es)
    (if p = 0 then if i = 0 then EndOfFile else FallThrough else NextAt (p - 1))"
proof (cases "lo \<le> i")
  case True
  then show ?thesis using placed_next(2) [OF assms(1,2)] assms(6) by (simp add: outcome_ok_def)
next
  case False
  have "lo \<le> length es" using placedD(1,3) [OF assms(2)] by simp
  then have "p = lo - i" "p \<noteq> 0" "p - 1 < j - i" "i + (p - 1) = lo - 1" "lo \<noteq> 0" using False assms(3,5,6) by auto
  then show ?thesis using placed_next(2) [OF assms(1,2)] by (simp add: outcome_ok_def)
qed

lemma placed_at:
  assumes "placed es k lo up" "x < length es" "fst (es ! x) = k"
  shows "lo = x" "up = x + 1"
proof -
  have "\<not> x < lo" "x < up" using placedD(4,5) [OF assms(1,2)] assms(3) by simp_all
  then show "lo = x" "up = x + 1" using placedD(1,2) [OF assms(1)] by simp_all
qed

lemma cached_next_ok:
  assumes "fixed_section n b es" "sm_wf es" "i < j" "j \<le> length es" "x < j - i"
  shows "\<exists>out. cached_next k n (n + 12) (length es * (n + 12)) d (i * (n + 12)) (j * (n + 12)) (win_buf es i j) x = Inr out
    \<and> outcome_ok es i j (next_of d (Some k) es) out"
proof -
  let ?e = "n + 12" and ?buf = "win_buf es i j"
  obtain lo up where p: "placed es k lo up" using placed_exists [OF assms(2)] .
  note fx = win_buf_section [OF assms(1), of i j] and ws = blob_window_simps [OF assms(3,4)]
  have ne: "blob_window es i j \<noteq> []" using ws(1) assms(3) by auto
  note se = section_ends [OF fx ne]
  have ix: "fst (blob_window es i j ! 0) = fst (es ! i)" "fst (blob_window es i j ! (length (blob_window es i j) - 1)) = fst (es ! (j - 1))"
    "length (blob_window es i j) = j - i" "blob_window es i j ! x = es ! (i + x)"
    using ws assms(3,5) by simp_all
  have ends: "length ?buf div ?e = j - i" "slice_r ?buf 0 n = Inr (fst (es ! i))"
    "slice_r ?buf (length ?buf - ?e) (length ?buf - ?e + n) = Inr (fst (es ! (j - 1)))"
    using se(1-3) unfolding ix by (simp_all only: ix(2) [unfolded ix(3)])
  have cmp: "fst (es ! i) \<le> k \<longleftrightarrow> i < up" "k \<le> fst (es ! (j - 1)) \<longleftrightarrow> lo < j"
    using placedD(5) [OF p, of i] placedD(4) [OF p, of "j - 1"] assms(3,4) by (auto simp flip: not_less)
  obtain a b where ab: "a = min (j - i) (lo - i)" "b = min (j - i) (up - i)" by simp
  obtain ins v where bs: "binary_search ?buf k ?e n = Inr (if a < b then (Some a, ins, Some v) else (None, a, None))"
    using placed_search [OF fx sm_wf_window [OF assms(2)] placed_window [OF p assms(4), of i, folded blob_window_def ab]] by blast
  have key: "fixed_key_at n ?e ?buf x = Inr (fst (es ! (i + x)))" using fixed_reads(1) [OF fx, of x] ix(3,4) assms(5) by simp
  let ?fw = "\<lambda>p. if p < j - i then NextAt p else if j = length es then EndOfFile else FallThrough"
  let ?bw = "\<lambda>p. if p = 0 then if i = 0 then EndOfFile else FallThrough else NextAt (p - 1)"
  have raw: "cached_next k n ?e (length es * ?e) d (i * ?e) (j * ?e) ?buf x =
      (if (i < up \<or> i = 0) \<and> (lo < j \<or> j = length es)
       then Inr (if fst (es ! (i + x)) = k then (case d of Forward \<Rightarrow> ?fw (x + 1) | Backward \<Rightarrow> ?bw x)
                 else (case d of Forward \<Rightarrow> ?fw b | Backward \<Rightarrow> ?bw a))
       else Inr FallThrough)"
  proof -
    have "(if a < b then a + 1 else a) = b" using placedD(1,2) [OF p] by (auto simp: ab)
    then show ?thesis
      unfolding cached_next_def Let_def ends bindr_simps cmp offsets_scaled(4,5) [OF assms(3,4)] key bs
      using assms(3) by (cases "a < b"; cases d) (simp_all cong: if_cong)
  qed
  show ?thesis
  proof (cases "(i < up \<or> i = 0) \<and> (lo < j \<or> j = length es)")
    case True
    have out: "outcome_ok es i j (next_of d (Some k) es) (case d of Forward \<Rightarrow> ?fw b | Backward \<Rightarrow> ?bw a)"
      using forward_outcome [OF assms(2) p assms(3,4) _ ab(2)] backward_outcome [OF assms(2) p assms(3,4) _ ab(1)] True
      by (cases d) simp_all
    have "b = x + 1" "a = x" if "fst (es ! (i + x)) = k"
      using placed_at [OF p _ that] assms(3,4,5) by (auto simp: ab)
    then have "(if fst (es ! (i + x)) = k then (case d of Forward \<Rightarrow> ?fw (x + 1) | Backward \<Rightarrow> ?bw x)
        else (case d of Forward \<Rightarrow> ?fw b | Backward \<Rightarrow> ?bw a)) = (case d of Forward \<Rightarrow> ?fw b | Backward \<Rightarrow> ?bw a)"
      by (cases "fst (es ! (i + x)) = k") (simp_all only: if_True if_False simp_thms)
    then show ?thesis using raw out unfolding if_P [OF True] by (simp only: sum.inject) blast
  next
    case False
    have "outcome_ok es i j (next_of d (Some k) es) FallThrough" by (simp add: outcome_ok_def)
    then show ?thesis using raw unfolding if_not_P [OF False] by blast
  qed
qed

section \<open>Scans of a blob\<close>

lemma next_of_first:
  assumes "sm_wf es" "es \<noteq> []"
  shows "next_of Forward None es = Some (es ! 0)" "next_of Backward None es = Some (es ! (length es - 1))"
  using assms(2) by (simp_all add: next_of_index [OF assms(1)] next_index_def)

lemma no_prev_view:
  assumes "index_key_size ks = Some n" "fixed_section n b es" "sm_wf es" "reads_as r b" "window_size self = Inr w" "0 < w"
  shows "next_entry_unloaded_no_prev self ks r d = Inr (next_of d None es)"
proof (cases "es = []")
  case True
  then have "rr_len r = 0" using reads_as_len [OF assms(4)] fixed_section_length [OF assms(2)] by simp
  moreover have "next_of d None es = None" using True by (cases d) (simp_all add: next_of_def sm_after_def sm_before_def)
  ultimately show ?thesis
    using assms(1,5) by (cases d) (simp_all add: next_entry_unloaded_no_prev_def require_index_element_size_def require_index_key_size_def index_element_size_def)
next
  case False
  let ?N = "length es" and ?e = "n + 12"
  obtain i j where ij: "(i, j) = (case d of Forward \<Rightarrow> (0, min w ?N) | Backward \<Rightarrow> (?N - w, ?N))"
    by (cases d) simp_all
  have b: "i < j" "j \<le> ?N" using ij False assms(6) by (cases d; simp)+
  have fx: "fixed_section n (win_buf es i j) (blob_window es i j)" by (rule win_buf_section [OF assms(2)])
  have len: "rr_len r = ?N * ?e" using reads_as_len [OF assms(4)] fixed_section_length [OF assms(2)] by simp
  have off: "(case d of Forward \<Rightarrow> (0, min (w * ?e) (?N * ?e)) | Backward \<Rightarrow> (?N * ?e - w * ?e, ?N * ?e)) = (i * ?e, j * ?e)"
    using ij by (cases d) (simp_all add: nat_mult_min_left diff_mult_distrib)
  have cond: "\<not> (j * ?e \<le> i * ?e \<or> ?N * ?e \<le> i * ?e)" using b by (simp del: add_mult_distrib2)
  have rd: "rr_read r (i * ?e) (j * ?e) = Inr (win_buf es i j)"
    using window_read [OF assms(2,4) b] by (auto simp: fixed_section_def win_buf_def)
  have m: "length (win_buf es i j) = (j - i) * ?e" using fixed_section_length [OF fx] blob_window_simps(1) [OF b] by simp
  have "1 * ?e \<le> (j - i) * ?e" using b by (intro mult_le_mono1) simp
  then have ne: "\<not> (win_buf es i j = [] \<or> length (win_buf es i j) < ?e)" "length (win_buf es i j) div ?e = j - i" "j - i \<noteq> 0"
    using m b by auto
  have at: "fixed_entry_at n ?e (win_buf es i j) (first_in_range d 0 (j - i)) = Inr (es ! (i + first_in_range d 0 (j - i)))"
    using fixed_reads(2) [OF fx, of "first_in_range d 0 (j - i)"] blob_window_simps [OF b] b by (cases d) (simp_all add: first_in_range_def)
  have "es ! (i + first_in_range d 0 (j - i)) = (case d of Forward \<Rightarrow> es ! 0 | Backward \<Rightarrow> es ! (?N - 1))"
    using ij b by (cases d) (simp_all add: first_in_range_def)
  then have "next_of d None es = Some (es ! (i + first_in_range d 0 (j - i)))"
    using next_of_first [OF assms(3) False] by (cases d) simp_all
  then show ?thesis
    using assms(1,5) at unfolding next_entry_unloaded_no_prev_def
    by (simp only: require_index_element_size_def require_index_key_size_def index_element_size_def option.case option.map
        bindr_simps Let_def len off prod.case if_not_P [OF cond] rd if_not_P [OF ne(1)] ne(2) if_not_P [OF ne(3)])
qed

lemma next_loop_eq:
  assumes "fixed_section n b es" "sm_wf es" "reads_as r b" "0 < h" "est < length es * (n + 12)"
    and "uniform_cache_ok (n + 12) b position cache"
  shows "\<exists>cache'. window_loop (uniform_next_round r k d position cache n (n + 12) h (length es * (n + 12)))
      (lookup_window h est (n + 12) (length es * (n + 12))) = Some (Inr (next_of d (Some k) es, cache'))
    \<and> uniform_cache_ok (n + 12) b position cache'"
proof -
  obtain lo up where p: "placed es k lo up" using placed_exists [OF assms(2)] .
  obtain i j where w: "lookup_window h est (n + 12) (length es * (n + 12)) = scaled (n + 12) (i, j)" "i < j" "j \<le> length es"
    using first_window [OF _ assms(4,5)] by auto
  let ?t = "target d lo up"
  from window_loop_ends [where dn = "\<lambda>i. ?t \<le> i" and t = ?t and res = "scan_result n es position cache d ?t",
      OF assms(4) _ next_round_eq [OF assms(1-3) p] w(2,3)]
  obtain i' j' where r: "window_loop (uniform_next_round r k d position cache n (n + 12) h (length es * (n + 12))) (scaled (n + 12) (i, j))
        = Some (Inr (scan_result n es position cache d ?t i' j'))"
      "i' < j'" "j' \<le> length es" "?t < j' \<or> j' = length es" "?t \<le> i' \<longrightarrow> i' = 0" by blast
  have "lo \<le> length es" using placedD(1,3) [OF p] by simp
  then have "uniform_cache_ok (n + 12) b position (snd (scan_result n es position cache d ?t i' j'))"
    using r(2-5) assms(6) window_cached [OF assms(1) r(2,3)]
    by (cases d) (auto simp: scan_result_def target_def)
  then show ?thesis using r(1) w(1) scan_result_next [OF assms(2) p, of n position cache d i' j']
    by (metis prod.collapse)
qed

lemma uniform_scan_view:
  assumes "ks_ok ks" "index_key_size ks = Some n" "fixed_section n b es" "sm_wf es" "reads_as r b"
    and "window_size self = Inr w" "2 \<le> w" "uniform_cache_ok (n + 12) b position cache"
    and "\<And>k. prev = Some k \<Longrightarrow> key_ok ks c k"
  shows "\<exists>cache'. uniform_next_entry_unloaded self ks r prev d position cache = Some (Inr (next_of d prev es, cache'))
    \<and> uniform_cache_ok (n + 12) b position cache'"
proof -
  let ?N = "length es" and ?e = "n + 12"
  define ca where "ca = (case cache of Some c \<Rightarrow> if cache_position c \<noteq> position then None else Some c | None \<Rightarrow> None)"
  have len: "rr_len r = ?N * ?e" using reads_as_len [OF assms(5)] fixed_section_length [OF assms(3)] by simp
  have caok: "uniform_cache_ok ?e b position ca" using assms(8) by (auto simp: ca_def uniform_cache_ok_def split: option.splits)
  show ?thesis
  proof (cases prev)
    case None
    have "uniform_cache_ok ?e b position None" by (simp add: uniform_cache_ok_def)
    then show ?thesis
      using None assms(2,7) no_prev_view [OF assms(2-6), of d]
      by (simp add: uniform_next_entry_unloaded_def require_index_element_size_def require_index_key_size_def index_element_size_def)
  next
    case (Some k)
    have k: "cell_id_of ks k = Inr c" "length k = n" using assms(2) assms(9) [OF Some] by (simp_all add: key_ok_def)
    obtain range est where g: "index_prefix_range ks c = Inr range" "est \<le> ?N * ?e - 1"
        "probable_key_offset_and_window_size self ks range k (?N * ?e) = Inr (est, w div 2)"
      using probable_in_cell [OF assms(1) k(1) assms(6), of "?N * ?e"] by blast
    have sizes: "require_index_element_size ks = Inr ?e" "require_index_key_size ks = Inr n"
      using assms(2) by (simp_all add: require_index_element_size_def require_index_key_size_def index_element_size_def)
    have guess: "bindr (cell_id_of ks k) (\<lambda>cell. bindr (index_prefix_range ks cell) (\<lambda>range.
        probable_key_offset_and_window_size self ks range k (?N * ?e))) = Inr (est, w div 2)" using k(1) g by simp
    let ?disk = "window_loop (uniform_next_round r k d position ca n ?e (w div 2) (?N * ?e)) (lookup_window (w div 2) est ?e (?N * ?e))"
    have raw: "uniform_next_entry_unloaded self ks r prev d position cache =
        (case ca of
           Some (UniformLookupCache cpos f t buf x) \<Rightarrow>
             (case cached_next k n ?e (?N * ?e) d f t buf x of
                Inl p \<Rightarrow> Some (Inl p)
              | Inr EndOfFile \<Rightarrow> Some (Inr (None, ca))
              | Inr (NextAt y) \<Rightarrow> Some (bindr (fixed_entry_at n ?e buf y) (\<lambda>e. Inr (Some e, Some (UniformLookupCache cpos f t buf y))))
              | Inr FallThrough \<Rightarrow> ?disk)
         | _ \<Rightarrow> ?disk)"
      unfolding uniform_next_entry_unloaded_def len Let_def ca_def [symmetric] Some sizes option.case bindr_simps sum.case prod.case guess
      using k(2) by (simp only: simp_thms if_False)
    have disk: "\<exists>cache'. ?disk = Some (Inr (next_of d (Some k) es, cache')) \<and> uniform_cache_ok ?e b position cache'"
    proof (cases "es = []")
      case True
      have "next_of d (Some k) es = None" using True by (cases d) (simp_all add: next_of_def sm_after_def sm_before_def)
      then show ?thesis using True g(2) caok by (simp add: empty_window window_loop.simps [of _ "(0, 0)"] uniform_next_round_def)
    next
      case False
      then have "0 < ?N * ?e" by simp
      then have "est < ?N * ?e" using g(2) by linarith
      then show ?thesis using assms(7) by (intro next_loop_eq [OF assms(3-5) _ _ caok]) simp_all
    qed
    show ?thesis
    proof (cases "\<exists>f t buf x. ca = Some (UniformLookupCache position f t buf x)")
      case False
      then have "uniform_next_entry_unloaded self ks r prev d position cache = ?disk"
        unfolding raw by (auto simp: ca_def split: option.splits index_iter_cache.splits if_splits)
      then show ?thesis using disk Some by simp
    next
      case True
      then obtain f t buf x where c: "ca = Some (UniformLookupCache position f t buf x)" by blast
      obtain i j where ij: "f = i * ?e" "t = j * ?e" "i < j" "j \<le> ?N" "buf = win_buf es i j" "x < j - i"
        using cached_window [OF assms(3)] caok c by metis
      obtain out where out: "cached_next k n ?e (?N * ?e) d f t buf x = Inr out" "outcome_ok es i j (next_of d (Some k) es) out"
        using cached_next_ok [OF assms(3,4) ij(3,4,6), of k d] ij(1,2,5) by auto
      show ?thesis
      proof (cases out)
        case (NextAt y)
        then have y: "y < j - i" "next_of d (Some k) es = Some (es ! (i + y))" using out(2) by (simp_all add: outcome_ok_def)
        have "fixed_entry_at n ?e buf y = Inr (es ! (i + y))"
          using fixed_reads(2) [OF win_buf_section [OF assms(3)], of y i j] blob_window_simps [OF ij(3,4)] y(1) ij(5) by simp
        then show ?thesis
          using raw c out(1) NextAt y Some window_cached [OF assms(3) ij(3,4) y(1)] ij(1,2,5) by simp
      next
        case EndOfFile
        then show ?thesis using raw c out Some caok by (simp add: outcome_ok_def)
      next
        case FallThrough
        then show ?thesis using raw c out disk Some by simp
      qed
    qed
  qed
qed

text \<open>With a window below two entries the half window is empty, and so is every window read.\<close>

lemma uniform_lookup_blind:
  assumes "ks_ok ks" "index_key_size ks = Some n" "key_ok ks c k" "window_size self = Inr w" "w < 2"
  shows "uniform_lookup_unloaded self ks r k = Some (Inr None)"
proof -
  have k: "cell_id_of ks k = Inr c" "length k = n" using assms(2,3) by (simp_all add: key_ok_def)
  obtain range est where g: "index_prefix_range ks c = Inr range" "est \<le> rr_len r - 1"
      "probable_key_offset_and_window_size self ks range k (rr_len r) = Inr (est, w div 2)"
    using probable_in_cell [OF assms(1) k(1) assms(4), of "rr_len r"] by blast
  have h: "w div 2 = 0" using assms(5) by simp
  have w: "\<exists>f t. lookup_window 0 est (n + 12) (rr_len r) = (f, t) \<and> t - f < n + 12"
    by (simp add: lookup_window_def Let_def)
  then show ?thesis
    using assms(2) k g h by (auto simp: uniform_lookup_unloaded_def require_index_element_size_def require_index_key_size_def
      index_element_size_def window_loop.simps uniform_lookup_round_def)
qed

section \<open>Stored indices\<close>

definition uniform_storable :: "key_space_desc \<Rightarrow> index_table \<Rightarrow> bool" where
  "uniform_storable ks t \<longleftrightarrow> ks_ok ks \<and> table_wf t \<and> storable ks t \<and> index_key_size ks \<noteq> None"

lemma uniform_blob:
  assumes "uniform_storable ks t" "index_key_size ks = Some n"
  shows "\<exists>b. uniform_serialize_index t ks = Inr b \<and> fixed_section n b (map observed (combined t))"
proof -
  have st: "table_wf t" "storable ks t" using assms(1) by (simp_all add: uniform_storable_def)
  have db: "disk_bytes ks = fixed_elem" using assms(2) by (simp add: disk_bytes_def fixed_elem_def fun_eq_iff)
  have "list_all (\<lambda>e. length (fst e) = n) (map observed (combined t))"
    using st(2) assms(2) by (simp add: storable_def list_all_iff key_fits_def observed_def)
  then show ?thesis
    using stored_entries [OF st, of "[]"] assms(2)
    by (simp add: uniform_serialize_index_def require_index_element_size_def index_element_size_def fixed_section_def db)
qed

section \<open>Properties\<close>

lemma demo_uniform_storable: "uniform_storable demo_uniform demo_cell_table"
  using demo_storable(1) by (simp add: header_storable_def uniform_storable_def demo_sizes)

text \<open>C33. Point reads of a uniform index end, with every window size, wherever the first guess falls:
  with windows of two entries or more they return what the table returns, tombstones included, and
  with smaller windows they find nothing.\<close>

theorem uniform_lookup_returns:
  assumes "uniform_storable ks t" "key_ok ks c k" "window_size self = Inr w"
  shows "\<exists>b. uniform_serialize_index t ks = Inr b
    \<and> (\<forall>r. reads_as r b \<longrightarrow> uniform_lookup_unloaded self ks r k = Some (if 2 \<le> w then index_get t k else Inr None))"
proof -
  obtain n where n: "index_key_size ks = Some n" using assms(1) by (auto simp: uniform_storable_def)
  have st: "ks_ok ks" "table_wf t" using assms(1) by (simp_all add: uniform_storable_def)
  obtain b where b: "uniform_serialize_index t ks = Inr b" "fixed_section n b (map observed (combined t))"
    using uniform_blob [OF assms(1) n] by blast
  have wf: "sm_wf (map observed (combined t))" using sm_wf_combined [OF st(2)] by simp
  have "index_get t k = Inr (map_of (map observed (combined t)) k)"
    unfolding map_of_observed index_get_wf [OF st(2)] live_map_of_combined [OF st(2)] by simp
  then show ?thesis
    using b(1) uniform_lookup_view [OF st(1) n b(2) wf _ assms(2,3)] uniform_lookup_blind [OF st(1) n assms(2,3)] by auto
qed

theorem uniform_lookup_returns_witness:
  "\<exists>b. uniform_serialize_index demo_cell_table demo_uniform = Inr b
     \<and> uniform_lookup_unloaded uniform_new demo_uniform (MemRead b) [3, 0, 0, 0, 0, 9] = Some (Inr (Some WAL_INVALID))
     \<and> uniform_lookup_unloaded (uniform_new_with_window_size 1) demo_uniform (MemRead b) [3, 0, 0, 0, 0, 9] = Some (Inr None)"
proof -
  have w: "window_size uniform_new = Inr 800" "window_size (uniform_new_with_window_size 1) = Inr 1"
    by (simp_all add: window_size_def uniform_new_def uniform_new_with_window_size_def NUM_WINDOW_SIZES_def DEFAULT_WINDOW_SIZE_def index_r_def)
  note k = demo_key_ok(1) [of "[3, 0, 0, 0, 0, 9]"]
  show ?thesis
    using uniform_lookup_returns [OF demo_uniform_storable k w(1)] uniform_lookup_returns [OF demo_uniform_storable k w(2)]
      reads_mem demo_gets(2) by auto
qed



end
