(* ===== verification/Index_Levels.thy ===== *)
theory Index_Levels
  imports Index_Format
begin

text \<open>
  The on-disk index blobs of a cell (\<open>tidehunter/src/index/levels.rs\<close>): an L0 slot, an L1 slot, and
  the shards an L1 too large for one blob is split into. A slot that holds no blob is
  \<open>WalPosition::INVALID\<close>. The checks the source makes with \<open>debug_assert!\<close> are the bool-valued
  \<open>debug_assert_shards\<close> and the validity conditions of \<open>levels_wf\<close>.
\<close>

record index_shard =
  shard_position :: wal_position
  max_key :: bytes

definition index_shard_new :: "wal_position \<Rightarrow> bytes \<Rightarrow> index_shard" where
  "index_shard_new position mk = \<lparr>shard_position = position, max_key = mk\<rparr>"

record index_levels =
  positions :: "wal_position list"
  shards :: "(bytes, index_shard) smap"

definition levels_new :: index_levels where
  "levels_new = \<lparr>positions = [], shards = []\<rparr>"

definition levels_single :: "wal_position \<Rightarrow> index_levels" where
  "levels_single position = \<lparr>positions = [position], shards = []\<rparr>"

definition levels_promoted :: "wal_position \<Rightarrow> index_levels" where
  "levels_promoted l1 = \<lparr>positions = [WAL_INVALID, l1], shards = []\<rparr>"

definition from_legacy_position :: "wal_position \<Rightarrow> index_levels" where
  "from_legacy_position position = (if is_valid position then levels_single position else levels_new)"

definition from_legacy_v2_positions :: "wal_position list \<Rightarrow> index_levels" where
  "from_legacy_v2_positions ps = \<lparr>positions = ps, shards = []\<rparr>"

definition levels_sharded :: "(bytes, index_shard) smap \<Rightarrow> index_levels" where
  "levels_sharded sh = \<lparr>positions = [WAL_INVALID, WAL_INVALID], shards = sh\<rparr>"

definition sharded_with_l0 :: "wal_position \<Rightarrow> (bytes, index_shard) smap \<Rightarrow> index_levels" where
  "sharded_with_l0 l0 sh = \<lparr>positions = [l0, WAL_INVALID], shards = sh\<rparr>"

fun check_shard_ranges :: "bytes option \<Rightarrow> (bytes, index_shard) smap \<Rightarrow> bool" where
  "check_shard_ranges prev_max [] = True"
| "check_shard_ranges prev_max ((min_key, shard) # sh) =
     (min_key \<le> max_key shard \<and> (case prev_max of None \<Rightarrow> True | Some prev \<Rightarrow> prev < min_key)
      \<and> check_shard_ranges (Some (max_key shard)) sh)"

definition debug_assert_shards :: "(bytes, index_shard) smap \<Rightarrow> bool" where
  "debug_assert_shards sh \<longleftrightarrow> sh \<noteq> [] \<and> list_all (\<lambda>e. is_valid (shard_position (snd e))) sh \<and> check_shard_ranges None sh"

section \<open>Reading the levels\<close>

definition levels_is_empty :: "index_levels \<Rightarrow> bool" where
  "levels_is_empty l \<longleftrightarrow> list_all (\<lambda>p. \<not> is_valid p) (positions l) \<and> shards l = []"

definition levels_iter :: "index_levels \<Rightarrow> wal_position list" where
  "levels_iter l = filter is_valid (positions l) @ map (shard_position \<circ> snd) (shards l)"

definition iter_with_level :: "index_levels \<Rightarrow> (usize \<times> wal_position) list" where
  "iter_with_level l = filter (\<lambda>(_, p). is_valid p) (enumerate 0 (positions l)) @ map (\<lambda>e. (1, shard_position (snd e))) (shards l)"

definition iter_below_l0 :: "index_levels \<Rightarrow> wal_position list" where
  "iter_below_l0 l = filter is_valid (drop 1 (positions l)) @ map (shard_position \<circ> snd) (shards l)"

definition levels_get :: "index_levels \<Rightarrow> usize \<Rightarrow> wal_position option" where
  "levels_get l level =
     (if level < length (positions l) \<and> is_valid (positions l ! level) then Some (positions l ! level) else None)"

definition l0 :: "index_levels \<Rightarrow> wal_position option" where
  "l0 l = levels_get l 0"

definition l1 :: "index_levels \<Rightarrow> wal_position option" where
  "l1 l = levels_get l 1"

definition levels_set :: "usize \<Rightarrow> wal_position \<Rightarrow> index_levels \<Rightarrow> index_levels res" where
  "levels_set level position l =
     assertr (level \<le> length (positions l))
       (Inr (if level = length (positions l) then l\<lparr>positions := positions l @ [position]\<rparr>
             else l\<lparr>positions := (positions l)[level := position]\<rparr>))"

definition is_single_level :: "index_levels \<Rightarrow> bool" where
  "is_single_level l \<longleftrightarrow> length (levels_iter l) \<le> 1"

definition is_sharded :: "index_levels \<Rightarrow> bool" where
  "is_sharded l \<longleftrightarrow> shards l \<noteq> []"

section \<open>Choosing a shard\<close>

text \<open>\<open>range((Unbounded, Included(key))).next_back()\<close>.\<close>

definition shard_at_or_before :: "bytes \<Rightarrow> (bytes, index_shard) smap \<Rightarrow> (bytes \<times> index_shard) option" where
  "shard_at_or_before key sh = last_of (filter (\<lambda>e. fst e \<le> key) sh)"

definition shard_entry_for :: "index_levels \<Rightarrow> bytes \<Rightarrow> (bytes \<times> index_shard) option" where
  "shard_entry_for l key =
     (case shard_at_or_before key (shards l) of
        None \<Rightarrow> None
      | Some (min_key, shard) \<Rightarrow> if key \<le> max_key shard then Some (min_key, shard) else None)"

definition shard_for :: "index_levels \<Rightarrow> bytes \<Rightarrow> index_shard option" where
  "shard_for l key = map_option snd (shard_entry_for l key)"

definition shard_for_iter_forward :: "index_levels \<Rightarrow> bytes option \<Rightarrow> index_shard option" where
  "shard_for_iter_forward l prev_key =
     (if shards l = [] then None
      else case prev_key of
        None \<Rightarrow> map_option snd (first_of (shards l))
      | Some k \<Rightarrow>
          (case shard_at_or_before k (shards l) of
             Some (_, pred) \<Rightarrow>
               if k < max_key pred then Some pred else map_option snd (first_of (sm_after (Some k) (shards l)))
           | None \<Rightarrow> map_option snd (first_of (sm_after (Some k) (shards l)))))"

definition shard_for_iter_reverse :: "index_levels \<Rightarrow> bytes option \<Rightarrow> index_shard option" where
  "shard_for_iter_reverse l prev_key =
     (if shards l = [] then None
      else case prev_key of
        None \<Rightarrow> map_option snd (last_of (shards l))
      | Some k \<Rightarrow> map_option snd (last_of (sm_before (Some k) (shards l))))"

section \<open>Well-formed levels\<close>

definition levels_wf :: "index_levels \<Rightarrow> bool" where
  "levels_wf l \<longleftrightarrow>
     (if is_sharded l
      then length (positions l) = 2 \<and> positions l ! 1 = WAL_INVALID \<and> debug_assert_shards (shards l)
      else positions l = [] \<or> is_valid (last (positions l)))"

lemma check_ranges_eq:
  "check_shard_ranges prev sh \<longleftrightarrow> (case prev of None \<Rightarrow> True | Some p \<Rightarrow> \<forall>e \<in> set sh. p < fst e)
    \<and> (\<forall>e \<in> set sh. fst e \<le> max_key (snd e)) \<and> sorted_wrt (\<lambda>a b. max_key (snd a) < fst b) sh"
proof (induction sh arbitrary: prev)
  case (Cons e sh)
  obtain m s where e: "e = (m, s)" by (cases e)
  have "m \<le> max_key s \<Longrightarrow> p < m \<Longrightarrow> \<forall>e' \<in> set sh. max_key s < fst e' \<Longrightarrow> \<forall>e' \<in> set sh. p < fst e'" for p
    by (blast intro: less_trans le_less_trans less_le_trans)
  then show ?case using Cons.IH [of "Some (max_key s)"] e by (auto split: option.splits)
qed (simp split: option.split)

definition ranges_ok :: "(bytes, index_shard) smap \<Rightarrow> bool" where
  "ranges_ok sh \<longleftrightarrow> (\<forall>e \<in> set sh. fst e \<le> max_key (snd e)) \<and> sorted_wrt (\<lambda>a b. max_key (snd a) < fst b) sh"

lemma ranges_ok_Cons:
  "ranges_ok ((m, s) # sh) \<longleftrightarrow> m \<le> max_key s \<and> (\<forall>e \<in> set sh. max_key s < fst e) \<and> ranges_ok sh"
  by (auto simp: ranges_ok_def)

lemma ranges_ok_wf: "ranges_ok sh \<Longrightarrow> sm_wf sh"
proof (induction sh)
  case (Cons e sh)
  obtain m s where e: "e = (m, s)" by (cases e)
  have "m < fst e'" if "e' \<in> set sh" for e'
    using Cons.prems that unfolding e ranges_ok_Cons by (blast intro: le_less_trans)
  then show ?case using Cons e by (simp add: ranges_ok_Cons)
qed simp

lemma ranges_apart:
  "ranges_ok sh \<Longrightarrow> a \<in> set sh \<Longrightarrow> b \<in> set sh \<Longrightarrow> fst a < fst b \<Longrightarrow> max_key (snd a) < fst b"
proof (induction sh)
  case (Cons e sh)
  obtain m s where e: "e = (m, s)" by (cases e)
  have sep: "\<forall>e' \<in> set sh. max_key s < fst e'" "ranges_ok sh" "m \<le> max_key s" using Cons.prems(1) by (simp_all add: e ranges_ok_Cons)
  have "\<not> fst a < m" if "a \<in> set sh" using sep(1,3) that by (meson le_less_trans less_asym)
  then show ?case using Cons.IH sep Cons.prems(2-4) e by auto
qed simp

lemma debug_assert_ranges: "debug_assert_shards sh \<Longrightarrow> ranges_ok sh"
  by (simp add: debug_assert_shards_def check_ranges_eq ranges_ok_def)

lemma levels_wf_ranges: "levels_wf l \<Longrightarrow> ranges_ok (shards l)"
  using debug_assert_ranges by (auto simp: levels_wf_def is_sharded_def ranges_ok_def split: if_splits)

section \<open>The contents of the shards\<close>

text \<open>What a store of blobs holds for the shards: each blob is sorted and not empty, and its first and
  last keys are the bounds the levels record.\<close>

definition shard_holds :: "(wal_position \<Rightarrow> (bytes, 'v) smap) \<Rightarrow> bytes \<times> index_shard \<Rightarrow> bool" where
  "shard_holds blob e \<longleftrightarrow> (let c = blob (shard_position (snd e)) in
     sm_wf c \<and> c \<noteq> [] \<and> fst (hd c) = fst e \<and> fst (last c) = max_key (snd e))"

definition shard_contents :: "(wal_position \<Rightarrow> (bytes, 'v) smap) \<Rightarrow> (bytes, index_shard) smap \<Rightarrow> (bytes, 'v) smap" where
  "shard_contents blob sh = concat (map (\<lambda>e. blob (shard_position (snd e))) sh)"

lemma sm_wf_bounds:
  assumes "sm_wf c" "e \<in> set c"
  shows "fst (hd c) \<le> fst e" "fst e \<le> fst (last c)"
proof -
  obtain i where i: "i < length c" "e = c ! i" using assms(2) by (metis in_set_conv_nth)
  then have "c \<noteq> []" by auto
  then show "fst (hd c) \<le> fst e" "fst e \<le> fst (last c)"
    using sm_wf_nth_le [OF assms(1), of 0 i] sm_wf_nth_le [OF assms(1), of i "length c - 1"] i by (simp_all add: hd_conv_nth last_conv_nth)
qed

lemma shard_range:
  "shard_holds blob e \<Longrightarrow> x \<in> set (blob (shard_position (snd e))) \<Longrightarrow> fst e \<le> fst x \<and> fst x \<le> max_key (snd e)"
  using sm_wf_bounds [of "blob (shard_position (snd e))" x] by (simp add: shard_holds_def Let_def)

lemma sm_wf_contents:
  "ranges_ok sh \<Longrightarrow> list_all (shard_holds blob) sh \<Longrightarrow> sm_wf (shard_contents blob sh)"
proof (induction sh)
  case (Cons e sh)
  obtain m s where e: "e = (m, s)" by (cases e)
  have "fst a < fst b" if ab: "a \<in> set (blob (shard_position s))" "b \<in> set (shard_contents blob sh)" for a b
  proof -
    obtain e' where e': "e' \<in> set sh" "b \<in> set (blob (shard_position (snd e')))" using ab(2) by (auto simp: shard_contents_def)
    then have "max_key s < fst e'" "fst e' \<le> fst b" using Cons.prems e shard_range [of blob e' b]
      by (auto simp: ranges_ok_Cons list_all_iff)
    moreover have "fst a \<le> max_key s" using shard_range [of blob e a] ab(1) e Cons.prems by simp
    ultimately show ?thesis by order
  qed
  then show ?case using Cons e by (auto simp: shard_contents_def sm_wf_append ranges_ok_Cons shard_holds_def Let_def)
qed (simp add: shard_contents_def)

lemma shard_entry_iff:
  assumes "ranges_ok (shards l)"
  shows "shard_entry_for l k = Some (m, s) \<longleftrightarrow> (m, s) \<in> set (shards l) \<and> m \<le> k \<and> k \<le> max_key s"
proof -
  have wf: "sm_wf (filter (\<lambda>e. fst e \<le> k) (shards l))" using ranges_ok_wf [OF assms] by (rule sm_wf_filter)
  have "fst e \<le> m" if e: "e \<in> set (shards l)" "fst e \<le> k" "(m, s) \<in> set (shards l)" "k \<le> max_key s" for e
  proof (rule ccontr)
    assume "\<not> fst e \<le> m"
    then have "max_key s < fst e" using ranges_apart [OF assms e(3,1)] by simp
    then show False using e(2,4) by simp
  qed
  then show ?thesis
    using last_of_sm_iff [OF wf, of m s] by (auto simp: shard_entry_for_def shard_at_or_before_def split: option.splits if_splits)
qed

text \<open>The shard of a key holds the entry of the key, if any shard does.\<close>

lemma shard_for_lookup:
  assumes "ranges_ok (shards l)" "list_all (shard_holds blob) (shards l)"
  shows "map_of (shard_contents blob (shards l)) k = (case shard_for l k of None \<Rightarrow> None | Some s \<Rightarrow> map_of (blob (shard_position s)) k)"
proof (cases "shard_entry_for l k")
  case None
  have "fst x \<noteq> k" if x: "x \<in> set (shard_contents blob (shards l))" for x
  proof
    assume "fst x = k"
    obtain e where e: "e \<in> set (shards l)" "x \<in> set (blob (shard_position (snd e)))" using x by (auto simp: shard_contents_def)
    then have "fst e \<le> k" "k \<le> max_key (snd e)" using assms(2) shard_range [of blob e x] \<open>fst x = k\<close> by (auto simp: list_all_iff)
    then show False using None shard_entry_iff [OF assms(1), of k "fst e" "snd e"] e(1) by simp
  qed
  then show ?thesis using None by (simp add: shard_for_def map_of_not_key)
next
  case (Some e)
  obtain m s where e: "e = (m, s)" by (cases e)
  have ms: "(m, s) \<in> set (shards l)" "m \<le> k" "k \<le> max_key s" using shard_entry_iff [OF assms(1), of k m s] Some e by simp_all
  have wf: "sm_wf (shard_contents blob (shards l))" "sm_wf (blob (shard_position s))"
    using sm_wf_contents [OF assms] assms(2) ms(1) by (auto simp: list_all_iff shard_holds_def Let_def)
  have "(k, v) \<in> set (shard_contents blob (shards l)) \<longleftrightarrow> (k, v) \<in> set (blob (shard_position s))" for v
  proof
    assume "(k, v) \<in> set (shard_contents blob (shards l))"
    then obtain e' where e': "e' \<in> set (shards l)" "(k, v) \<in> set (blob (shard_position (snd e')))" by (auto simp: shard_contents_def)
    then have "fst e' \<le> k" "k \<le> max_key (snd e')" using assms(2) shard_range [of blob e' "(k, v)"] by (auto simp: list_all_iff)
    then have "shard_entry_for l k = Some (fst e', snd e')" using shard_entry_iff [OF assms(1), of k "fst e'" "snd e'"] e'(1) by simp
    then have "e' = (m, s)" using Some e by (cases e') simp
    then show "(k, v) \<in> set (blob (shard_position s))" using e'(2) by simp
  qed (use ms(1) in \<open>force simp: shard_contents_def\<close>)
  then have "map_of (shard_contents blob (shards l)) k = Some v \<longleftrightarrow> map_of (blob (shard_position s)) k = Some v" for v
    using sm_wf_distinct [OF wf(1)] sm_wf_distinct [OF wf(2)] by simp
  then have "map_of (shard_contents blob (shards l)) k = map_of (blob (shard_position s)) k" by (metis not_None_eq)
  then show ?thesis using Some e by (simp add: shard_for_def)
qed

text \<open>The first shard whose keys are not all at or before a key.\<close>

lemma forward_pick:
  "ranges_ok sh \<Longrightarrow>
     (case shard_at_or_before k sh of
        Some (_, pred) \<Rightarrow> if k < max_key pred then Some pred else map_option snd (first_of (sm_after (Some k) sh))
      | None \<Rightarrow> map_option snd (first_of (sm_after (Some k) sh)))
     = map_option snd (find (\<lambda>e. k < max_key (snd e)) sh)"
proof (induction sh)
  case (Cons e sh)
  obtain m s where e: "e = (m, s)" by (cases e)
  have sep: "m \<le> max_key s" "\<forall>e' \<in> set sh. max_key s < fst e'" "ranges_ok sh" using Cons.prems by (simp_all add: e ranges_ok_Cons)
  show ?case
  proof (cases "k < max_key s")
    case True
    then have "\<forall>e' \<in> set sh. \<not> fst e' \<le> k" using sep(2) by (meson leD less_trans)
    then have "filter (\<lambda>e. fst e \<le> k) sh = []" by simp
    then show ?thesis using True e by (auto simp: shard_at_or_before_def sm_after_def not_le)
  next
    case False
    then have "m \<le> k" using sep(1) by order
    have "shard_at_or_before k (e # sh) = (case shard_at_or_before k sh of None \<Rightarrow> Some (m, s) | Some x \<Rightarrow> Some x)"
      using e \<open>m \<le> k\<close> by (simp add: shard_at_or_before_def last_of_def)
    moreover have "sm_after (Some k) (e # sh) = sm_after (Some k) sh" using e \<open>m \<le> k\<close> by (simp add: sm_after_def)
    ultimately show ?thesis using Cons.IH [OF sep(3)] False e by (auto split: option.splits)
  qed
qed (simp add: shard_at_or_before_def sm_after_def)

lemma find_split:
  "find P xs = Some x \<Longrightarrow> \<exists>pre post. xs = pre @ x # post \<and> P x \<and> (\<forall>y \<in> set pre. \<not> P y)"
proof (induction xs)
  case (Cons y xs)
  show ?case
  proof (cases "P y")
    case False
    then obtain pre post where "xs = pre @ x # post" "P x" "\<forall>z \<in> set pre. \<not> P z" using Cons by auto
    then show ?thesis using False by (intro exI [of _ "y # pre"] exI [of _ post]) simp
  qed (use Cons.prems in force)
qed simp

lemma last_of_filter_split:
  assumes "last_of (filter P xs) = Some x"
  shows "\<exists>pre post. xs = pre @ x # post \<and> P x \<and> (\<forall>y \<in> set post. \<not> P y)"
proof -
  have "find P (rev xs) = Some x" using assms by (simp add: find_rev)
  then obtain pre post where "rev xs = pre @ x # post" "P x" "\<forall>y \<in> set pre. \<not> P y" using find_split by metis
  then have "xs = rev post @ x # rev pre" using rev_rev_ident [of xs] by simp
  then show ?thesis using \<open>P x\<close> \<open>\<forall>y \<in> set pre. \<not> P y\<close> by (intro exI [of _ "rev post"] exI [of _ "rev pre"]) simp
qed

lemma contents_split: "shard_contents blob (pre @ e # post) = shard_contents blob pre @ blob (shard_position (snd e)) @ shard_contents blob post"
  by (simp add: shard_contents_def)

lemma contents_member:
  assumes "list_all (shard_holds blob) sh" "x \<in> set (shard_contents blob sh)"
  obtains e where "e \<in> set sh" "fst e \<le> fst x" "fst x \<le> max_key (snd e)"
proof -
  obtain e where "e \<in> set sh" "x \<in> set (blob (shard_position (snd e)))" using assms(2) by (auto simp: shard_contents_def)
  then show thesis using that [of e] shard_range [of blob e x] assms(1) by (simp add: list_all_iff)
qed

lemma contents_below:
  assumes "list_all (shard_holds blob) sh" "\<forall>e \<in> set sh. max_key (snd e) \<le> k"
  shows "sm_after (Some k) (shard_contents blob sh) = []"
proof -
  have "\<not> k < fst x" if x: "x \<in> set (shard_contents blob sh)" for x
  proof -
    obtain e where "e \<in> set sh" "fst x \<le> max_key (snd e)" using contents_member [OF assms(1) x] by metis
    then have "fst x \<le> k" using assms(2) order_trans by blast
    then show ?thesis by simp
  qed
  then show ?thesis by (simp add: sm_after_def)
qed

lemma contents_above:
  assumes "list_all (shard_holds blob) sh" "\<forall>e \<in> set sh. k \<le> fst e"
  shows "sm_before (Some k) (shard_contents blob sh) = []"
proof -
  have "\<not> fst x < k" if x: "x \<in> set (shard_contents blob sh)" for x
  proof -
    obtain e where "e \<in> set sh" "fst e \<le> fst x" using contents_member [OF assms(1) x] by metis
    then have "k \<le> fst x" using assms(2) order_trans by blast
    then show ?thesis by simp
  qed
  then show ?thesis by (simp add: sm_before_def)
qed

lemma shard_forward_next:
  assumes "ranges_ok (shards l)" "list_all (shard_holds blob) (shards l)"
  shows "next_of Forward prev (shard_contents blob (shards l)) =
    (case shard_for_iter_forward l prev of None \<Rightarrow> None | Some s \<Rightarrow> next_of Forward prev (blob (shard_position s)))"
proof (cases prev)
  case None
  then show ?thesis
    using assms(2) by (cases "shards l") (auto simp: shard_for_iter_forward_def next_of_def sm_after_def shard_contents_def first_of_def shard_holds_def Let_def split: list.split)
next
  case (Some k)
  have pick: "shard_for_iter_forward l (Some k) = map_option snd (find (\<lambda>e. k < max_key (snd e)) (shards l))"
    using forward_pick [OF assms(1), of k] by (auto simp: shard_for_iter_forward_def)
  show ?thesis
  proof (cases "find (\<lambda>e. k < max_key (snd e)) (shards l)")
    case None
    then have "\<forall>e \<in> set (shards l). max_key (snd e) \<le> k" by (auto simp: find_None_iff not_less)
    then have "sm_after (Some k) (shard_contents blob (shards l)) = []" by (rule contents_below [OF assms(2)])
    then show ?thesis using None pick Some by (simp add: next_of_def)
  next
    case (Some e)
    obtain pre post where sp: "shards l = pre @ e # post" "k < max_key (snd e)" "\<forall>y \<in> set pre. \<not> k < max_key (snd y)"
      using find_split [OF Some] by blast
    have "list_all (shard_holds blob) pre" "shard_holds blob e" using assms(2) sp(1) by simp_all
    have pre: "sm_after (Some k) (shard_contents blob pre) = []"
      using sp(3) by (intro contents_below \<open>list_all (shard_holds blob) pre\<close>) (simp add: not_less)
    let ?c = "blob (shard_position (snd e))"
    have "last ?c \<in> set ?c" "k < fst (last ?c)" using \<open>shard_holds blob e\<close> sp(2) by (simp_all add: shard_holds_def Let_def)
    then have "sm_after (Some k) ?c \<noteq> []" by (auto simp: sm_after_def filter_empty_conv)
    then have "first_of (sm_after (Some k) (shard_contents blob (shards l))) = first_of (sm_after (Some k) ?c)"
      using pre unfolding sp(1) contents_split by (cases "sm_after (Some k) ?c") (auto simp: sm_after_def)
    then show ?thesis using Some pick \<open>prev = Some k\<close> by (simp add: next_of_def)
  qed
qed

lemma shard_reverse_next:
  assumes "ranges_ok (shards l)" "list_all (shard_holds blob) (shards l)"
  shows "next_of Backward prev (shard_contents blob (shards l)) =
    (case shard_for_iter_reverse l prev of None \<Rightarrow> None | Some s \<Rightarrow> next_of Backward prev (blob (shard_position s)))"
proof (cases prev)
  case None
  then show ?thesis
    using assms(2) by (cases "shards l" rule: rev_cases) (auto simp: shard_for_iter_reverse_def next_of_def sm_before_def shard_contents_def last_of_def shard_holds_def Let_def)
next
  case (Some k)
  have pick: "shard_for_iter_reverse l (Some k) = map_option snd (last_of (filter (\<lambda>e. fst e < k) (shards l)))"
    by (simp add: shard_for_iter_reverse_def sm_before_def)
  show ?thesis
  proof (cases "last_of (filter (\<lambda>e. fst e < k) (shards l))")
    case None
    then have "\<forall>e \<in> set (shards l). k \<le> fst e" by (auto simp: last_of_def filter_empty_conv not_less split: if_splits)
    then have "sm_before (Some k) (shard_contents blob (shards l)) = []" by (rule contents_above [OF assms(2)])
    then show ?thesis using None pick Some by (simp add: next_of_def)
  next
    case (Some e)
    obtain pre post where sp: "shards l = pre @ e # post" "fst e < k" "\<forall>y \<in> set post. \<not> fst y < k"
      using last_of_filter_split [OF Some] by blast
    have "list_all (shard_holds blob) post" "shard_holds blob e" using assms(2) sp(1) by simp_all
    have post: "sm_before (Some k) (shard_contents blob post) = []"
      using sp(3) by (intro contents_above \<open>list_all (shard_holds blob) post\<close>) (simp add: not_less)
    let ?c = "blob (shard_position (snd e))"
    have "hd ?c \<in> set ?c" "fst (hd ?c) < k" using \<open>shard_holds blob e\<close> sp(2) by (simp_all add: shard_holds_def Let_def)
    then have "sm_before (Some k) ?c \<noteq> []" by (auto simp: sm_before_def filter_empty_conv)
    then have "last_of (sm_before (Some k) (shard_contents blob (shards l))) = last_of (sm_before (Some k) ?c)"
      using post unfolding sp(1) contents_split by (auto simp: sm_before_def last_of_def)
    then show ?thesis using Some pick \<open>prev = Some k\<close> by (simp add: next_of_def)
  qed
qed

section \<open>Properties\<close>

lemma levels_set_wf:
  assumes "levels_wf l" "level = 0 \<or> \<not> is_sharded l" "is_valid p" "levels_set level p l = Inr l'"
  shows "levels_wf l'"
proof (cases "level = length (positions l)")
  case True
  then have "l' = l\<lparr>positions := positions l @ [p]\<rparr>" using assms(4) by (simp add: levels_set_def)
  then show ?thesis using assms(1-3) True by (auto simp: levels_wf_def is_sharded_def split: if_splits)
next
  case False
  then have l': "l' = l\<lparr>positions := (positions l)[level := p]\<rparr>" "level < length (positions l)"
    using assms(4) by (auto simp: levels_set_def assertr_Inr_iff)
  then have "positions l \<noteq> []" by auto
  then have "last (positions l') = (if level = length (positions l) - 1 then p else last (positions l))"
    using l' by (simp add: last_list_update)
  then show ?thesis using assms(1-3) l' by (auto simp: levels_wf_def is_sharded_def split: if_splits)
qed



text \<open>C36. Reading one shard is enough: a point read of the shard chosen for a key, and a scan step over the
  shard chosen for the direction, find what the contents of all the shards put together hold, and
  where no shard is chosen there is nothing to find.\<close>

theorem shard_choice_complete:
  assumes "levels_wf l" "list_all (shard_holds blob) (shards l)"
  shows "map_of (shard_contents blob (shards l)) k = (case shard_for l k of None \<Rightarrow> None | Some s \<Rightarrow> map_of (blob (shard_position s)) k)
    \<and> next_of d prev (shard_contents blob (shards l)) =
      (case (if d = Backward then shard_for_iter_reverse l prev else shard_for_iter_forward l prev) of
         None \<Rightarrow> None | Some s \<Rightarrow> next_of d prev (blob (shard_position s)))"
  using shard_for_lookup [OF levels_wf_ranges [OF assms(1)] assms(2)] shard_forward_next [OF levels_wf_ranges [OF assms(1)] assms(2)]
    shard_reverse_next [OF levels_wf_ranges [OF assms(1)] assms(2)]
  by (cases d) (simp_all cong: option.case_cong)

definition demo_shards :: index_levels where
  "demo_shards = levels_sharded [([1], index_shard_new (WalPosition 32 9) [4]), ([6], index_shard_new (WalPosition 64 9) [6])]"

definition demo_blob :: "wal_position \<Rightarrow> (bytes, nat) smap" where
  "demo_blob p = (if wp_offset p = 32 then [([1], 10), ([4], 40)] else [([6], 60)])"

theorem shard_choice_complete_witness:
  "map_of (shard_contents demo_blob (shards demo_shards)) [4] = Some 40
   \<and> shard_for_iter_forward demo_shards (Some [5]) = Some (index_shard_new (WalPosition 64 9) [6])
   \<and> next_of Forward (Some [5]) (shard_contents demo_blob (shards demo_shards)) = Some ([6], 60)"
proof -
  have "levels_wf demo_shards" "list_all (shard_holds demo_blob) (shards demo_shards)"
      "shard_for demo_shards [4] = Some (index_shard_new (WalPosition 32 9) [4])"
      "shard_for_iter_forward demo_shards (Some [5]) = Some (index_shard_new (WalPosition 64 9) [6])"
    by (simp_all add: demo_shards_def demo_blob_def levels_wf_def is_sharded_def levels_sharded_def debug_assert_shards_def index_shard_new_def
        is_valid_def WAL_INVALID_def shard_holds_def shard_for_def shard_entry_for_def shard_at_or_before_def shard_for_iter_forward_def
        sm_after_def last_of_def)
  with shard_choice_complete [OF this(1,2), of "[4]" Forward "Some [5]"] show ?thesis
    by (simp add: index_shard_new_def demo_blob_def next_of_def sm_after_def)
qed

end
