(* ===== verification/Format_Type.thy ===== *)
theory Format_Type
  imports Uniform_Lookup Index_Levels
begin

text \<open>
  The index format of a key space (\<open>IndexFormatType\<close> in \<open>tidehunter/src/index/index_format.rs\<close>)
  and what its users rely on. The contract \<open>blob_format\<close> says that a stored blob reads, scans and
  loads as the table it was written from; the header format, the uniform format and the dispatching
  type satisfy it. The reads that walk several levels of blobs
  (\<open>lookup_disk_levels\<close> and \<open>execute_walk\<close> in \<open>tidehunter/src/large_table.rs\<close>) are stated over it.
\<close>

definition uniform_index :: "usize list list \<Rightarrow> uniform_lookup_index" where
  "uniform_index ws = \<lparr>window_sizes = ws\<rparr>"

definition format_serialize_index :: "index_format_type \<Rightarrow> index_table \<Rightarrow> key_space_desc \<Rightarrow> bytes res" where
  "format_serialize_index f t ks =
     (case f of Header \<Rightarrow> header_serialize_index t ks | UniformFormat ws \<Rightarrow> uniform_serialize_index t ks)"

definition format_deserialize_index :: "index_format_type \<Rightarrow> key_space_desc \<Rightarrow> bytes \<Rightarrow> index_table res" where
  "format_deserialize_index f ks b =
     (case f of Header \<Rightarrow> header_deserialize_index ks b | UniformFormat ws \<Rightarrow> uniform_deserialize_index ks b)"

definition format_lookup_unloaded :: "index_format_type \<Rightarrow> key_space_desc \<Rightarrow> random_read \<Rightarrow> bytes \<Rightarrow> wal_position option res option" where
  "format_lookup_unloaded f ks reader key =
     (case f of
        Header \<Rightarrow> Some (header_lookup_unloaded ks reader key)
      | UniformFormat ws \<Rightarrow> uniform_lookup_unloaded (uniform_index ws) ks reader key)"

definition format_next_entry_unloaded ::
    "index_format_type \<Rightarrow> key_space_desc \<Rightarrow> random_read \<Rightarrow> bytes option \<Rightarrow> direction \<Rightarrow> wal_position \<Rightarrow> index_iter_cache option
     \<Rightarrow> ((bytes \<times> wal_position) option \<times> index_iter_cache option) res option" where
  "format_next_entry_unloaded f ks reader prev d position cache =
     (case f of
        Header \<Rightarrow> Some (header_next_entry_unloaded ks reader prev d position cache)
      | UniformFormat ws \<Rightarrow> uniform_next_entry_unloaded (uniform_index ws) ks reader prev d position cache)"

definition ks_index_format :: "key_space_desc \<Rightarrow> index_format_type" where
  "ks_index_format ks = index_format (config ks)"

section \<open>The contract\<close>

text \<open>What a table shows: its keys with their latest positions.\<close>

definition table_view :: "index_table \<Rightarrow> (bytes, wal_position) smap" where
  "table_view t = map observed (combined t)"

lemma sm_wf_view: "table_wf t \<Longrightarrow> sm_wf (table_view t)"
  by (simp add: table_view_def sm_wf_combined)

lemma view_get: "table_wf t \<Longrightarrow> index_get t k = Inr (map_of (table_view t) k)"
  unfolding table_view_def map_of_observed by (simp add: index_get_wf live_map_of_combined)

lemma view_next: "table_wf t \<Longrightarrow> next_entry t prev (d = Backward) = Inr (next_of d prev (table_view t))"
  unfolding next_entry_wf table_view_def by (cases d) (simp_all add: next_of_def after_observed)

locale blob_format =
  fixes ser :: "index_table \<Rightarrow> key_space_desc \<Rightarrow> bytes res"
    and deser :: "key_space_desc \<Rightarrow> bytes \<Rightarrow> index_table res"
    and look :: "key_space_desc \<Rightarrow> random_read \<Rightarrow> bytes \<Rightarrow> wal_position option res option"
    and scan :: "key_space_desc \<Rightarrow> random_read \<Rightarrow> bytes option \<Rightarrow> direction \<Rightarrow> wal_position \<Rightarrow> index_iter_cache option
      \<Rightarrow> ((bytes \<times> wal_position) option \<times> index_iter_cache option) res option"
    and fits :: "key_space_desc \<Rightarrow> cell_id \<Rightarrow> index_table \<Rightarrow> bool"
    and cache_ok :: "key_space_desc \<Rightarrow> bytes \<Rightarrow> wal_position \<Rightarrow> index_iter_cache option \<Rightarrow> bool"
  assumes fits_wf: "fits ks c t \<Longrightarrow> table_wf t"
    and serializes: "fits ks c t \<Longrightarrow> \<exists>b. ser t ks = Inr b"
    and loads: "fits ks c t \<Longrightarrow> ser t ks = Inr b \<Longrightarrow>
      \<exists>t'. deser ks b = Inr t' \<and> table_wf t' \<and> data t' = [] \<and> flat_entries t' = map reload (table_view t)"
    and looks: "fits ks c t \<Longrightarrow> ser t ks = Inr b \<Longrightarrow> reads_as r b \<Longrightarrow> key_ok ks c k \<Longrightarrow>
      look ks r k = Some (Inr (map_of (table_view t) k))"
    and scans: "fits ks c t \<Longrightarrow> ser t ks = Inr b \<Longrightarrow> reads_as r b \<Longrightarrow> cache_ok ks b position cache \<Longrightarrow>
      (\<And>k. prev = Some k \<Longrightarrow> key_ok ks c k) \<Longrightarrow>
      \<exists>cache'. scan ks r prev d position cache = Some (Inr (next_of d prev (table_view t), cache')) \<and> cache_ok ks b position cache'"
    and no_cache: "cache_ok ks b position None"

section \<open>The two formats\<close>

definition no_tombstones :: "index_table \<Rightarrow> bool" where
  "no_tombstones t \<longleftrightarrow> list_all (\<lambda>e. into_wal_position (snd e) \<noteq> WAL_INVALID) (combined t)"

definition header_fits :: "key_space_desc \<Rightarrow> cell_id \<Rightarrow> index_table \<Rightarrow> bool" where
  "header_fits ks c t \<longleftrightarrow> header_storable ks c t \<and> (index_key_size ks = None \<longrightarrow> no_tombstones t)"

lemma no_tombstones_get:
  assumes "table_wf t" "no_tombstones t"
  shows "index_get t k \<noteq> Inr (Some WAL_INVALID)"
proof
  assume "index_get t k = Inr (Some WAL_INVALID)"
  then obtain v where "map_of (combined t) k = Some v" "into_wal_position v = WAL_INVALID"
    by (auto simp: index_get_wf [OF assms(1)] live_map_of_combined [OF assms(1)])
  then show False using assms(2) map_of_SomeD [of "combined t" k v] by (auto simp: no_tombstones_def list_all_iff)
qed

lemma header_fits_view:
  assumes "header_fits ks c t"
  shows "header_view ks t = table_view t"
proof -
  have wf: "table_wf t" using assms by (simp add: header_fits_def header_storable_def)
  show ?thesis
    using header_view_observed [OF wf] no_tombstones_get [OF wf] assms by (simp add: table_view_def header_fits_def)
qed

interpretation header: blob_format header_serialize_index header_deserialize_index
  "\<lambda>ks r k. Some (header_lookup_unloaded ks r k)" "\<lambda>ks r prev d position cache. Some (header_next_entry_unloaded ks r prev d position cache)"
  header_fits header_cache_ok
proof unfold_locales
  fix ks c t b assume f: "header_fits ks c t" and b: "header_serialize_index t ks = Inr b"
  show "\<exists>t'. header_deserialize_index ks b = Inr t' \<and> table_wf t' \<and> data t' = [] \<and> flat_entries t' = map reload (table_view t)"
    using header_reload [of ks c t] f b by (auto simp: header_fits_def table_view_def simp del: map_map)
next
  fix ks c t b r position cache prev d
  assume f: "header_fits ks c t" and b: "header_serialize_index t ks = Inr b" "reads_as r b" "header_cache_ok ks b position cache"
    and k: "\<And>k. prev = Some k \<Longrightarrow> key_ok ks c k"
  show "\<exists>cache'. Some (header_next_entry_unloaded ks r prev d position cache) = Some (Inr (next_of d prev (table_view t), cache')) \<and> header_cache_ok ks b position cache'"
    using header_scan_view [OF _ b k, where d = d] f header_fits_view [OF f] by (auto simp: header_fits_def)
next
  fix ks c t assume f: "header_fits ks c t"
  then show "table_wf t" "\<exists>b. header_serialize_index t ks = Inr b"
    using header_blob [of ks c t] by (auto simp: header_fits_def header_storable_def)
next
  fix ks c t b r k
  assume f: "header_fits ks c t" and b: "header_serialize_index t ks = Inr b" "reads_as r b" "key_ok ks c k"
  show "Some (header_lookup_unloaded ks r k) = Some (Inr (map_of (table_view t) k))"
    using header_lookup_view [OF _ b(3,1,2)] f header_fits_view [OF f] by (simp add: header_fits_def)
qed (simp add: header_cache_ok_def)

definition uniform_fits :: "usize list list \<Rightarrow> key_space_desc \<Rightarrow> cell_id \<Rightarrow> index_table \<Rightarrow> bool" where
  "uniform_fits ws ks c t \<longleftrightarrow> uniform_storable ks t \<and> (case window_size (uniform_index ws) of Inr w \<Rightarrow> 2 \<le> w | Inl _ \<Rightarrow> False)"

definition uniform_cache_fits :: "key_space_desc \<Rightarrow> bytes \<Rightarrow> wal_position \<Rightarrow> index_iter_cache option \<Rightarrow> bool" where
  "uniform_cache_fits ks b position cache = (case index_element_size ks of Some e \<Rightarrow> uniform_cache_ok e b position cache | None \<Rightarrow> True)"

lemma uniform_fitsD:
  assumes "uniform_fits ws ks c t"
  obtains n w where "ks_ok ks" "table_wf t" "index_key_size ks = Some n" "window_size (uniform_index ws) = Inr w" "2 \<le> w"
    "\<And>b. uniform_serialize_index t ks = Inr b \<Longrightarrow> fixed_section n b (table_view t)" "\<exists>b. uniform_serialize_index t ks = Inr b" "storable ks t"
proof -
  have st: "uniform_storable ks t" using assms by (simp add: uniform_fits_def)
  obtain n w where nw: "index_key_size ks = Some n" "window_size (uniform_index ws) = Inr w" "2 \<le> w"
    using assms by (auto simp: uniform_fits_def uniform_storable_def split: sum.splits)
  show thesis using that [OF _ _ nw] st uniform_blob [OF st nw(1)] by (auto simp: uniform_storable_def table_view_def)
qed

interpretation uniform: blob_format uniform_serialize_index uniform_deserialize_index
  "uniform_lookup_unloaded (uniform_index ws)" "uniform_next_entry_unloaded (uniform_index ws)" "uniform_fits ws" uniform_cache_fits
  for ws
proof unfold_locales
  fix ks c t assume f: "uniform_fits ws ks c t"
  show "table_wf t" "\<exists>b. uniform_serialize_index t ks = Inr b" using uniform_fitsD [OF f] by metis+
next
  fix ks c t b assume f: "uniform_fits ws ks c t" and b: "uniform_serialize_index t ks = Inr b"
  obtain n where n: "index_key_size ks = Some n" "table_wf t" "storable ks t" "fixed_section n b (table_view t)"
    using uniform_fitsD [OF f] b by metis
  have "disk_bytes ks = fixed_elem" using n(1) by (simp add: disk_bytes_def fixed_elem_def fun_eq_iff)
  moreover have "b = concat (map fixed_elem (table_view t))" using n(4) by (simp add: fixed_section_def)
  ultimately show "\<exists>t'. uniform_deserialize_index ks b = Inr t' \<and> table_wf t' \<and> data t' = [] \<and> flat_entries t' = map reload (table_view t)"
    using deserialize_eq [of "table_view t" ks] sm_wf_view [OF n(2)] n(3)
    by (auto simp: uniform_deserialize_index_def storable_def table_view_def list_all_iff observed_def simp del: map_map)
next
  fix ks c t b r k assume f: "uniform_fits ws ks c t" and b: "uniform_serialize_index t ks = Inr b" "reads_as r b" "key_ok ks c k"
  show "uniform_lookup_unloaded (uniform_index ws) ks r k = Some (Inr (map_of (table_view t) k))"
    using uniform_fitsD [OF f] uniform_lookup_view [OF _ _ _ _ b(2,3)] b(1) sm_wf_view by metis
next
  fix ks c t b r position cache prev d
  assume f: "uniform_fits ws ks c t" and b: "uniform_serialize_index t ks = Inr b" "reads_as r b" "uniform_cache_fits ks b position cache"
    and k: "\<And>k. prev = Some k \<Longrightarrow> key_ok ks c k"
  obtain n w where n: "ks_ok ks" "table_wf t" "index_key_size ks = Some n" "window_size (uniform_index ws) = Inr w" "2 \<le> w" "fixed_section n b (table_view t)"
    using uniform_fitsD [OF f] b(1) by metis
  show "\<exists>cache'. uniform_next_entry_unloaded (uniform_index ws) ks r prev d position cache = Some (Inr (next_of d prev (table_view t), cache'))
      \<and> uniform_cache_fits ks b position cache'"
    using uniform_scan_view [OF n(1,3,6) sm_wf_view [OF n(2)] b(2) n(4,5) _ k, where d = d] b(3) n(3)
    by (simp add: uniform_cache_fits_def index_element_size_def)
qed (simp add: uniform_cache_fits_def uniform_cache_ok_def split: option.split)

section \<open>The dispatching type\<close>

definition format_fits :: "index_format_type \<Rightarrow> key_space_desc \<Rightarrow> cell_id \<Rightarrow> index_table \<Rightarrow> bool" where
  "format_fits f = (case f of Header \<Rightarrow> header_fits | UniformFormat ws \<Rightarrow> uniform_fits ws)"

definition format_cache_ok :: "index_format_type \<Rightarrow> key_space_desc \<Rightarrow> bytes \<Rightarrow> wal_position \<Rightarrow> index_iter_cache option \<Rightarrow> bool" where
  "format_cache_ok f = (case f of Header \<Rightarrow> header_cache_ok | UniformFormat _ \<Rightarrow> uniform_cache_fits)"

lemmas format_defs = format_serialize_index_def format_deserialize_index_def format_lookup_unloaded_def
  format_next_entry_unloaded_def format_fits_def format_cache_ok_def

interpretation fmt: blob_format "format_serialize_index f" "format_deserialize_index f" "format_lookup_unloaded f"
  "format_next_entry_unloaded f" "format_fits f" "format_cache_ok f"
  for f
proof (cases f)
  case Header
  have "format_serialize_index f = header_serialize_index" "format_deserialize_index f = header_deserialize_index"
    "format_lookup_unloaded f = (\<lambda>ks r k. Some (header_lookup_unloaded ks r k))"
    "format_next_entry_unloaded f = (\<lambda>ks r prev d position cache. Some (header_next_entry_unloaded ks r prev d position cache))"
    "format_fits f = header_fits" "format_cache_ok f = header_cache_ok"
    using Header by (simp_all add: format_defs fun_eq_iff)
  then show "blob_format (format_serialize_index f) (format_deserialize_index f) (format_lookup_unloaded f)
      (format_next_entry_unloaded f) (format_fits f) (format_cache_ok f)"
    using header.blob_format_axioms by simp
next
  case (UniformFormat ws)
  have "format_serialize_index f = uniform_serialize_index" "format_deserialize_index f = uniform_deserialize_index"
    "format_lookup_unloaded f = uniform_lookup_unloaded (uniform_index ws)"
    "format_next_entry_unloaded f = uniform_next_entry_unloaded (uniform_index ws)"
    "format_fits f = uniform_fits ws" "format_cache_ok f = uniform_cache_fits"
    using UniformFormat by (simp_all add: format_defs fun_eq_iff)
  then show "blob_format (format_serialize_index f) (format_deserialize_index f) (format_lookup_unloaded f)
      (format_next_entry_unloaded f) (format_fits f) (format_cache_ok f)"
    using uniform.blob_format_axioms [of ws] by simp
qed

section \<open>Point reads through levels of blobs\<close>

fun first_hit :: "(random_read \<Rightarrow> wal_position option res option) \<Rightarrow> random_read list \<Rightarrow> wal_position option res option" where
  "first_hit look [] = Some (Inr None)"
| "first_hit look (reader # readers) =
     (case look reader of
        Some (Inr (Some pos)) \<Rightarrow> Some (Inr (if is_valid pos then Some pos else None))
      | Some (Inr None) \<Rightarrow> first_hit look readers
      | other \<Rightarrow> other)"

datatype get_result = Value bytes bytes | AtPosition wal_position | Missing

definition report_lookup_result :: "wal_position option \<Rightarrow> get_result" where
  "report_lookup_result r = (case r of Some pos \<Rightarrow> AtPosition pos | None \<Rightarrow> Missing)"

definition lookup_disk_levels :: "key_space_desc \<Rightarrow> random_read list \<Rightarrow> bytes \<Rightarrow> get_result res option" where
  "lookup_disk_levels ks readers k =
     map_option (\<lambda>r. bindr r (\<lambda>pos. Inr (report_lookup_result pos)))
       (first_hit (\<lambda>reader. format_lookup_unloaded (ks_index_format ks) ks reader k) readers)"

definition live_pos :: "wal_position option \<Rightarrow> wal_position option" where
  "live_pos r = (case r of Some p \<Rightarrow> if is_valid p then Some p else None | None \<Rightarrow> None)"

section \<open>Scan steps through levels of blobs\<close>

text \<open>The next entries of the levels, each with its cache slot.\<close>

fun level_candidates ::
    "(random_read \<Rightarrow> wal_position \<Rightarrow> index_iter_cache option \<Rightarrow> ((bytes \<times> wal_position) option \<times> index_iter_cache option) res option)
     \<Rightarrow> usize \<Rightarrow> (wal_position \<times> random_read) list \<Rightarrow> index_iter_caches
     \<Rightarrow> ((bytes \<times> wal_position) option list \<times> index_iter_caches) res option" where
  "level_candidates scan level_idx [] caches = Some (Inr ([], caches))"
| "level_candidates scan level_idx ((position, reader) # levels) caches =
     (let caches = slot_mut level_idx caches in
      case scan reader position (caches ! level_idx) of
        Some (Inr (e, slot)) \<Rightarrow>
          map_option (\<lambda>r. bindr r (\<lambda>(es, caches). Inr (e # es, caches)))
            (level_candidates scan (level_idx + 1) levels (caches[level_idx := slot]))
      | Some (Inl p) \<Rightarrow> Some (Inl p)
      | None \<Rightarrow> None)"

datatype walk_outcome = WalkFound bytes wal_position | Exhausted | WalkSkipDeleted bytes

record walk_plan =
  plan_data :: index_table
  level_positions :: "wal_position list"
  readers :: "random_read list"
  plan_sharded :: bool

definition walk_step :: "walk_plan \<Rightarrow> key_space_desc \<Rightarrow> bool \<Rightarrow> last_processed option \<Rightarrow> bytes option \<Rightarrow> index_iter_caches
    \<Rightarrow> (next_entry_result \<times> index_iter_caches) res option" where
  "walk_step plan ks reverse lp prev_key caches =
     (case (case lp of
              Some lp \<Rightarrow> next_entry_at (plan_data plan) prev_key reverse lp
            | None \<Rightarrow> next_entry (plan_data plan) prev_key reverse) of
        Inl p \<Rightarrow> Some (Inl p)
      | Inr in_memory_next \<Rightarrow>
          map_option (\<lambda>r. bindr r (\<lambda>(es, caches). Inr (merge_levels_next_entry (in_memory_next # es) (from_bool reverse), caches)))
            (level_candidates (\<lambda>reader position cache.
                format_next_entry_unloaded (ks_index_format ks) ks reader prev_key (from_bool reverse) position cache)
              0 (zip (level_positions plan) (readers plan)) caches))"

partial_function (option) execute_walk ::
    "walk_plan \<Rightarrow> key_space_desc \<Rightarrow> bytes option \<Rightarrow> bool \<Rightarrow> index_iter_caches \<Rightarrow> last_processed option
     \<Rightarrow> (walk_outcome \<times> index_iter_caches) res option" where
  "execute_walk plan ks prev_key reverse caches lp =
     (case walk_step plan ks reverse lp prev_key caches of
        None \<Rightarrow> None
      | Some (Inl p) \<Rightarrow> Some (Inl p)
      | Some (Inr (NotFound, caches)) \<Rightarrow> Some (Inr (Exhausted, caches))
      | Some (Inr (Found key val, caches)) \<Rightarrow> Some (Inr (WalkFound key val, caches))
      | Some (Inr (SkipDeleted skip_key, caches)) \<Rightarrow>
          if plan_sharded plan then Some (Inr (WalkSkipDeleted skip_key, caches))
          else execute_walk plan ks (Some skip_key) reverse caches lp)"

section \<open>Levels that hold tables\<close>

definition level_holds :: "key_space_desc \<Rightarrow> cell_id \<Rightarrow> random_read \<Rightarrow> index_table \<Rightarrow> bool" where
  "level_holds ks c r t \<longleftrightarrow> format_fits (ks_index_format ks) ks c t \<and> list_all (\<lambda>e. key_ok ks c (fst e)) (combined t)
     \<and> (case format_serialize_index (ks_index_format ks) t ks of Inr b \<Rightarrow> reads_as r b | Inl _ \<Rightarrow> False)"

lemma level_holdsD:
  assumes "level_holds ks c r t"
  obtains b where "format_fits (ks_index_format ks) ks c t" "format_serialize_index (ks_index_format ks) t ks = Inr b" "reads_as r b" "table_wf t"
  using assms fmt.fits_wf [of "ks_index_format ks" ks c t] that by (auto simp: level_holds_def split: sum.splits)

lemma level_views_wf: "list_all2 (level_holds ks c) rs ts \<Longrightarrow> list_all sm_wf (map table_view ts)"
proof (induction rs ts rule: list_all2_induct)
  case (Cons r rs t ts)
  obtain b where "table_wf t" using level_holdsD [OF Cons(1)] by metis
  then show ?case using Cons sm_wf_view by simp
qed simp

lemma first_hit_levels:
  assumes "list_all2 (level_holds ks c) rs ts" "key_ok ks c k"
  shows "first_hit (\<lambda>r. format_lookup_unloaded (ks_index_format ks) ks r k) rs
    = Some (Inr (live_pos (map_of (stacked (map table_view ts)) k)))"
  using assms(1)
proof (induction rs ts rule: list_all2_induct)
  case Nil
  then show ?case by (simp add: stacked_def live_pos_def)
next
  case (Cons r rs t ts)
  obtain b where b: "format_fits (ks_index_format ks) ks c t" "format_serialize_index (ks_index_format ks) t ks = Inr b" "reads_as r b" "table_wf t"
    using level_holdsD [OF Cons(1)] by metis
  have look: "format_lookup_unloaded (ks_index_format ks) ks r k = Some (Inr (map_of (table_view t) k))"
    by (rule fmt.looks [OF b(1-3) assms(2)])
  have "list_all sm_wf (map table_view (t # ts))" using level_views_wf [OF Cons(2)] sm_wf_view [OF b(4)] by simp
  from map_of_stacked_Cons [OF this [unfolded list.map], of k]
  show ?case using look Cons.IH by (auto simp: live_pos_def split: option.splits)
qed

text \<open>A walk visits the levels in order; the cache slot of each level holds a window of its blob.\<close>

definition caches_fit :: "key_space_desc \<Rightarrow> wal_position list \<Rightarrow> index_table list \<Rightarrow> usize \<Rightarrow> index_iter_caches \<Rightarrow> bool" where
  "caches_fit ks ps ts n caches \<longleftrightarrow> (\<forall>j b. j < length ts \<and> n + j < length caches \<and> format_serialize_index (ks_index_format ks) (ts ! j) ks = Inr b
     \<longrightarrow> format_cache_ok (ks_index_format ks) ks b (ps ! j) (caches ! (n + j)))"

lemma slot_mut_simps:
  "n < length (slot_mut n caches)" "length caches \<le> length (slot_mut n caches)"
  "j < length caches \<Longrightarrow> slot_mut n caches ! j = caches ! j"
  "\<not> j < length caches \<Longrightarrow> j < length (slot_mut n caches) \<Longrightarrow> slot_mut n caches ! j = None"
  by (auto simp: slot_mut_def nth_append)

lemma level_candidates_eq:
  assumes "list_all2 (level_holds ks c) rs ts" "length ps = length ts" "\<And>k. prev = Some k \<Longrightarrow> key_ok ks c k"
    and "caches_fit ks ps ts n caches"
  shows "\<exists>caches'. level_candidates (\<lambda>reader position cache.
        format_next_entry_unloaded (ks_index_format ks) ks reader prev d position cache) n (zip ps rs) caches
      = Some (Inr (map (\<lambda>t. next_of d prev (table_view t)) ts, caches'))
    \<and> caches_fit ks ps ts n caches' \<and> length caches \<le> length caches' \<and> (\<forall>j < n. j < length caches \<longrightarrow> caches' ! j = caches ! j)"
  using assms(1,2,4)
proof (induction rs ts arbitrary: ps n caches rule: list_all2_induct)
  case Nil
  then show ?case by (simp add: caches_fit_def)
next
  case (Cons r rs t ts)
  let ?f = "ks_index_format ks"
  obtain b where b: "format_fits ?f ks c t" "format_serialize_index ?f t ks = Inr b" "reads_as r b" "table_wf t"
    using level_holdsD [OF Cons(1)] by metis
  obtain p ps' where ps: "ps = p # ps'" "length ps' = length ts" using Cons.prems(1) by (cases ps) auto
  define ca where "ca = slot_mut n caches"
  have slot: "format_cache_ok ?f ks b p (ca ! n)"
  proof (cases "n < length caches")
    case True
    then show ?thesis
      using Cons.prems(2) b(2) ps slot_mut_simps(3) [OF True, of n] unfolding ca_def caches_fit_def by fastforce
  next
    case False
    then show ?thesis using fmt.no_cache slot_mut_simps(4) [OF False slot_mut_simps(1)] by (simp add: ca_def)
  qed
  obtain s' where s': "format_next_entry_unloaded ?f ks r prev d p (ca ! n) = Some (Inr (next_of d prev (table_view t), s'))"
      "format_cache_ok ?f ks b p s'"
    using fmt.scans [OF b(1-3) slot assms(3)] by blast
  have "caches_fit ks ps' ts (n + 1) (ca[n := s'])"
    unfolding caches_fit_def
  proof (intro allI impI)
    fix j b' assume j: "j < length ts \<and> n + 1 + j < length (ca[n := s']) \<and> format_serialize_index ?f (ts ! j) ks = Inr b'"
    show "format_cache_ok ?f ks b' (ps' ! j) (ca[n := s'] ! (n + 1 + j))"
    proof (cases "n + 1 + j < length caches")
      case True
      then have "format_cache_ok ?f ks b' (ps ! Suc j) (caches ! (n + Suc j))"
        using Cons.prems(2) [unfolded caches_fit_def, rule_format, of "Suc j" b'] j by simp
      then show ?thesis using slot_mut_simps(3) [OF True, of n] ps by (simp add: ca_def)
    next
      case False
      then show ?thesis using slot_mut_simps(4) [OF False] j fmt.no_cache by (simp add: ca_def)
    qed
  qed
  from Cons.IH [OF ps(2) this] obtain caches' where c': "level_candidates (\<lambda>reader position cache.
        format_next_entry_unloaded ?f ks reader prev d position cache) (n + 1) (zip ps' rs) (ca[n := s'])
      = Some (Inr (map (\<lambda>t. next_of d prev (table_view t)) ts, caches'))"
      "caches_fit ks ps' ts (n + 1) caches'" "length ca \<le> length caches'" "\<forall>j < n + 1. j < length ca \<longrightarrow> caches' ! j = ca[n := s'] ! j"
    by auto
  have "n < length ca" unfolding ca_def by (rule slot_mut_simps(1))
  then have n': "caches' ! n = s'" using c'(4) by simp
  have "caches_fit ks ps (t # ts) n caches'"
    unfolding caches_fit_def
  proof (intro allI impI)
    fix j b' assume j: "j < length (t # ts) \<and> n + j < length caches' \<and> format_serialize_index ?f ((t # ts) ! j) ks = Inr b'"
    then show "format_cache_ok ?f ks b' (ps ! j) (caches' ! (n + j))"
      using n' s'(2) b(2) ps c'(2) unfolding caches_fit_def by (cases j) auto
  qed
  moreover have "level_candidates (\<lambda>reader position cache. format_next_entry_unloaded ?f ks reader prev d position cache) n (zip ps (r # rs)) caches
      = Some (Inr (map (\<lambda>t. next_of d prev (table_view t)) (t # ts), caches'))"
    using s'(1) c'(1) ps by (simp add: ca_def Let_def)
  moreover have "length caches \<le> length caches'" using c'(3) slot_mut_simps(2) [of caches n] by (simp add: ca_def)
  moreover have "caches' ! j = caches ! j" if "j < n" "j < length caches" for j
    using that c'(4) slot_mut_simps(2) [of caches n] slot_mut_simps(3) [OF that(2), of n] by (simp add: ca_def)
  ultimately show ?case by blast
qed

section \<open>Walks\<close>

definition live_entries :: "(bytes, wal_position) smap \<Rightarrow> (bytes, wal_position) smap" where
  "live_entries m = filter (\<lambda>e. is_valid (snd e)) m"

lemma sm_wf_live: "sm_wf m \<Longrightarrow> sm_wf (live_entries m)"
  by (simp add: live_entries_def sm_wf_filter)

lemma after_filter:
  "sm_after prev m = filter (\<lambda>e. beyond False prev (fst e)) m" "sm_before prev m = filter (\<lambda>e. beyond True prev (fst e)) m"
  by (cases prev; simp add: sm_after_def sm_before_def beyond_def)+

lemma next_of_cong:
  assumes "\<And>e. e \<in> set m \<Longrightarrow> beyond (d = Backward) a (fst e) \<longleftrightarrow> beyond (d = Backward) b (fst e)"
  shows "next_of d a m = next_of d b m"
  using assms by (cases d) (auto simp: next_of_def after_filter intro!: arg_cong [where f = first_of] arg_cong [where f = last_of] filter_cong)

text \<open>Stepping past a tombstone loses no live entry and leaves fewer entries ahead.\<close>

lemma next_live:
  assumes "sm_wf m"
  shows "next_of d prev m = None \<Longrightarrow> next_of d prev (live_entries m) = None"
    and "next_of d prev m = Some (k, p) \<Longrightarrow> is_valid p \<Longrightarrow> next_of d prev (live_entries m) = Some (k, p)"
    and "next_of d prev m = Some (k, p) \<Longrightarrow> \<not> is_valid p \<Longrightarrow> next_of d (Some k) (live_entries m) = next_of d prev (live_entries m)"
    and "next_of d prev m = Some (k, p) \<Longrightarrow>
      length (filter (\<lambda>e. past d (Some k) (fst e)) m) < length (filter (\<lambda>e. past d prev (fst e)) m)"
proof -
  note wl = sm_wf_live [OF assms]
  show "next_of d prev m = None \<Longrightarrow> next_of d prev (live_entries m) = None"
    unfolding next_of_None by (simp add: live_entries_def)
  show "next_of d prev m = Some (k, p) \<Longrightarrow> is_valid p \<Longrightarrow> next_of d prev (live_entries m) = Some (k, p)"
    unfolding next_of_Some [OF assms] next_of_Some [OF wl] by (simp add: live_entries_def del: split_paired_All)
next
  assume n: "next_of d prev m = Some (k, p)"
  then have kp: "(k, p) \<in> set m" "past d prev k" "\<And>e. e \<in> set m \<Longrightarrow> past d prev (fst e) \<Longrightarrow> (if d = Backward then fst e \<le> k else k \<le> fst e)"
    unfolding next_of_Some [OF assms] by blast+
  have imp: "past d (Some k) x \<Longrightarrow> past d prev x" for x
    using kp(2) by (cases d; cases prev) (auto simp: beyond_def)
  have ahead: "past d (Some k) (fst e)" if "e \<in> set m" "past d prev (fst e)" "e \<noteq> (k, p)" for e
  proof -
    have "fst e \<noteq> k" using that(1,3) kp(1) sm_wf_distinct [OF assms] by (metis eq_key_imp_eq_value prod.collapse)
    then show ?thesis using kp(3) [OF that(1,2)] by (cases d) (auto simp: beyond_def)
  qed
  show "length (filter (\<lambda>e. past d (Some k) (fst e)) m) < length (filter (\<lambda>e. past d prev (fst e)) m)"
  proof -
    have "filter (\<lambda>e. past d (Some k) (fst e)) m = filter (\<lambda>e. past d (Some k) (fst e)) (filter (\<lambda>e. past d prev (fst e)) m)"
      using imp by (auto intro!: filter_cong)
    moreover have "(k, p) \<in> set (filter (\<lambda>e. past d prev (fst e)) m)" using kp(1,2) by simp
    moreover have "\<not> past d (Some k) (fst (k, p))" by (simp add: beyond_def)
    ultimately show ?thesis by (metis length_filter_less)
  qed
  assume "\<not> is_valid p"
  then have same: "past d (Some k) (fst e) \<longleftrightarrow> past d prev (fst e)" if "e \<in> set (live_entries m)" for e
    using that ahead [of e] imp [of "fst e"] by (cases "e = (k, p)") (auto simp: live_entries_def)
  show "next_of d (Some k) (live_entries m) = next_of d prev (live_entries m)"
    by (rule next_of_cong) (rule same)
qed

definition plan_view :: "walk_plan \<Rightarrow> last_processed option \<Rightarrow> (bytes, wal_position) smap" where
  "plan_view plan lp = (case lp of None \<Rightarrow> table_view (plan_data plan) | Some lp \<Rightarrow> map observed (combined_at (plan_data plan) lp))"

text \<open>The plan of a walk: a table in memory over blobs that hold tables, with the keys of one cell.\<close>

definition plan_holds :: "key_space_desc \<Rightarrow> cell_id \<Rightarrow> walk_plan \<Rightarrow> index_table list \<Rightarrow> bool" where
  "plan_holds ks c plan ts \<longleftrightarrow> table_wf (plan_data plan) \<and> list_all (\<lambda>e. key_ok ks c (fst e)) (flat_entries (plan_data plan))
     \<and> list_all (\<lambda>e. key_ok ks c (fst e)) (data (plan_data plan))
     \<and> length (level_positions plan) = length ts \<and> list_all2 (level_holds ks c) (readers plan) ts"

definition walked :: "walk_plan \<Rightarrow> last_processed option \<Rightarrow> index_table list \<Rightarrow> (bytes, wal_position) smap" where
  "walked plan lp ts = stacked (plan_view plan lp # map table_view ts)"

lemma from_bool_simps [simp]: "from_bool True = Backward" "from_bool False = Forward" "(from_bool r = Backward) = r"
  by (simp_all add: from_bool_def)

lemma combined_at_wf: "table_wf t \<Longrightarrow> sm_wf (combined_at t lp)"
  by (simp add: table_wf_def flat_wf_def overlay_ok_def combined_at_def sm_wf_merge_over sm_wf_latest_at)

lemma view_next_at:
  "table_wf t \<Longrightarrow> next_entry_at t prev (d = Backward) lp = Inr (next_of d prev (map observed (combined_at t lp)))"
  unfolding next_entry_at_wf by (cases d) (simp_all add: next_of_def after_observed)

lemma walked_wf: "plan_holds ks c plan ts \<Longrightarrow> sm_wf (walked plan lp ts)"
  unfolding walked_def plan_holds_def
  by (intro stacked_wf) (auto simp: plan_view_def sm_wf_view combined_at_wf dest!: level_views_wf split: option.split)

lemma set_stacked: "e \<in> set (stacked ls) \<Longrightarrow> \<exists>l \<in> set ls. fst e \<in> fst ` set l"
proof (induction ls)
  case (Cons l ls)
  then show ?case
    using set_merge_over_key [of e "stacked ls" l] by (fastforce simp: stacked_def)
qed (simp add: stacked_def)

lemma walked_key_ok:
  assumes "plan_holds ks c plan ts" "e \<in> set (walked plan lp ts)"
  shows "key_ok ks c (fst e)"
proof -
  have in_mem: "key_ok ks c (fst x)" if "x \<in> set (plan_view plan lp)" for x
    using that assms(1) set_merge_over_key [of _ "flat_entries (plan_data plan)"] set_latest_at [of _ _ "data (plan_data plan)"]
    by (fastforce simp: plan_view_def table_view_def plan_holds_def combined_def combined_at_def latest_def observed_def list_all_iff split: option.splits)
  have below: "key_ok ks c (fst x)" if "x \<in> set (table_view t)" "t \<in> set ts" for x t
  proof -
    obtain r where "level_holds ks c r t" using assms(1) \<open>t \<in> set ts\<close> by (auto simp: plan_holds_def list_all2_conv_all_nth in_set_conv_nth)
    then show ?thesis using that(1) by (auto simp: level_holds_def list_all_iff table_view_def observed_def)
  qed
  show ?thesis using set_stacked [OF assms(2) [unfolded walked_def]] in_mem below by fastforce
qed

text \<open>One step of a walk.\<close>

lemma walk_step_eq:
  assumes "plan_holds ks c plan ts" "\<And>k. prev = Some k \<Longrightarrow> key_ok ks c k" "caches_fit ks (level_positions plan) ts 0 caches"
  shows "\<exists>caches'. walk_step plan ks (d = Backward) lp prev caches = Some (Inr
      (case next_of d prev (walked plan lp ts) of
         None \<Rightarrow> NotFound
       | Some (k, p) \<Rightarrow> if is_valid p then Found k p else SkipDeleted k, caches'))
    \<and> caches_fit ks (level_positions plan) ts 0 caches'"
proof -
  have pl: "table_wf (plan_data plan)" "length (level_positions plan) = length ts" "list_all2 (level_holds ks c) (readers plan) ts"
    using assms(1) by (simp_all add: plan_holds_def)
  have mem: "(case lp of Some lp \<Rightarrow> next_entry_at (plan_data plan) prev (d = Backward) lp
      | None \<Rightarrow> next_entry (plan_data plan) prev (d = Backward)) = Inr (next_of d prev (plan_view plan lp))"
    by (simp add: plan_view_def view_next [OF pl(1)] view_next_at [OF pl(1)] split: option.split)
  have fd: "from_bool (d = Backward) = d" by (cases d) (simp_all add: from_bool_def)
  have "list_all sm_wf (plan_view plan lp # map table_view ts)"
    using level_views_wf [OF pl(3)] sm_wf_view [OF pl(1)] combined_at_wf [OF pl(1)] by (simp add: plan_view_def split: option.split)
  from merge_levels_stacked [OF this, of d prev] show ?thesis
    using level_candidates_eq [OF pl(3,2) assms(2,3), where d = d and prev = prev] mem
    by (fastforce simp: walk_step_def fd walked_def comp_def)
qed

text \<open>What a walk reports: outside a sharded cell the nearest live entry; in a sharded cell the nearest
  entry, so that the caller can pick the next shard.\<close>

definition walk_spec :: "bool \<Rightarrow> (bytes \<times> wal_position) option \<Rightarrow> (bytes \<times> wal_position) option \<Rightarrow> walk_outcome" where
  "walk_spec sharded nearest nearest_live =
     (case if sharded then nearest else nearest_live of
        None \<Rightarrow> Exhausted
      | Some (k, p) \<Rightarrow> if is_valid p then WalkFound k p else WalkSkipDeleted k)"

lemma execute_walk_eq:
  assumes "plan_holds ks c plan ts"
  shows "\<lbrakk>\<And>k. prev = Some k \<Longrightarrow> key_ok ks c k; caches_fit ks (level_positions plan) ts 0 caches\<rbrakk> \<Longrightarrow>
    \<exists>caches'. execute_walk plan ks prev (d = Backward) caches lp = Some (Inr
        (walk_spec (plan_sharded plan) (next_of d prev (walked plan lp ts)) (next_of d prev (live_entries (walked plan lp ts))), caches'))
      \<and> caches_fit ks (level_positions plan) ts 0 caches'"
proof (induction "length (filter (\<lambda>e. past d prev (fst e)) (walked plan lp ts))" arbitrary: prev caches rule: less_induct)
  case less
  let ?m = "walked plan lp ts"
  note nl = next_live [OF walked_wf [OF assms], of d prev lp]
  obtain caches' where step: "walk_step plan ks (d = Backward) lp prev caches = Some (Inr
      (case next_of d prev ?m of None \<Rightarrow> NotFound | Some (k, p) \<Rightarrow> if is_valid p then Found k p else SkipDeleted k, caches'))"
    and fit: "caches_fit ks (level_positions plan) ts 0 caches'"
    using walk_step_eq [OF assms less.prems] by blast
  show ?case
  proof (cases "next_of d prev ?m")
    case None
    then show ?thesis
      using step fit nl(1) by (subst execute_walk.simps) (auto simp: walk_spec_def)
  next
    case (Some e)
    then obtain k p where n: "next_of d prev ?m = Some (k, p)" by (cases e) simp
    consider "is_valid p" | "\<not> is_valid p" "plan_sharded plan" | "\<not> is_valid p" "\<not> plan_sharded plan" by blast
    then show ?thesis
    proof cases
      case 1
      then show ?thesis using step fit n nl(2) [OF n] by (subst execute_walk.simps) (auto simp: walk_spec_def)
    next
      case 2
      then show ?thesis using step fit n by (subst execute_walk.simps) (auto simp: walk_spec_def)
    next
      case 3
      have "(k, p) \<in> set ?m" using n unfolding next_of_Some [OF walked_wf [OF assms]] by blast
      then have "key_ok ks c k" using walked_key_ok [OF assms, of "(k, p)"] by simp
      then have "\<exists>caches''. execute_walk plan ks (Some k) (d = Backward) caches' lp = Some (Inr
          (walk_spec (plan_sharded plan) (next_of d (Some k) ?m) (next_of d (Some k) (live_entries ?m)), caches''))
        \<and> caches_fit ks (level_positions plan) ts 0 caches''"
        using less.hyps [OF nl(4) [OF n] _ fit] by simp
      then show ?thesis using 3 step n nl(3) [OF n 3(1)] by (subst execute_walk.simps) (auto simp: walk_spec_def)
    qed
  qed
qed

section \<open>Properties\<close>

definition demo_lower :: index_table where
  "demo_lower = \<lparr>data = [([3, 0, 0, 0, 0, 9], [IWP 4 9 Modified])], key_bytes = 6, dirty_count = 1, flat = [], key_size = None\<rparr>"

lemma demo_lower_combined: "combined demo_lower = [([3, 0, 0, 0, 0, 9], IWP 4 9 Modified)]"
proof -
  have "flat_entries demo_lower = []"
    by (simp add: demo_lower_def flat_entries_def flat_items_def flat_iter_new_def flat_collect.simps)
  then show ?thesis by (simp add: combined_def demo_lower_def latest_def)
qed

lemma demo_format: "ks_index_format demo_uniform = Header"
  by (simp add: ks_index_format_def demo_uniform_def config_default_def)

lemma demo_lower_storable: "header_storable demo_uniform (Integer 1) demo_lower"
proof -
  have "storable demo_uniform demo_lower"
    unfolding storable_def demo_lower_combined demo_sizes
    by (simp add: key_fits_def demo_sizes pos_ok_def into_wal_position_def MAX_U16_VARINT_def
        flat_ok_def reload_def observed_def len_ok_def from_disk_def new_clean_def WAL_INVALID_def)
  moreover have "table_wf demo_lower"
    by (simp add: table_wf_def overlay_ok_def flat_wf_def demo_lower_def positions_ok_def
      flat_entries_def flat_items_def flat_iter_new_def flat_collect.simps flat_view_def flat_count_def flat_ok_def)
  ultimately show ?thesis
    using demo_ok(1) demo_cells
    by (simp add: header_storable_def demo_lower_combined in_cell_def HEADER_SIZE_def HEADER_ELEMENTS_def HEADER_ELEMENT_SIZE_def)
qed

lemma demo_level_holds:
  "header_storable demo_uniform (Integer 1) t \<Longrightarrow> list_all (\<lambda>e. key_ok demo_uniform (Integer 1) (fst e)) (combined t) \<Longrightarrow>
     \<exists>b. level_holds demo_uniform (Integer 1) (MemRead b) t"
  using header_blob [of demo_uniform "Integer 1" t] reads_mem
  by (fastforce simp: level_holds_def demo_format format_defs header_fits_def demo_sizes)

lemma demo_levels:
  "\<exists>b. level_holds demo_uniform (Integer 1) (MemRead b) demo_cell_table"
  "\<exists>b. level_holds demo_uniform (Integer 1) (MemRead b) demo_lower"
  using demo_level_holds [OF demo_storable(1)] demo_level_holds [OF demo_lower_storable] demo_key_ok(1)
  by (simp_all add: demo_combined demo_lower_combined)





end
