(* ===== verification/Wal_Entry.thy ===== *)
theory Wal_Entry
  imports Key_Shape
begin

text \<open>
  The entries of the log (\<open>WalEntry\<close> in \<open>tidehunter/src/db.rs\<close>) and the body of a compressed batch
  (\<open>tidehunter/src/compressed_batch.rs\<close>): their encoding, and the search for a record in a batch. The
  compressor of the \<open>lz4_flex\<close> crate is a parameter.
\<close>

datatype batch_codec = Lz4

definition codec_byte :: "batch_codec \<Rightarrow> u8" where
  "codec_byte c = (case c of Lz4 \<Rightarrow> 1)"

definition codec_from_u8 :: "u8 \<Rightarrow> batch_codec res" where
  "codec_from_u8 v = (if v = 1 then Inr Lz4 else Inl ExplicitPanic)"

datatype wal_entry =
    Record key_space bytes bytes bool
  | Index key_space bytes
  | Remove key_space bytes
  | BatchStart u32
  | DropCells key_space cell_id cell_id
  | CompressedBatch batch_codec u32 bytes

definition WAL_ENTRY_RECORD :: u8 where "WAL_ENTRY_RECORD = 1"
definition WAL_ENTRY_INDEX :: u8 where "WAL_ENTRY_INDEX = 2"
definition WAL_ENTRY_REMOVE :: u8 where "WAL_ENTRY_REMOVE = 3"
definition WAL_ENTRY_BATCH_START :: u8 where "WAL_ENTRY_BATCH_START = 4"
definition WAL_ENTRY_RELOCATED_RECORD :: u8 where "WAL_ENTRY_RELOCATED_RECORD = 5"
definition WAL_ENTRY_DROP_CELLS :: u8 where "WAL_ENTRY_DROP_CELLS = 6"
definition WAL_ENTRY_COMPRESSED_BATCH :: u8 where "WAL_ENTRY_COMPRESSED_BATCH = 7"
definition INDEX_PREFIX_SIZE :: usize where "INDEX_PREFIX_SIZE = 2"

lemmas entry_types = WAL_ENTRY_RECORD_def WAL_ENTRY_INDEX_def WAL_ENTRY_REMOVE_def WAL_ENTRY_BATCH_START_def
  WAL_ENTRY_RELOCATED_RECORD_def WAL_ENTRY_DROP_CELLS_def WAL_ENTRY_COMPRESSED_BATCH_def

definition wal_entry_from_bytes :: "bytes \<Rightarrow> wal_entry res" where
  "wal_entry_from_bytes bytes =
     bindr (get_u8 bytes) (\<lambda>(entry_type, b).
       if entry_type = WAL_ENTRY_RECORD \<or> entry_type = WAL_ENTRY_RELOCATED_RECORD then
         bindr (get_u8 b) (\<lambda>(ks, b).
         bindr (get_u16 b) (\<lambda>(key_len, b).
         bindr (slice_r bytes 4 (4 + unat key_len)) (\<lambda>k.
         bindr (slice_r bytes (4 + unat key_len) (length bytes)) (\<lambda>v.
           Inr (Record ks k v (entry_type = WAL_ENTRY_RELOCATED_RECORD))))))
       else if entry_type = WAL_ENTRY_INDEX then
         bindr (get_u8 b) (\<lambda>(ks, b). bindr (slice_r bytes 2 (length bytes)) (\<lambda>s. Inr (Index ks s)))
       else if entry_type = WAL_ENTRY_REMOVE then
         bindr (get_u8 b) (\<lambda>(ks, b). bindr (slice_r bytes 2 (length bytes)) (\<lambda>s. Inr (Remove ks s)))
       else if entry_type = WAL_ENTRY_BATCH_START then
         bindr (get_u32 b) (\<lambda>(n, b). Inr (BatchStart n))
       else if entry_type = WAL_ENTRY_DROP_CELLS then
         bindr (get_u8 b) (\<lambda>(ks, b).
         bindr (cell_from_bytes b) (\<lambda>(from_cell, b).
         bindr (cell_from_bytes b) (\<lambda>(to_cell, b). Inr (DropCells ks from_cell to_cell))))
       else if entry_type = WAL_ENTRY_COMPRESSED_BATCH then
         bindr (get_u8 b) (\<lambda>(c, b).
         bindr (codec_from_u8 c) (\<lambda>cdc.
         bindr (get_u32 b) (\<lambda>(uncompressed_len, b).
         bindr (slice_r bytes (1 + 1 + 4) (length bytes)) (\<lambda>body. Inr (CompressedBatch cdc uncompressed_len body)))))
       else Inl ExplicitPanic)"

definition record_len :: "bytes \<Rightarrow> bytes \<Rightarrow> usize" where
  "record_len k v = 1 + 1 + 2 + length k + length v"

fun wal_entry_len :: "wal_entry \<Rightarrow> usize" where
  "wal_entry_len (Record ks k v relocated) = record_len k v"
| "wal_entry_len (Index ks index) = 1 + 1 + length index"
| "wal_entry_len (Remove ks k) = 1 + 1 + length k"
| "wal_entry_len (BatchStart n) = 1 + 4"
| "wal_entry_len (DropCells ks from_cell to_cell) = 1 + 1 + cell_len from_cell + cell_len to_cell"
| "wal_entry_len (CompressedBatch cdc n body) = 1 + 1 + 4 + length body"

fun wal_entry_write_into_bytes :: "wal_entry \<Rightarrow> bytes res" where
  "wal_entry_write_into_bytes (Record ks k v relocated) =
     Inr ([if relocated then WAL_ENTRY_RELOCATED_RECORD else WAL_ENTRY_RECORD, ks] @ put_u16 (of_nat (length k)) @ k @ v)"
| "wal_entry_write_into_bytes (Index ks b) = Inr ([WAL_ENTRY_INDEX, ks] @ b)"
| "wal_entry_write_into_bytes (Remove ks k) = Inr ([WAL_ENTRY_REMOVE, ks] @ k)"
| "wal_entry_write_into_bytes (BatchStart n) = Inr ([WAL_ENTRY_BATCH_START] @ put_u32 n)"
| "wal_entry_write_into_bytes (DropCells ks from_cell to_cell) =
     bindr (cell_write_into_bytes from_cell) (\<lambda>f. bindr (cell_write_into_bytes to_cell) (\<lambda>t. Inr ([WAL_ENTRY_DROP_CELLS, ks] @ f @ t)))"
| "wal_entry_write_into_bytes (CompressedBatch cdc n body) =
     Inr ([WAL_ENTRY_COMPRESSED_BATCH, codec_byte cdc] @ put_u32 n @ body)"

section \<open>Compressed batches\<close>

record compressed_batch =
  cb_codec :: batch_codec
  cb_uncompressed_len :: u32
  cb_body :: bytes

definition inner_frame :: "wal_entry \<Rightarrow> bytes res" where
  "inner_frame e = bindr (wal_entry_write_into_bytes e) (\<lambda>b. Inr (put_u32 (of_nat (wal_entry_len e)) @ b))"

definition batch_encode :: "(bytes \<Rightarrow> bytes) \<Rightarrow> wal_entry list \<Rightarrow> batch_codec \<Rightarrow> compressed_batch res" where
  "batch_encode compress entries cdc =
     bindr (traverse inner_frame entries) (\<lambda>frames.
       let raw_body = put_u32 (of_nat (length entries)) @ concat frames in
       Inr \<lparr>cb_codec = cdc, cb_uncompressed_len = of_nat (length raw_body),
            cb_body = (case cdc of Lz4 \<Rightarrow> compress raw_body)\<rparr>)"

definition batch_decompress :: "(bytes \<Rightarrow> usize \<Rightarrow> bytes option) \<Rightarrow> compressed_batch \<Rightarrow> bytes res" where
  "batch_decompress decompress cb =
     (case cb_codec cb of Lz4 \<Rightarrow> expectr (decompress (cb_body cb) (unat (cb_uncompressed_len cb))))"

definition decompress_wal_entry :: "(bytes \<Rightarrow> usize \<Rightarrow> bytes option) \<Rightarrow> wal_entry \<Rightarrow> bytes option res" where
  "decompress_wal_entry decompress entry =
     (case entry of
        CompressedBatch cdc n body \<Rightarrow>
          bindr (batch_decompress decompress \<lparr>cb_codec = cdc, cb_uncompressed_len = n, cb_body = body\<rparr>) (\<lambda>b. Inr (Some b))
      | _ \<Rightarrow> Inr None)"

record inner_iter =
  ii_data :: bytes
  ii_offset :: usize
  ii_remaining :: u32

definition inner_iter_new :: "bytes \<Rightarrow> inner_iter res" where
  "inner_iter_new decompressed =
     bindr (get_u32 decompressed) (\<lambda>(count, _). Inr \<lparr>ii_data = decompressed, ii_offset = 4, ii_remaining = count\<rparr>)"

definition inner_iter_next :: "inner_iter \<Rightarrow> (inner_iter \<times> wal_entry option) res" where
  "inner_iter_next it =
     (if ii_remaining it = 0 then Inr (it, None)
      else
        bindr (slice_r (ii_data it) (ii_offset it) (length (ii_data it))) (\<lambda>hdr.
        bindr (get_u32 hdr) (\<lambda>(entry_len, _).
          let entry_start = ii_offset it + 4;
              entry_end = entry_start + unat entry_len
          in bindr (slice_r (ii_data it) entry_start entry_end) (\<lambda>entry_bytes.
             bindr (wal_entry_from_bytes entry_bytes) (\<lambda>e.
               Inr (it\<lparr>ii_offset := entry_end, ii_remaining := ii_remaining it - 1\<rparr>, Some e))))))"

text \<open>Driving the iterator: at most \<open>n\<close> entries, all of them when \<open>n\<close> exceeds the count of the batch.\<close>

fun inner_collect :: "nat \<Rightarrow> inner_iter \<Rightarrow> wal_entry list res" where
  "inner_collect 0 it = Inr []"
| "inner_collect (Suc n) it =
     bindr (inner_iter_next it) (\<lambda>(it, e).
       case e of None \<Rightarrow> Inr [] | Some e \<Rightarrow> bindr (inner_collect n it) (\<lambda>es. Inr (e # es)))"

fun find_in :: "nat \<Rightarrow> inner_iter \<Rightarrow> key_space \<Rightarrow> (bytes \<Rightarrow> bool) \<Rightarrow> (bytes \<times> bytes) option res" where
  "find_in 0 it target_ks matches = Inr None"
| "find_in (Suc n) it target_ks matches =
     bindr (inner_iter_next it) (\<lambda>(it, e).
       case e of
         None \<Rightarrow> Inr None
       | Some (Record ks key val _) \<Rightarrow>
           if ks = target_ks \<and> matches key then Inr (Some (key, val)) else find_in n it target_ks matches
       | Some _ \<Rightarrow> find_in n it target_ks matches)"

definition find_record_by :: "bytes \<Rightarrow> key_space \<Rightarrow> (bytes \<Rightarrow> bool) \<Rightarrow> (bytes \<times> bytes) option res" where
  "find_record_by decompressed target_ks matches =
     bindr (inner_iter_new decompressed) (\<lambda>it. find_in (Suc (unat (ii_remaining it))) it target_ks matches)"

definition find_record :: "bytes \<Rightarrow> key_space \<Rightarrow> bytes \<Rightarrow> bytes option res" where
  "find_record decompressed target_ks target_key =
     bindr (find_record_by decompressed target_ks (\<lambda>k. k = target_key)) (\<lambda>r. Inr (map_option snd r))"

section \<open>Round trips\<close>

text \<open>The entries the encoding can represent: keys whose length fits a \<open>u16\<close>, and cells that can be written.\<close>

fun wal_entry_ok :: "wal_entry \<Rightarrow> bool" where
  "wal_entry_ok (Record ks k v relocated) \<longleftrightarrow> length k < 2 ^ 16"
| "wal_entry_ok (DropCells ks from_cell to_cell) \<longleftrightarrow> cell_ok from_cell \<and> cell_ok to_cell"
| "wal_entry_ok _ \<longleftrightarrow> True"

definition entry_bytes :: "wal_entry \<Rightarrow> bytes" where
  "entry_bytes e = (case wal_entry_write_into_bytes e of Inl _ \<Rightarrow> [] | Inr b \<Rightarrow> b)"

lemma entry_write_ok: "wal_entry_ok e \<Longrightarrow> wal_entry_write_into_bytes e = Inr (entry_bytes e)"
  by (cases e) (simp_all add: entry_bytes_def cell_write_ok)

lemma length_entry: "wal_entry_ok e \<Longrightarrow> length (entry_bytes e) = wal_entry_len e"
  by (cases e) (simp_all add: entry_bytes_def record_len_def cell_write_ok length_cell_bytes)

lemma entry_roundtrip:
  assumes "wal_entry_ok e"
  shows "wal_entry_from_bytes (entry_bytes e) = Inr e"
proof (cases e)
  case (Record ks k v r)
  have "unat (of_nat (length k) :: u16) = length k" using assms Record by (simp add: unat_of_nat)
  then show ?thesis
    using Record by (cases r) (simp_all add: wal_entry_from_bytes_def entry_bytes_def entry_types slice_r_def drop_Cons')
next
  case (DropCells ks a b)
  then show ?thesis
    using assms cell_from_write [of a "cell_bytes b"] cell_from_write [of b "[]"]
    by (simp add: wal_entry_from_bytes_def entry_bytes_def entry_types cell_write_ok)
next
  case (CompressedBatch c n body)
  then show ?thesis
    by (cases c) (simp add: wal_entry_from_bytes_def entry_bytes_def entry_types slice_r_def codec_byte_def codec_from_u8_def)
qed (simp_all add: wal_entry_from_bytes_def entry_bytes_def entry_types slice_r_def get_put(2) [of _ "[]", simplified])

text \<open>The inner frames of a batch, walked by the iterator.\<close>

definition frame_bytes :: "wal_entry \<Rightarrow> bytes" where
  "frame_bytes e = put_u32 (of_nat (wal_entry_len e)) @ entry_bytes e"

definition inner_ok :: "wal_entry \<Rightarrow> bool" where
  "inner_ok e \<longleftrightarrow> wal_entry_ok e \<and> wal_entry_len e < 2 ^ 32"

lemma inner_next_step:
  assumes "inner_ok e" "n < 2 ^ 32 - 1"
  shows "inner_iter_next \<lparr>ii_data = pre @ frame_bytes e @ post, ii_offset = length pre, ii_remaining = of_nat (Suc n)\<rparr>
    = Inr (\<lparr>ii_data = (pre @ frame_bytes e) @ post, ii_offset = length (pre @ frame_bytes e), ii_remaining = of_nat n\<rparr>, Some e)"
proof -
  have e: "wal_entry_ok e" "unat (of_nat (wal_entry_len e) :: u32) = wal_entry_len e"
    using assms(1) by (simp_all add: inner_ok_def unat_of_nat)
  have "unat (of_nat (Suc n) :: u32) = Suc n" using assms(2) by (simp only: unat_of_nat) simp
  then have nz: "(of_nat (Suc n) :: u32) \<noteq> 0" by (metis nat.distinct(1) unat_0)
  have "slice_r (pre @ frame_bytes e @ post) (length pre + 4) (length pre + 4 + wal_entry_len e) = Inr (entry_bytes e)"
    using slice_r_middle [of "length pre + 4" "pre @ put_u32 (of_nat (wal_entry_len e))" "length pre + 4 + wal_entry_len e" "entry_bytes e" post]
      length_entry [OF e(1)] by (simp add: frame_bytes_def)
  moreover have "slice_r (pre @ frame_bytes e @ post) (length pre) (length (pre @ frame_bytes e @ post)) = Inr (frame_bytes e @ post)"
    by (simp add: slice_r_def)
  moreover have "get_u32 (frame_bytes e @ post) = Inr (of_nat (wal_entry_len e), entry_bytes e @ post)" by (simp add: frame_bytes_def)
  ultimately show ?thesis
    using nz e entry_roundtrip [OF e(1)] length_entry [OF e(1)] by (simp add: inner_iter_next_def frame_bytes_def)
qed

lemma inner_walk:
  assumes "list_all inner_ok es" "length es < 2 ^ 32"
  shows "inner_collect (Suc (length es)) \<lparr>ii_data = pre @ concat (map frame_bytes es), ii_offset = length pre, ii_remaining = of_nat (length es)\<rparr> = Inr es"
    "find_in (Suc (length es)) \<lparr>ii_data = pre @ concat (map frame_bytes es), ii_offset = length pre, ii_remaining = of_nat (length es)\<rparr> ks matches
      = Inr (case find (\<lambda>e. case e of Record ks' k _ _ \<Rightarrow> ks' = ks \<and> matches k | _ \<Rightarrow> False) es of
          Some (Record _ k v _) \<Rightarrow> Some (k, v) | _ \<Rightarrow> None)"
  using assms
proof (induction es arbitrary: pre)
  case Nil
  {
    case 1
    show ?case by (simp add: inner_iter_next_def)
  next
    case 2
    show ?case by (simp add: inner_iter_next_def)
  }
next
  case (Cons e es)
  have e: "inner_ok e" "length es < 2 ^ 32 - 1" if "list_all inner_ok (e # es)" "length (e # es) < 2 ^ 32" using that by simp_all
  {
    case 1
    from inner_next_step [OF e [OF 1], of pre "concat (map frame_bytes es)"] Cons.IH(1) [of "pre @ frame_bytes e"] 1
    show ?case by (subst inner_collect.simps(2)) simp
  next
    case 2
    from inner_next_step [OF e [OF 2], of pre "concat (map frame_bytes es)"] Cons.IH(2) [of "pre @ frame_bytes e"] 2
    show ?case by (subst find_in.simps(2)) (simp split: wal_entry.split)
  }
qed

lemma batch_encode_eq:
  assumes "list_all inner_ok es"
  shows "batch_encode compress es cdc = Inr \<lparr>cb_codec = cdc,
      cb_uncompressed_len = of_nat (length (put_u32 (of_nat (length es)) @ concat (map frame_bytes es))),
      cb_body = compress (put_u32 (of_nat (length es)) @ concat (map frame_bytes es))\<rparr>"
proof -
  have "traverse inner_frame es = Inr (map frame_bytes es)"
    using assms by (intro traverse_Inr) (auto simp: inner_frame_def list_all_iff inner_ok_def entry_write_ok frame_bytes_def)
  then show ?thesis by (cases cdc) (simp add: batch_encode_def)
qed

section \<open>Properties\<close>

text \<open>C37. Entries of the log and batches survive their encoding: an entry decodes to itself; a compressed
  batch, written as one entry, decompresses to a body that iterates to exactly the entries of the
  batch, in order, and in which a search finds the first record of the key space whose key matches.
  The compressor has to invert its own output given its length.\<close>

theorem batch_roundtrip:
  assumes "\<And>b. decompress (compress b) (length b) = Some b"
    and "list_all inner_ok es" "length (put_u32 (of_nat (length es)) @ concat (map frame_bytes es)) < 2 ^ 32" "wal_entry_ok e"
  shows "wal_entry_from_bytes (entry_bytes e) = Inr e
    \<and> (\<exists>cb body it. batch_encode compress es cdc = Inr cb
        \<and> bindr (wal_entry_write_into_bytes (CompressedBatch (cb_codec cb) (cb_uncompressed_len cb) (cb_body cb)))
            (\<lambda>b. bindr (wal_entry_from_bytes b) (decompress_wal_entry decompress)) = Inr (Some body)
        \<and> inner_iter_new body = Inr it \<and> inner_collect (Suc (length es)) it = Inr es
        \<and> find_record_by body ks matches
          = Inr (case find (\<lambda>e. case e of Record ks' k _ _ \<Rightarrow> ks' = ks \<and> matches k | _ \<Rightarrow> False) es of
              Some (Record _ k v _) \<Rightarrow> Some (k, v) | _ \<Rightarrow> None))"
proof -
  let ?body = "put_u32 (of_nat (length es)) @ concat (map frame_bytes es)"
  let ?it = "\<lparr>ii_data = ?body, ii_offset = 4, ii_remaining = of_nat (length es)\<rparr>"
  have ge: "length es \<le> length (concat (map frame_bytes es))"
    by (induction es) (simp_all add: frame_bytes_def)
  then have n: "length es < 2 ^ 32" using assms(3) by simp
  have l: "unat (of_nat (length ?body) :: u32) = length ?body" "unat (of_nat (length es) :: u32) = length es"
    using assms(3) n by (simp_all only: unat_of_nat) simp_all
  note en = batch_encode_eq [OF assms(2), of compress cdc]
  have it: "inner_iter_new ?body = Inr ?it" by (simp add: inner_iter_new_def)
  note w = inner_walk [OF assms(2) n, of "put_u32 (of_nat (length es))", simplified length_put]
  have "wal_entry_from_bytes (entry_bytes (CompressedBatch cdc (of_nat (length ?body)) (compress ?body)))
      = Inr (CompressedBatch cdc (of_nat (length ?body)) (compress ?body))" by (rule entry_roundtrip) simp
  then have "bindr (wal_entry_write_into_bytes (CompressedBatch cdc (of_nat (length ?body)) (compress ?body)))
      (\<lambda>b. bindr (wal_entry_from_bytes b) (decompress_wal_entry decompress)) = Inr (Some ?body)"
    using assms(1) [of ?body] l(1)
    by (cases cdc) (simp add: entry_bytes_def decompress_wal_entry_def batch_decompress_def del: length_append)
  moreover have "find_record_by ?body ks matches = find_in (Suc (length es)) ?it ks matches"
    using it l(2) by (simp add: find_record_by_def del: find_in.simps)
  ultimately show ?thesis using en it w entry_roundtrip [OF assms(4)] by (simp del: find_in.simps inner_collect.simps)
qed

theorem batch_roundtrip_witness:
  "\<exists>cb body. batch_encode (\<lambda>b. b) [Record 1 [7] [8, 9] False, Remove 2 [7]] Lz4 = Inr cb
     \<and> bindr (wal_entry_write_into_bytes (CompressedBatch (cb_codec cb) (cb_uncompressed_len cb) (cb_body cb)))
         (\<lambda>b. bindr (wal_entry_from_bytes b) (decompress_wal_entry (\<lambda>b n. if length b = n then Some b else None))) = Inr (Some body)
     \<and> find_record_by body 1 (\<lambda>k. k = [7]) = Inr (Some ([7], [8, 9]))
     \<and> wal_entry_from_bytes (entry_bytes (Record 3 [1, 2] [] True)) = Inr (Record 3 [1, 2] [] True)"
proof -
  have "list_all inner_ok [Record 1 [7] [8, 9] False, Remove 2 [7]]" "wal_entry_ok (Record 3 [1, 2] [] True)"
    by (simp_all add: inner_ok_def record_len_def)
  moreover have "length (put_u32 (of_nat (length [Record 1 [7] [8, 9] False, Remove 2 [7]])) @ concat (map frame_bytes [Record 1 [7] [8, 9] False, Remove 2 [7]])) < 2 ^ 32"
    by (simp add: frame_bytes_def entry_bytes_def)
  ultimately show ?thesis
    using batch_roundtrip [of "\<lambda>b n. if length b = n then Some b else None" "\<lambda>b. b" "[Record 1 [7] [8, 9] False, Remove 2 [7]]" "Record 3 [1, 2] [] True" Lz4 1 "\<lambda>k. k = [7]"]
    by (fastforce simp del: inner_collect.simps)
qed

end
