(* ===== verification/Spec2Isabelle.thy ===== *)
theory Spec2Isabelle
  imports Sorted_Map Math_Util Var_Int Cell Crc_Frame Wal_Allocator Wal_Tracker Wal_Recovery Wal_Read Index_Flush Format_Type Wal_Entry
begin

text \<open>
  \<^bold>\<open>Tidehunter\<close>: a verification of the storage engine under \<open>src/tidehunter\<close>.

  \<^bold>\<open>The program.\<close> Values are appended to a write-ahead log; an index maps every key to the log position
  of its latest value. The index is cut into cells; each cell has an in-memory table of recent
  writes (\<open>IndexTable\<close>) over blobs written to a second log by a flusher. A tracker follows which
  positions are fully applied, and the frontier it publishes decides what may be flushed or seen by
  a checkpoint.

  \<^bold>\<open>Conventions.\<close> Machine integers that wrap in release builds are words, \<open>usize\<close> is \<open>nat\<close>, bytes are
  lists of 8-bit words. A panic is the left side of \<open>'a res\<close>; a call that may wait or loop forever
  returns an option, with \<open>None\<close> when it never returns. A \<open>BTreeMap\<close> is a sorted association list (\<open>Sorted_Map\<close>). Debug-only assertions are
  left out. The checksum function is a parameter.

  \<^bold>\<open>Theories.\<close>
  \<^item> \<open>Prelude\<close>, \<open>Sorted_Map\<close>: panics, slices, big-endian bytes, sorted maps; the contracts \<open>codec\<close>
    and \<open>ordered_map\<close>.
  \<^item> \<open>Math_Util\<close> (\<open>math.rs\<close>), \<open>Var_Int\<close> (\<open>primitives/var_int.rs\<close>), \<open>Cell\<close> (\<open>cell.rs\<close>),
    \<open>Crc_Frame\<close> (\<open>crc.rs\<close>): helpers and encodings, with their round trips and bounds.
  \<^item> \<open>Wal_Position\<close>, \<open>Wal_Layout\<close>, \<open>Wal_Allocator\<close>, \<open>Wal_Tracker\<close>, \<open>Wal_Files\<close>, \<open>Wal_Mapper\<close>,
    \<open>Wal_Log\<close> (\<open>wal/*.rs\<close>): positions, fragments, the lock-free allocator, the tracker thread, the
    files, the mapper thread, and writing, iterating, recovering and reading the log.
    \<open>Wal_Memory\<close> and \<open>Wal_Roundtrip\<close> show that replay returns what was written; \<open>Wal_Read\<close> that
    random reads do; \<open>Wal_Recovery\<close> what recovery leaves behind. \<open>Wal_Entry\<close> (\<open>WalEntry\<close> of \<open>db.rs\<close>,
    \<open>compressed_batch.rs\<close>): the entries of the log and compressed batches, with their round trips.
  \<^item> \<open>Index_Position\<close>, \<open>Flat_Buffer\<close>, \<open>Index_Table\<close>, \<open>Index_Merge\<close>, \<open>Index_Flush\<close>
    (\<open>index/index_table/*.rs\<close>): index entries, the packed buffer byte by byte, writes, reads and
    scans of a cell's table, its bulk operations, and the end of a flush. The contract
    \<open>versioned_store\<close> is what clients of the table rely on.
  \<^item> \<open>Key_Shape\<close> (\<open>key_shape.rs\<close>): key spaces, the routing of keys to cells and the registry of key
    spaces. \<open>Index_Codec\<close> (\<open>index_table/mod.rs\<close>): the serialized stream of a table.
  \<^item> \<open>Index_Format\<close> (\<open>index/index_format.rs\<close>, \<open>index/utils.rs\<close>, \<open>lookup.rs\<close>): what the on-disk formats share.
    \<open>Lookup_Header\<close> (\<open>index/lookup_header.rs\<close>): the header format; the contract \<open>section_buffer\<close> is what
    its walk over micro-cells relies on. \<open>Uniform_Lookup\<close> (\<open>index/uniform_lookup.rs\<close>): the uniform format
    and its moving window, which is shown to stop.
  \<^item> \<open>Index_Levels\<close> (\<open>index/levels.rs\<close>): the levels and shards of a cell. \<open>Format_Type\<close>
    (\<open>IndexFormatType\<close>, and \<open>lookup_disk_levels\<close> and \<open>execute_walk\<close> of \<open>large_table.rs\<close>): the contract
    \<open>blob_format\<close> both formats satisfy, and the reads through several levels of blobs.

  \<^bold>\<open>Bounds and fuel.\<close> Loops that may not stop are partial functions with an option result, and the
  properties show that they return. The drivers of an iterator take a number of steps; the round trips
  use one step more than there are entries.

  \<^bold>\<open>Not modelled.\<close> The threads that drive these components: the flusher's choice of what to write, the
  front end of the database (\<open>db.rs\<close>), the rows of the large table with their locks and the state of
  their entries (of \<open>large_table.rs\<close> only the reads through the levels of a cell are modelled), the
  pending table, replay into the tables, relocation, checkpoints, the control file and the caches.
  Metrics, configuration parsing, file locks, the msync thread, and the crates around the engine
  (benchmarks, orchestrator, console) do not change what is stored or read.
\<close>

end
